(* ===== verification/OS_Prelude.thy ===== *)
theory OS_Prelude
  imports Main "HOL-Library.Word"
begin

text \<open>
  The prelude: the machine types of the i386 target (\<^verbatim>\<open>src/source/comm/types.h\<close>), the
  collections of rewrite rules the component theories share, and generic facts on lists and
  words. A C \<^verbatim>\<open>int\<close> is kept as a 32-bit word; \<^const>\<open>sint\<close> reads it as the signed value
  the C code compares. Pointers are 32-bit addresses and the null pointer is \<open>0\<close>.
\<close>

unbundle bit_operations_syntax

named_theorems list_ops \<open>definitions of the intrusive list operations\<close>
named_theorems setters \<open>field access after a pointer write\<close>

type_synonym uint8_t = "8 word"
type_synonym uint16_t = "16 word"
type_synonym uint32_t = "32 word"
type_synonym cint = "32 word"
type_synonym addr = "32 word"

section \<open>First and last element with a default\<close>

fun hd_or :: "'a \<Rightarrow> 'a list \<Rightarrow> 'a" where
  "hd_or d [] = d"
| "hd_or d (x # xs) = x"

fun last_or :: "'a \<Rightarrow> 'a list \<Rightarrow> 'a" where
  "last_or d [] = d"
| "last_or d (x # xs) = last_or x xs"

lemma hd_or_append [simp]: "hd_or d (xs @ ys) = hd_or (hd_or d ys) xs"
  by (cases xs) auto

lemma last_or_append [simp]: "last_or d (xs @ ys) = last_or (last_or d xs) ys"
  by (induction xs arbitrary: d) auto

lemma last_or_in: "xs \<noteq> [] \<Longrightarrow> last_or d xs \<in> set xs"
proof (induction xs arbitrary: d)
  case (Cons x xs)
  then show ?case by (cases xs) auto
qed simp

lemma hd_or_in: "xs \<noteq> [] \<Longrightarrow> hd_or d xs \<in> set xs"
  by (cases xs) auto

lemma last_or_cases: "last_or d xs = d \<or> last_or d xs \<in> set xs"
  by (cases "xs = []") (auto simp: last_or_in)

lemma hd_or_cases: "hd_or d xs = d \<or> hd_or d xs \<in> set xs"
  by (cases xs) auto

lemma last_or_eq_default: "d \<notin> set xs \<Longrightarrow> last_or d xs = d \<longleftrightarrow> xs = []"
  by (metis last_or.simps(1) last_or_in)

lemma hd_or_eq_default: "d \<notin> set xs \<Longrightarrow> hd_or d xs = d \<longleftrightarrow> xs = []"
  by (cases xs) auto

lemma last_or_last: "xs \<noteq> [] \<Longrightarrow> last_or d xs = last xs"
  by (induction xs arbitrary: d) auto

lemma hd_or_hd: "xs \<noteq> [] \<Longrightarrow> hd_or d xs = hd xs"
  by (cases xs) auto

section \<open>Words as counters\<close>

lemma card_addr: "card (UNIV :: addr set) = 2 ^ 32"
  by (simp add: card_word)

lemma distinct_nonnull_length:
  assumes "distinct xs" and "(0 :: addr) \<notin> set xs"
  shows "length xs < 2 ^ 32"
proof -
  have "length xs = card (set xs)" using assms(1) by (simp add: distinct_card)
  also have "\<dots> < card (UNIV :: addr set)"
    by (rule psubset_card_mono) (use assms(2) in auto)
  finally show ?thesis by (simp add: card_addr)
qed

lemma unat_below: "unat (w :: 32 word) < 2 ^ 32"
  using unsigned_less [of w, where ?'a = nat] by simp

lemma addr_of_nat_eq_0: "n < 2 ^ 32 \<Longrightarrow> (of_nat n :: 32 word) = 0 \<longleftrightarrow> n = 0"
  by (auto simp: word_of_nat_eq_0_iff dest: nat_dvd_not_less)

lemma sint_small:
  assumes "unat (w :: 32 word) < 2 ^ 31"
  shows "sint w = int (unat w)"
proof -
  have "int (unat w) < int (2 ^ 31)" using assms by (simp only: of_nat_less_iff)
  moreover have "- (2 ^ 31) \<le> uint w" by (rule order_trans [OF _ uint_ge_0]) simp
  ultimately have "signed_take_bit 31 (uint w) = uint w"
    by (intro signed_take_bit_int_eq_self) simp_all
  then show ?thesis by (simp add: sint_uint)
qed

lemma sint_below: "sint (w :: 32 word) < 2 ^ 31"
  using sint_lt [of w] by simp

lemma sint_above: "- (2 ^ 31) \<le> sint (w :: 32 word)"
  using sint_ge [of w] by simp

lemma sint_pos_decr:
  assumes "0 < sint (w :: 32 word)"
  shows "sint (w - 1) = sint w - 1"
proof -
  have "signed_take_bit 31 (sint w - 1) = sint w - 1"
    using assms sint_below [of w] by (intro signed_take_bit_int_eq_self) simp_all
  then show ?thesis by (simp add: sint_word_ariths)
qed

lemma sint_incr:
  assumes "sint (w :: 32 word) < 2 ^ 31 - 1"
  shows "sint (w + 1) = sint w + 1"
proof -
  have "signed_take_bit 31 (sint w + 1) = sint w + 1"
    using assms sint_above [of w] by (intro signed_take_bit_int_eq_self) simp_all
  then show ?thesis by (simp add: sint_word_ariths)
qed

lemma sint_eq_0 [simp]: "sint (w :: 32 word) = 0 \<longleftrightarrow> w = 0"
  by (metis signed_0 signed_word_eqI)

section \<open>Masks\<close>

lemma and_masks [simp]:
  "(w :: 32 word) AND 0xFFFF = take_bit 16 w" "(w :: 32 word) AND 0xFF = take_bit 8 w"
  "(w :: 32 word) AND 0xF = take_bit 4 w"
  by (simp_all add: take_bit_eq_mask mask_eq_exp_minus_1)

end
