(* ===== verification/Klist.thy ===== *)
theory Klist
  imports OS_Prelude
begin

text \<open>
  The intrusive doubly linked list of \<^verbatim>\<open>src/source/kernel/tools/list.c\<close> and
  \<^verbatim>\<open>list.h\<close>. Nodes live in a heap from addresses to \<^verbatim>\<open>list_node_t\<close>; a list
  header is a value of the record \<open>list_t\<close>, passed and returned by every operation the
  way the C code updates it through its pointer. The relation \<open>dll\<close> says that a header
  and a heap represent a sequence of node addresses; the lemmas show what every operation
  does to that sequence, and the locale \<open>node_list\<close> states these laws as the interface
  the scheduler, the semaphores and the mutexes are verified against.
\<close>

section \<open>Data\<close>

record list_node_t =
  pre :: addr
  nxt :: addr

record list_t =
  frist :: addr
  lst :: addr
  count :: cint

type_synonym node_heap = "addr \<Rightarrow> list_node_t"

definition set_pre :: "addr \<Rightarrow> addr \<Rightarrow> node_heap \<Rightarrow> node_heap" where
  "set_pre n v h = h(n := (h n)\<lparr>pre := v\<rparr>)"

definition set_nxt :: "addr \<Rightarrow> addr \<Rightarrow> node_heap \<Rightarrow> node_heap" where
  "set_nxt n v h = h(n := (h n)\<lparr>nxt := v\<rparr>)"

section \<open>Operations\<close>

definition list_node_init :: "addr \<Rightarrow> node_heap \<Rightarrow> node_heap" where
  [list_ops]: "list_node_init n h = set_pre n 0 (set_nxt n 0 h)"

definition list_node_pre :: "addr \<Rightarrow> node_heap \<Rightarrow> addr" where
  [list_ops]: "list_node_pre n h = pre (h n)"

definition list_node_next :: "addr \<Rightarrow> node_heap \<Rightarrow> addr" where
  [list_ops]: "list_node_next n h = nxt (h n)"

definition list_init :: list_t where
  "list_init = \<lparr>frist = 0, lst = 0, count = 0\<rparr>"

definition list_is_empty :: "list_t \<Rightarrow> bool" where
  [list_ops]: "list_is_empty l \<longleftrightarrow> count l = 0"

definition list_count :: "list_t \<Rightarrow> cint" where
  [list_ops]: "list_count l = count l"

definition list_first :: "list_t \<Rightarrow> addr" where
  [list_ops]: "list_first l = frist l"

definition list_last :: "list_t \<Rightarrow> addr" where
  [list_ops]: "list_last l = lst l"

definition list_insert_first :: "list_t \<Rightarrow> addr \<Rightarrow> node_heap \<Rightarrow> list_t \<times> node_heap" where
  [list_ops]: "list_insert_first l n h =
    (let h1 = set_nxt n (frist l) h;
         h2 = set_pre n 0 h1
     in if count l = 0
        then (l\<lparr>lst := n, frist := n, count := count l + 1\<rparr>, h2)
        else (l\<lparr>frist := n, count := count l + 1\<rparr>, set_pre (frist l) n h2))"

definition list_insert_last :: "list_t \<Rightarrow> addr \<Rightarrow> node_heap \<Rightarrow> list_t \<times> node_heap" where
  [list_ops]: "list_insert_last l n h =
    (let h1 = set_pre n (lst l) h;
         h2 = set_nxt n 0 h1
     in if count l = 0
        then (l\<lparr>lst := n, frist := n, count := count l + 1\<rparr>, h2)
        else (l\<lparr>lst := n, count := count l + 1\<rparr>, set_nxt (lst l) n h2))"

definition list_pop_first :: "list_t \<Rightarrow> node_heap \<Rightarrow> addr \<times> list_t \<times> node_heap" where
  [list_ops]: "list_pop_first l h =
    (if count l = 0 then (0, l, h)
     else
       let remove_node = frist l;
           l1 = l\<lparr>frist := nxt (h remove_node)\<rparr>;
           (l2, h2) = (if frist l1 = 0 then (l1\<lparr>lst := 0\<rparr>, h)
                       else (l1, set_pre (nxt (h remove_node)) 0 h));
           h3 = set_pre remove_node 0 (set_nxt remove_node 0 h2)
       in (remove_node, l2\<lparr>count := count l2 - 1\<rparr>, h3))"

definition list_pop_last :: "list_t \<Rightarrow> node_heap \<Rightarrow> addr \<times> list_t \<times> node_heap" where
  [list_ops]: "list_pop_last l h =
    (if count l = 0 then (0, l, h)
     else
       let remove_node = lst l;
           l1 = l\<lparr>lst := pre (h remove_node)\<rparr>;
           (l2, h2) = (if lst l1 = 0 then (l1\<lparr>frist := 0\<rparr>, h)
                       else (l1, set_nxt (pre (h remove_node)) 0 h));
           h3 = set_pre remove_node 0 (set_nxt remove_node 0 h2)
       in (remove_node, l2\<lparr>count := count l2 - 1\<rparr>, h3))"

definition list_pop :: "list_t \<Rightarrow> addr \<Rightarrow> node_heap \<Rightarrow> addr \<times> list_t \<times> node_heap" where
  [list_ops]: "list_pop l n h =
    (let l1 = (if n = frist l then l\<lparr>frist := nxt (h n)\<rparr> else l);
         l2 = (if n = lst l1 then l1\<lparr>lst := pre (h n)\<rparr> else l1);
         h1 = (if pre (h n) \<noteq> 0 then set_nxt (pre (h n)) (nxt (h n)) h else h);
         h2 = (if nxt (h1 n) \<noteq> 0 then set_pre (nxt (h1 n)) (pre (h1 n)) h1 else h1);
         h3 = set_pre n 0 (set_nxt n 0 h2)
     in (n, l2\<lparr>count := count l2 - 1\<rparr>, h3))"

section \<open>Reading after a pointer write\<close>

lemma pre_set_pre [setters, simp]: "pre (set_pre n v h m) = (if m = n then v else pre (h m))"
  by (simp add: set_pre_def)

lemma nxt_set_pre [setters, simp]: "nxt (set_pre n v h m) = nxt (h m)"
  by (simp add: set_pre_def)

lemma pre_set_nxt [setters, simp]: "pre (set_nxt n v h m) = pre (h m)"
  by (simp add: set_nxt_def)

lemma nxt_set_nxt [setters, simp]: "nxt (set_nxt n v h m) = (if m = n then v else nxt (h m))"
  by (simp add: set_nxt_def)

lemma set_pre_other [simp]: "m \<noteq> n \<Longrightarrow> set_pre n v h m = h m"
  by (simp add: set_pre_def)

lemma set_nxt_other [simp]: "m \<noteq> n \<Longrightarrow> set_nxt n v h m = h m"
  by (simp add: set_nxt_def)

section \<open>The represented sequence\<close>

text \<open>\<open>dseg h p xs q\<close>: the nodes \<open>xs\<close> are linked both ways in \<open>h\<close>, the first one has
  predecessor \<open>p\<close> and the last one has successor \<open>q\<close>.\<close>

fun dseg :: "node_heap \<Rightarrow> addr \<Rightarrow> addr list \<Rightarrow> addr \<Rightarrow> bool" where
  "dseg h p [] q = True"
| "dseg h p (x # xs) q = (pre (h x) = p \<and> nxt (h x) = hd_or q xs \<and> dseg h x xs q)"

definition dll :: "list_t \<Rightarrow> node_heap \<Rightarrow> addr list \<Rightarrow> bool" where
  "dll l h xs \<longleftrightarrow> distinct xs \<and> 0 \<notin> set xs \<and> frist l = hd_or 0 xs \<and> lst l = last_or 0 xs
     \<and> count l = of_nat (length xs) \<and> dseg h 0 xs 0"

lemma dseg_append [simp]:
  "dseg h p (xs @ ys) q \<longleftrightarrow> dseg h p xs (hd_or q ys) \<and> dseg h (last_or p xs) ys q"
  by (induction xs arbitrary: p) auto

lemma dseg_cong:
  "(\<And>x. x \<in> set xs \<Longrightarrow> h' x = h x) \<Longrightarrow> dseg h' p xs q \<longleftrightarrow> dseg h p xs q"
  by (induction xs arbitrary: p) auto

lemma dseg_set_pre [simp]: "n \<notin> set xs \<Longrightarrow> dseg (set_pre n v h) p xs q \<longleftrightarrow> dseg h p xs q"
  by (rule dseg_cong) (auto simp: set_pre_def)

lemma dseg_set_nxt [simp]: "n \<notin> set xs \<Longrightarrow> dseg (set_nxt n v h) p xs q \<longleftrightarrow> dseg h p xs q"
  by (rule dseg_cong) (auto simp: set_nxt_def)

text \<open>Redirecting the link that leaves a segment, at either end.\<close>

lemma dseg_set_nxt_last:
  "distinct xs \<Longrightarrow> dseg h p xs q \<Longrightarrow> xs \<noteq> [] \<Longrightarrow>
     dseg (set_nxt (last_or d xs) q' h) p xs q'"
proof (induction xs arbitrary: p d)
  case (Cons x xs)
  then show ?case
    using last_or_in [of xs x] by (cases "xs = []") (auto simp: neq_Nil_conv)
qed simp

lemma dseg_set_pre_first:
  "distinct xs \<Longrightarrow> dseg h p xs q \<Longrightarrow> xs \<noteq> [] \<Longrightarrow>
     dseg (set_pre (hd_or d xs) p' h) p' xs q"
  by (cases xs) auto

lemma dll_Nil [simp]: "dll l h [] \<longleftrightarrow> frist l = 0 \<and> lst l = 0 \<and> count l = 0"
  by (simp add: dll_def)

lemma dll_count_zero: "dll l h xs \<Longrightarrow> count l = 0 \<longleftrightarrow> xs = []"
  by (auto simp: dll_def addr_of_nat_eq_0 dest: distinct_nonnull_length)

lemma dll_cong: "(\<And>x. x \<in> set xs \<Longrightarrow> h' x = h x) \<Longrightarrow> dll l h' xs \<longleftrightarrow> dll l h xs"
  using dseg_cong [of xs h' h] by (simp add: dll_def)

lemma dll_unique: "dll l h xs \<Longrightarrow> dll l h ys \<Longrightarrow> xs = ys"
proof -
  have "dseg h p xs 0 \<Longrightarrow> dseg h p ys 0 \<Longrightarrow> hd_or 0 xs = hd_or 0 ys \<Longrightarrow> 0 \<notin> set xs \<Longrightarrow>
      0 \<notin> set ys \<Longrightarrow> xs = ys" for p
  proof (induction xs arbitrary: p ys)
    case Nil
    then show ?case by (cases ys) auto
  next
    case (Cons x xs)
    then obtain ys' where "ys = x # ys'" by (cases ys) auto
    with Cons show ?case by auto
  qed
  then show "dll l h xs \<Longrightarrow> dll l h ys \<Longrightarrow> xs = ys" by (auto simp: dll_def)
qed

section \<open>What the operations do to the sequence\<close>

lemma dll_list_init [simp]: "dll list_init h xs \<longleftrightarrow> xs = []"
  by (cases xs) (auto simp: dll_def list_init_def)

lemma dll_list_is_empty: "dll l h xs \<Longrightarrow> list_is_empty l \<longleftrightarrow> xs = []"
  by (simp add: list_is_empty_def dll_count_zero)

lemma dll_list_first: "dll l h xs \<Longrightarrow> list_first l = hd_or 0 xs"
  by (simp add: list_first_def dll_def)

lemma dll_list_last: "dll l h xs \<Longrightarrow> list_last l = last_or 0 xs"
  by (simp add: list_last_def dll_def)

lemma dll_list_count: "dll l h xs \<Longrightarrow> list_count l = of_nat (length xs)"
  by (simp add: list_count_def dll_def)

lemma dll_insert_last:
  assumes "dll l h xs" and "n \<notin> set xs" and "n \<noteq> 0"
    and "list_insert_last l n h = (l', h')"
  shows "dll l' h' (xs @ [n])"
proof (cases "xs = []")
  case True
  with assms show ?thesis by (auto simp: list_ops dll_def)
next
  case False
  with assms(1) have "last_or 0 xs \<in> set xs" and "hd_or n xs = hd_or 0 xs"
    by (auto simp: last_or_in hd_or_hd)
  moreover have "dseg (set_nxt (last_or 0 xs) n h2) 0 xs n" if "dseg h2 0 xs 0" for h2
    using assms(1) that False by (intro dseg_set_nxt_last [where q = 0]) (auto simp: dll_def)
  ultimately show ?thesis
    using assms False
    by (auto simp: list_ops dll_count_zero Let_def) (auto simp: dll_def)
qed

lemma dll_insert_first:
  assumes "dll l h xs" and "n \<notin> set xs" and "n \<noteq> 0"
    and "list_insert_first l n h = (l', h')"
  shows "dll l' h' (n # xs)"
proof (cases "xs = []")
  case True
  with assms show ?thesis by (auto simp: list_ops dll_def)
next
  case False
  with assms(1) have "hd_or 0 xs \<in> set xs" by (auto simp: hd_or_in)
  moreover have "dseg (set_pre (hd_or 0 xs) n h2) n xs 0" if "dseg h2 0 xs 0" for h2
    using assms(1) that False by (intro dseg_set_pre_first [where p = 0]) (auto simp: dll_def)
  moreover have "last_or n xs = last_or 0 xs" using False by (simp add: last_or_last)
  ultimately show ?thesis
    using assms False
    by (auto simp: list_ops dll_count_zero Let_def) (auto simp: dll_def)
qed

text \<open>Unlinking a node from the middle, the front or the back of the sequence.\<close>

lemma dseg_unlink:
  assumes "distinct (xs @ n # ys)" and "0 \<notin> set (xs @ n # ys)"
    and "dseg h 0 (xs @ n # ys) 0"
    and "h1 = (if pre (h n) \<noteq> 0 then set_nxt (pre (h n)) (nxt (h n)) h else h)"
    and "h2 = (if nxt (h1 n) \<noteq> 0 then set_pre (nxt (h1 n)) (pre (h1 n)) h1 else h1)"
  shows "dseg h2 0 (xs @ ys) 0"
proof -
  have p: "pre (h n) = last_or 0 xs" and q: "nxt (h n) = hd_or 0 ys"
    using assms(3) by auto
  have h1: "dseg h1 0 xs (hd_or 0 ys)" "dseg h1 n ys 0" "pre (h1 n) = last_or 0 xs"
    "nxt (h1 n) = hd_or 0 ys"
  proof -
    have "last_or 0 xs \<notin> set (n # ys)" using assms(1,2) last_or_cases [of 0 xs] by auto
    then show "dseg h1 n ys 0" "pre (h1 n) = last_or 0 xs" "nxt (h1 n) = hd_or 0 ys"
      using assms(3,4) p q by auto
    show "dseg h1 0 xs (hd_or 0 ys)"
      using assms p q dseg_set_nxt_last [of xs h 0 n 0 "hd_or 0 ys"]
      by (cases "xs = []") (auto simp: last_or_eq_default)
  qed
  show ?thesis
  proof (cases "ys = []")
    case True
    with h1 assms(5) show ?thesis by simp
  next
    case False
    then have "hd_or 0 ys \<in> set ys" by (simp add: hd_or_in)
    moreover from this have "hd_or 0 ys \<notin> set xs" "hd_or 0 ys \<noteq> 0" using assms(1,2) by auto
    moreover have "dseg (set_pre (hd_or 0 ys) (last_or 0 xs) h1) (last_or 0 xs) ys 0"
      using h1(2) assms(1) False by (intro dseg_set_pre_first [where p = n]) auto
    ultimately show ?thesis using h1 assms(5) by simp
  qed
qed

lemma dll_list_pop:
  assumes "dll l h (xs @ n # ys)" and "list_pop l n h = (r, l', h')"
  shows "r = n \<and> dll l' h' (xs @ ys) \<and> pre (h' n) = 0 \<and> nxt (h' n) = 0"
proof -
  define h1 where "h1 = (if pre (h n) \<noteq> 0 then set_nxt (pre (h n)) (nxt (h n)) h else h)"
  define h2 where "h2 = (if nxt (h1 n) \<noteq> 0 then set_pre (nxt (h1 n)) (pre (h1 n)) h1 else h1)"
  have d: "distinct (xs @ n # ys)" "0 \<notin> set (xs @ n # ys)" "dseg h 0 (xs @ n # ys) 0"
    using assms(1) by (auto simp: dll_def)
  have "dseg h2 0 (xs @ ys) 0" by (rule dseg_unlink [OF d h1_def h2_def])
  then have seg: "dseg (set_pre n 0 (set_nxt n 0 h2)) 0 (xs @ ys) 0" using d(1) by simp
  have l: "frist l = hd_or n xs" "lst l = last_or n ys" "pre (h n) = last_or 0 xs"
    "nxt (h n) = hd_or 0 ys" "count l = of_nat (length xs + length ys) + 1"
    using assms(1) by (auto simp: dll_def)
  have eq: "r = n" "h' = set_pre n 0 (set_nxt n 0 h2)" "count l' = count l - 1"
    "frist l' = (if n = frist l then nxt (h n) else frist l)"
    "lst l' = (if n = lst l then pre (h n) else lst l)"
    using assms(2) by (auto simp: list_pop_def Let_def h1_def h2_def)
  have "frist l' = hd_or 0 (xs @ ys)" using d(1) eq(4) l by (cases xs) auto
  moreover have "lst l' = last_or 0 (xs @ ys)"
    using d(1) eq(5) l last_or_eq_default [of n ys]
    by (cases "ys = []") (auto simp: last_or_last)
  ultimately show ?thesis using d seg eq l by (simp add: dll_def)
qed

lemma dll_list_pop_first:
  assumes "dll l h (n # ys)" and "list_pop_first l h = (r, l', h')"
  shows "r = n \<and> dll l' h' ys \<and> pre (h' n) = 0 \<and> nxt (h' n) = 0"
proof (cases "ys = []")
  case True
  with assms show ?thesis by (auto simp: list_ops dll_count_zero) (auto simp: dll_def)
next
  case False
  then have y: "hd_or 0 ys \<in> set ys" by (simp add: hd_or_in)
  have "dseg (set_pre (hd_or 0 ys) 0 h) 0 ys 0"
    using assms(1) False by (intro dseg_set_pre_first [where p = n]) (auto simp: dll_def)
  moreover have "last_or n ys = last_or 0 ys" using False by (simp add: last_or_last)
  ultimately show ?thesis
    using assms y
    by (auto simp: list_ops dll_count_zero Let_def split: if_splits) (auto simp: dll_def)
qed

lemma list_pop_first_empty: "dll l h [] \<Longrightarrow> list_pop_first l h = (0, l, h)"
  by (simp add: list_pop_first_def)

lemma dll_list_pop_last:
  assumes "dll l h (xs @ [n])" and "list_pop_last l h = (r, l', h')"
  shows "r = n \<and> dll l' h' xs \<and> pre (h' n) = 0 \<and> nxt (h' n) = 0"
proof (cases "xs = []")
  case True
  with assms show ?thesis by (auto simp: list_ops dll_count_zero) (auto simp: dll_def)
next
  case False
  then have y: "last_or 0 xs \<in> set xs" by (simp add: last_or_in)
  have "dseg (set_nxt (last_or 0 xs) 0 h) 0 xs 0"
    using assms(1) False by (intro dseg_set_nxt_last [where q = n]) (auto simp: dll_def)
  moreover have "hd_or n xs = hd_or 0 xs" using False by (simp add: hd_or_hd)
  ultimately show ?thesis
    using assms y
    by (auto simp: list_ops dll_count_zero Let_def split: if_splits) (auto simp: dll_def)
qed

lemma list_pop_last_empty: "dll l h [] \<Longrightarrow> list_pop_last l h = (0, l, h)"
  by (simp add: list_pop_last_def)

section \<open>Nodes outside the list are not touched\<close>

lemma insert_last_frame:
  assumes "dll l h xs" and "list_insert_last l n h = (l', h')" and "m \<notin> set (n # xs)"
  shows "h' m = h m"
proof -
  have "count l \<noteq> 0 \<Longrightarrow> m \<noteq> lst l"
    using assms(1,3) last_or_in [of xs 0] by (auto simp: dll_count_zero) (auto simp: dll_def)
  then show ?thesis
    using assms(2,3) by (auto simp: list_insert_last_def Let_def set_pre_def set_nxt_def split: if_splits)
qed

lemma insert_first_frame:
  assumes "dll l h xs" and "list_insert_first l n h = (l', h')" and "m \<notin> set (n # xs)"
  shows "h' m = h m"
proof -
  have "count l \<noteq> 0 \<Longrightarrow> m \<noteq> frist l"
    using assms(1,3) hd_or_in [of xs 0] by (auto simp: dll_count_zero) (auto simp: dll_def)
  then show ?thesis
    using assms(2,3) by (auto simp: list_insert_first_def Let_def set_pre_def set_nxt_def split: if_splits)
qed

lemma list_pop_frame:
  assumes "dll l h (xs @ n # ys)" and "list_pop l n h = (r, l', h')"
    and "m \<notin> set (xs @ n # ys)"
  shows "h' m = h m"
proof -
  define h1 where "h1 = (if pre (h n) \<noteq> 0 then set_nxt (pre (h n)) (nxt (h n)) h else h)"
  define h2 where "h2 = (if nxt (h1 n) \<noteq> 0 then set_pre (nxt (h1 n)) (pre (h1 n)) h1 else h1)"
  have d: "distinct (xs @ n # ys)" "0 \<notin> set (xs @ n # ys)" "pre (h n) = last_or 0 xs"
    "nxt (h n) = hd_or 0 ys"
    using assms(1) by (auto simp: dll_def)
  have m: "m \<noteq> n" "pre (h n) \<noteq> 0 \<Longrightarrow> m \<noteq> pre (h n)" "nxt (h n) \<noteq> 0 \<Longrightarrow> m \<noteq> nxt (h n)"
    using d assms(3) last_or_cases [of 0 xs] hd_or_cases [of 0 ys] by auto
  have "pre (h n) \<noteq> n" using d last_or_cases [of 0 xs] by auto
  then have "nxt (h1 n) = nxt (h n)" by (simp add: h1_def)
  moreover have "h1 m = h m" using m by (simp add: h1_def)
  ultimately have "h2 m = h m" using m by (simp add: h2_def)
  moreover have "h' = set_pre n 0 (set_nxt n 0 h2)"
    using assms(2) by (auto simp: list_pop_def Let_def h1_def h2_def)
  ultimately show ?thesis using m(1) by simp
qed

lemma list_pop_first_frame:
  assumes "dll l h (n # ys)" and "list_pop_first l h = (r, l', h')" and "m \<notin> set (n # ys)"
  shows "h' m = h m"
proof -
  have "count l \<noteq> 0" using assms(1) by (simp add: dll_count_zero)
  moreover have "frist l = n" "nxt (h n) = hd_or 0 ys" using assms(1) by (auto simp: dll_def)
  moreover from this have "nxt (h n) \<noteq> 0 \<Longrightarrow> m \<noteq> nxt (h n)"
    using hd_or_cases [of 0 ys] assms(3) by auto
  ultimately show ?thesis
    using assms(2,3)
    by (auto simp: list_pop_first_def Let_def set_pre_def set_nxt_def split: if_splits)
qed

section \<open>The list interface\<close>

text \<open>
  What the clients of the list rely on: a header and a heap represent at most one sequence,
  the operations act on it as a queue with removal from the middle, and nodes that belong to
  no part of the sequence keep their links, so that lists over disjoint nodes share a heap.
\<close>

locale node_list =
  fixes rep :: "'l \<Rightarrow> ('n \<Rightarrow> 'c) \<Rightarrow> 'n list \<Rightarrow> bool"
    and null :: 'n
    and ins_last :: "'l \<Rightarrow> 'n \<Rightarrow> ('n \<Rightarrow> 'c) \<Rightarrow> 'l \<times> ('n \<Rightarrow> 'c)"
    and pop_first :: "'l \<Rightarrow> ('n \<Rightarrow> 'c) \<Rightarrow> 'n \<times> 'l \<times> ('n \<Rightarrow> 'c)"
    and pop :: "'l \<Rightarrow> 'n \<Rightarrow> ('n \<Rightarrow> 'c) \<Rightarrow> 'n \<times> 'l \<times> ('n \<Rightarrow> 'c)"
  assumes rep_distinct: "rep l h xs \<Longrightarrow> distinct xs"
    and rep_null: "rep l h xs \<Longrightarrow> null \<notin> set xs"
    and rep_cong: "(\<And>x. x \<in> set xs \<Longrightarrow> h' x = h x) \<Longrightarrow> rep l h' xs = rep l h xs"
    and rep_unique: "rep l h xs \<Longrightarrow> rep l h ys \<Longrightarrow> xs = ys"
    and ins_last_rep: "rep l h xs \<Longrightarrow> n \<notin> set xs \<Longrightarrow> n \<noteq> null \<Longrightarrow>
          rep (fst (ins_last l n h)) (snd (ins_last l n h)) (xs @ [n])"
    and ins_last_frame: "rep l h xs \<Longrightarrow> m \<notin> set (n # xs) \<Longrightarrow> snd (ins_last l n h) m = h m"
    and pop_first_rep: "rep l h (n # xs) \<Longrightarrow>
          fst (pop_first l h) = n \<and>
          rep (fst (snd (pop_first l h))) (snd (snd (pop_first l h))) xs"
    and pop_first_frame: "rep l h (n # xs) \<Longrightarrow> m \<notin> set (n # xs) \<Longrightarrow>
          snd (snd (pop_first l h)) m = h m"
    and pop_rep: "rep l h (xs @ n # ys) \<Longrightarrow>
          rep (fst (snd (pop l n h))) (snd (snd (pop l n h))) (xs @ ys)"
    and pop_frame: "rep l h (xs @ n # ys) \<Longrightarrow> m \<notin> set (xs @ n # ys) \<Longrightarrow>
          snd (snd (pop l n h)) m = h m"
begin

text \<open>Lists over other nodes survive every operation.\<close>

lemma ins_last_other:
  "rep l h xs \<Longrightarrow> rep k h zs \<Longrightarrow> set zs \<inter> set (n # xs) = {} \<Longrightarrow> rep k (snd (ins_last l n h)) zs"
  using rep_cong [of zs "snd (ins_last l n h)" h] ins_last_frame [of l h xs _ n] by blast

lemma pop_first_other:
  "rep l h (n # xs) \<Longrightarrow> rep k h zs \<Longrightarrow> set zs \<inter> set (n # xs) = {} \<Longrightarrow>
     rep k (snd (snd (pop_first l h))) zs"
  using rep_cong [of zs "snd (snd (pop_first l h))" h] pop_first_frame [of l h n xs] by blast

lemma pop_other:
  "rep l h (xs @ n # ys) \<Longrightarrow> rep k h zs \<Longrightarrow> set zs \<inter> set (xs @ n # ys) = {} \<Longrightarrow>
     rep k (snd (snd (pop l n h))) zs"
  using rep_cong [of zs "snd (snd (pop l n h))" h] pop_frame [of l h xs n ys] by blast

text \<open>Taking a node out and appending it again rotates it to the back.\<close>

lemma pop_ins_last:
  assumes "rep l h (xs @ n # ys)" and "pop l n h = (r, l1, h1)" and "ins_last l1 n h1 = (l2, h2)"
  shows "rep l2 h2 (xs @ ys @ [n])"
proof -
  have "distinct (xs @ n # ys)" "null \<notin> set (xs @ n # ys)"
    using assms(1) by (rule rep_distinct, rule rep_null)
  moreover have "rep l1 h1 (xs @ ys)" using pop_rep [OF assms(1)] assms(2) by simp
  ultimately show ?thesis using ins_last_rep [of l1 h1 "xs @ ys" n] assms(3) by auto
qed

text \<open>Moving a node from one list to the end of another.\<close>

lemma pop_move:
  assumes "rep l h (xs @ n # ys)" and "rep k h zs" and "set zs \<inter> set (xs @ n # ys) = {}"
    and "pop l n h = (r, l1, h1)" and "ins_last k n h1 = (k2, h2)"
  shows "rep l1 h2 (xs @ ys) \<and> rep k2 h2 (zs @ [n])"
proof -
  have dn: "distinct (xs @ n # ys)" "null \<notin> set (xs @ n # ys)"
    using assms(1) by (rule rep_distinct, rule rep_null)
  have l1: "rep l1 h1 (xs @ ys)" using pop_rep [OF assms(1)] assms(4) by simp
  have k: "rep k h1 zs" using pop_other [OF assms(1-3)] assms(4) by simp
  have "rep l1 h2 (xs @ ys)" using ins_last_other [OF k l1, of n] assms(3,5) dn by auto
  moreover have "rep k2 h2 (zs @ [n])" using ins_last_rep [OF k, of n] assms(3,5) dn by auto
  ultimately show ?thesis ..
qed

end

interpretation kl: node_list dll 0 list_insert_last list_pop_first list_pop
proof (unfold_locales, goal_cases)
  case (1 l h xs) then show ?case by (simp add: dll_def)
next
  case (2 l h xs) then show ?case by (simp add: dll_def)
next
  case (3 xs h' h l) then show ?case by (rule dll_cong)
next
  case (4 l h xs ys) then show ?case by (rule dll_unique)
next
  case (5 l h xs n) then show ?case by (metis dll_insert_last prod.collapse)
next
  case (6 l h xs m n) then show ?case by (metis insert_last_frame prod.collapse)
next
  case (7 l h n xs)
  then show ?case by (cases "list_pop_first l h") (auto dest: dll_list_pop_first)
next
  case (8 l h n xs m)
  then show ?case using list_pop_first_frame by (cases "list_pop_first l h") auto
next
  case (9 l h xs n ys)
  then show ?case by (cases "list_pop l n h") (auto dest: dll_list_pop)
next
  case (10 l h xs n ys m)
  then show ?case using list_pop_frame by (cases "list_pop l n h") auto
qed

section \<open>Queue behaviour\<close>

text \<open>Inserting a sequence of nodes at the back, and taking nodes from the front until a given
  number has been taken.\<close>

fun insert_all :: "addr list \<Rightarrow> list_t \<Rightarrow> node_heap \<Rightarrow> list_t \<times> node_heap" where
  "insert_all [] l h = (l, h)"
| "insert_all (n # ns) l h = (let (l1, h1) = list_insert_last l n h in insert_all ns l1 h1)"

fun pop_all :: "nat \<Rightarrow> list_t \<Rightarrow> node_heap \<Rightarrow> addr list" where
  "pop_all 0 l h = []"
| "pop_all (Suc k) l h = (let (n, l1, h1) = list_pop_first l h in n # pop_all k l1 h1)"

lemma insert_all_dll:
  assumes "dll l h xs" and "distinct (xs @ ns)" and "0 \<notin> set ns"
    and "insert_all ns l h = (l', h')"
  shows "dll l' h' (xs @ ns)"
  using assms
proof (induction ns arbitrary: l h xs)
  case (Cons n ns)
  obtain l1 h1 where i: "list_insert_last l n h = (l1, h1)" by force
  have "dll l1 h1 (xs @ [n])" using Cons.prems i by (intro dll_insert_last) auto
  then show ?case using Cons.IH [of l1 h1 "xs @ [n]"] Cons.prems i by auto
qed simp

lemma pop_all_dll: "dll l h xs \<Longrightarrow> pop_all (length xs) l h = xs"
proof (induction xs arbitrary: l h)
  case (Cons x xs)
  obtain r l1 h1 where p: "list_pop_first l h = (r, l1, h1)"
    by (cases "list_pop_first l h") auto
  then show ?case using Cons.IH [of l1 h1] dll_list_pop_first [OF Cons.prems p] by simp
qed simp

section \<open>Properties\<close>

text \<open>The results of an insertion and of a removal: what sequence they represent, which links
  they keep, and that a removed node is returned with cleared links.\<close>

definition inserted :: "node_heap \<Rightarrow> addr list \<Rightarrow> addr \<Rightarrow> addr list \<Rightarrow> list_t \<times> node_heap \<Rightarrow> bool" where
  "inserted h xs n ys res \<longleftrightarrow> (case res of (l', h') \<Rightarrow>
     dll l' h' ys \<and> (\<forall>m. m \<notin> set (n # xs) \<longrightarrow> h' m = h m))"

definition removed :: "addr \<Rightarrow> addr list \<Rightarrow> addr \<times> list_t \<times> node_heap \<Rightarrow> bool" where
  "removed n ys res \<longleftrightarrow> (case res of (r, l', h') \<Rightarrow>
     r = n \<and> dll l' h' ys \<and> pre (h' n) = 0 \<and> nxt (h' n) = 0)"

text \<open>C32. Inserting at either end: on a header and heap that represent \<open>xs\<close>,
  \<^verbatim>\<open>list_insert_last\<close> yields a representation of \<open>xs @ [n]\<close> and
  \<^verbatim>\<open>list_insert_first\<close> one of \<open>n # xs\<close>, for every node \<open>n\<close> that is not null and
  not in the list; no other node's links change.\<close>

theorem list_insert_correct:
  assumes "dll l h xs" and "n \<noteq> 0" and "n \<notin> set xs"
  shows "inserted h xs n (xs @ [n]) (list_insert_last l n h) \<and>
    inserted h xs n (n # xs) (list_insert_first l n h)"
proof -
  obtain l1 h1 l2 h2 where eq: "list_insert_last l n h = (l1, h1)" "list_insert_first l n h = (l2, h2)"
    by fastforce
  show ?thesis
    using dll_insert_last [OF assms(1,3,2) eq(1)] dll_insert_first [OF assms(1,3,2) eq(2)]
      insert_last_frame [OF assms(1) eq(1)] insert_first_frame [OF assms(1) eq(2)]
    by (simp add: inserted_def eq)
qed

text \<open>A list of two nodes at addresses 8 and 16, and a third node to insert.\<close>

definition two_nodes :: node_heap where
  "two_nodes = (\<lambda>a. \<lparr>pre = 0, nxt = 0\<rparr>)(8 := \<lparr>pre = 0, nxt = 16\<rparr>, 16 := \<lparr>pre = 8, nxt = 0\<rparr>)"

definition two_list :: list_t where
  "two_list = \<lparr>frist = 8, lst = 16, count = 2\<rparr>"

lemma two_list_dll: "dll two_list two_nodes [8, 16]"
  by (simp add: dll_def two_list_def two_nodes_def)

theorem list_insert_correct_witness:
  "case list_insert_last two_list 24 two_nodes of (l', h') \<Rightarrow> dll l' h' [8, 16, 24]"
  using list_insert_correct [OF two_list_dll, of 24] by (simp add: inserted_def split: prod.splits)

text \<open>C33. Removing: \<^verbatim>\<open>list_pop\<close> takes any node out of the middle of the sequence,
  \<^verbatim>\<open>list_pop_first\<close> and \<^verbatim>\<open>list_pop_last\<close> take the first and the last one; each
  returns the removed node with both its links cleared, and the rest is still a list.\<close>

theorem list_remove_correct:
  assumes "dll l h (xs @ n # ys)"
  shows "removed n (xs @ ys) (list_pop l n h) \<and>
    (xs = [] \<longrightarrow> removed n ys (list_pop_first l h)) \<and>
    (ys = [] \<longrightarrow> removed n xs (list_pop_last l h))"
proof -
  have "removed n (xs @ ys) (list_pop l n h)"
    using dll_list_pop [OF assms] by (cases "list_pop l n h") (auto simp: removed_def)
  moreover have "removed n ys (list_pop_first l h)" if "xs = []"
    using dll_list_pop_first [of l h n ys] assms that
    by (cases "list_pop_first l h") (auto simp: removed_def)
  moreover have "removed n xs (list_pop_last l h)" if "ys = []"
    using dll_list_pop_last [of l h xs n] assms that
    by (cases "list_pop_last l h") (auto simp: removed_def)
  ultimately show ?thesis by blast
qed

theorem list_remove_correct_witness: "removed 16 [8] (list_pop two_list 16 two_nodes)"
  using list_remove_correct [of two_list two_nodes "[8]" 16 "[]"] two_list_dll by simp

text \<open>First in, first out: appending any sequence of distinct nodes to an empty list and then
  popping from the front as often gives the nodes back in the order they were inserted.\<close>

lemma list_fifo:
  assumes "distinct ns" and "0 \<notin> set ns"
  shows "case insert_all ns list_init h of (l', h') \<Rightarrow> pop_all (length ns) l' h' = ns"
proof -
  obtain l' h' where eq: "insert_all ns list_init h = (l', h')" by fastforce
  have "dll l' h' ns" using insert_all_dll [of list_init h "[]" ns, OF _ _ assms(2) eq] assms(1)
    by (simp add: list_init_def)
  then show ?thesis by (simp add: eq pop_all_dll)
qed

lemma list_fifo_example:
  "case insert_all [8, 16, 24] list_init two_nodes of (l', h') \<Rightarrow> pop_all 3 l' h' = [8, 16, 24]"
  using list_fifo [of "[8, 16, 24]" two_nodes] by (simp add: numeral_3_eq_3)

end
