(* ===== verification/Machine.thy ===== *)
theory Machine
  imports Klist
begin

text \<open>
  The machine and the kernel's global state: the structures of
  \<^verbatim>\<open>src/source/kernel/include\<close> (\<^verbatim>\<open>cpu/cpu.h\<close>, \<^verbatim>\<open>cpu/irq.h\<close>,
  \<^verbatim>\<open>core/task.h\<close>, \<^verbatim>\<open>ipc/sem.h\<close>, \<^verbatim>\<open>ipc/mutex.h\<close>) as records, and the
  instruction wrappers of \<^verbatim>\<open>src/source/comm/cpuistr.h\<close>.

  \<^item> The tasks, semaphores and mutexes are reached through pointers, so each kind lives in a
    heap of its own, indexed by address. A \<^verbatim>\<open>task_t\<close> is split over three heaps: its three
    list nodes are in the node heap at the structure's offsets, its name is in the byte memory
    at the structure's start, and the remaining fields are in the record \<open>task_t\<close>.
  \<^item> Addresses the linker chooses (functions and static objects) are given by the symbol table
    \<open>symaddr\<close>, a parameter of the state that no operation writes.
  \<^item> The devices behind the I/O ports are a parameter too: \<open>dev\<close> answers a read from the
    history of port accesses so far.
  \<^item> \<open>kstk\<close> holds the \<^verbatim>\<open>irq_state_t state\<close> locals of the protected regions the
    running task is inside of, innermost first; they live on that task's stack, so a task switch
    saves and restores them together with \<open>eflags\<close>.
\<close>

section \<open>Structures\<close>

record segment_desc_t =
  limit15_0 :: uint16_t
  base15_0 :: uint16_t
  base23_16 :: uint8_t
  attr :: uint16_t
  base31_24 :: uint8_t

record gate_desc_t =
  offset15_0 :: uint16_t
  selector :: uint16_t
  gattr :: uint16_t
  offset31_16 :: uint16_t

record tss_t =
  t_pre_link :: uint32_t
  t_esp0 :: uint32_t
  t_ss0 :: uint32_t
  t_esp1 :: uint32_t
  t_ss1 :: uint32_t
  t_esp2 :: uint32_t
  t_ss2 :: uint32_t
  t_cr3 :: uint32_t
  t_eip :: uint32_t
  t_eflags :: uint32_t
  t_eax :: uint32_t
  t_ecx :: uint32_t
  t_edx :: uint32_t
  t_ebx :: uint32_t
  t_esp :: uint32_t
  t_ebp :: uint32_t
  t_esi :: uint32_t
  t_edi :: uint32_t
  t_es :: uint32_t
  t_cs :: uint32_t
  t_ss :: uint32_t
  t_ds :: uint32_t
  t_fs :: uint32_t
  t_gs :: uint32_t
  t_ldt :: uint32_t
  t_iomap :: uint32_t

datatype task_state = TASK_CREATED | TASK_RUNNING | TASK_SLEEP | TASK_READY | TASK_WAITTING

record task_t =
  state :: task_state
  slice_ticks :: cint
  time_ticks :: cint
  sleep_ticks :: cint
  tss :: tss_t
  tss_sel :: cint

record sem_t =
  sem_cnt :: cint
  sem_wait_list :: list_t

record rein_mutex_t =
  owner :: addr
  locker :: cint
  mutex_wait_list :: list_t

record task_manager_t =
  ready_list :: list_t
  task_list :: list_t
  sleep_list :: list_t
  curr_task :: addr

type_synonym irq_state_t = uint32_t

datatype io_event = Out uint16_t uint8_t | In uint16_t

record kernel = task_manager_t +
  nodes :: node_heap
  tasks :: "addr \<Rightarrow> task_t"
  sems :: "addr \<Rightarrow> sem_t"
  mutexes :: "addr \<Rightarrow> rein_mutex_t"
  gdt_table :: "segment_desc_t list"
  idt_table :: "gate_desc_t list"
  mem :: "addr \<Rightarrow> uint8_t"
  sys_tick :: uint32_t
  eflags :: uint32_t
  tr :: uint16_t
  gdtr :: "uint32_t \<times> uint16_t"
  idtr :: "uint32_t \<times> uint16_t"
  kstk :: "irq_state_t list"
  saved_kstk :: "addr \<Rightarrow> irq_state_t list"
  fault :: bool
  io :: "io_event list"
  dev :: "io_event list \<Rightarrow> uint16_t \<Rightarrow> uint8_t"
  symaddr :: "string \<Rightarrow> addr"

section \<open>Layout of \<^verbatim>\<open>task_t\<close> and \<^verbatim>\<open>task_manager_t\<close>\<close>

text \<open>The offsets the compiler gives the fields on i386: a name of 33 bytes padded to 36, three
  nodes of 8 bytes, four \<^verbatim>\<open>int\<close>s, the packed TSS of 104 bytes and the selector.\<close>

definition OFFSET_run_node :: addr where "OFFSET_run_node = 36"
definition OFFSET_all_node :: addr where "OFFSET_all_node = 44"
definition OFFSET_wait_node :: addr where "OFFSET_wait_node = 52"
definition OFFSET_tss :: addr where "OFFSET_tss = 76"
definition SIZEOF_task_t :: nat where "SIZEOF_task_t = 184"
definition SIZEOF_tss_t :: uint32_t where "SIZEOF_tss_t = 104"
definition OFFSET_main_task :: addr where "OFFSET_main_task = 40"
definition OFFSET_idle_task :: addr where "OFFSET_idle_task = 224"

lemmas offsets = OFFSET_run_node_def OFFSET_all_node_def OFFSET_wait_node_def OFFSET_tss_def

definition run_node :: "addr \<Rightarrow> addr" where "run_node t = t + OFFSET_run_node"
definition all_node :: "addr \<Rightarrow> addr" where "all_node t = t + OFFSET_all_node"
definition wait_node :: "addr \<Rightarrow> addr" where "wait_node t = t + OFFSET_wait_node"

definition CONTAINER_OF :: "addr \<Rightarrow> addr \<Rightarrow> addr" where
  "CONTAINER_OF node_ptr offset = node_ptr - offset"

definition idle_task :: "'a kernel_scheme \<Rightarrow> addr" where
  "idle_task s = symaddr s ''task_manager'' + OFFSET_idle_task"

definition main_task :: "'a kernel_scheme \<Rightarrow> addr" where
  "main_task s = symaddr s ''task_manager'' + OFFSET_main_task"

lemma container_of_node [simp]:
  "CONTAINER_OF (run_node t) OFFSET_run_node = t"
  "CONTAINER_OF (all_node t) OFFSET_all_node = t"
  "CONTAINER_OF (wait_node t) OFFSET_wait_node = t"
  by (simp_all add: CONTAINER_OF_def run_node_def all_node_def wait_node_def)

section \<open>Instructions\<close>

definition EFLAGS_IF :: uint32_t where "EFLAGS_IF = push_bit 9 1"
definition EFLAGS_DEFAULT :: uint32_t where "EFLAGS_DEFAULT = push_bit 1 1"

definition cli :: "kernel \<Rightarrow> kernel" where
  "cli s = s\<lparr>eflags := eflags s AND NOT EFLAGS_IF\<rparr>"

definition sti :: "kernel \<Rightarrow> kernel" where
  "sti s = s\<lparr>eflags := eflags s OR EFLAGS_IF\<rparr>"

definition read_eflags :: "kernel \<Rightarrow> uint32_t" where
  "read_eflags s = eflags s"

definition write_eflags :: "uint32_t \<Rightarrow> kernel \<Rightarrow> kernel" where
  "write_eflags v s = s\<lparr>eflags := v\<rparr>"

definition outb :: "uint16_t \<Rightarrow> uint8_t \<Rightarrow> kernel \<Rightarrow> kernel" where
  "outb port v s = s\<lparr>io := io s @ [Out port v]\<rparr>"

definition inb :: "uint16_t \<Rightarrow> kernel \<Rightarrow> uint8_t \<times> kernel" where
  "inb port s = (dev s (io s) port, s\<lparr>io := io s @ [In port]\<rparr>)"

text \<open>The 6-byte operand of \<^verbatim>\<open>lgdt\<close>/\<^verbatim>\<open>lidt\<close>: limit, then the two halves of the
  base, which the processor reads back as one 32-bit address.\<close>

definition pseudo_desc :: "uint32_t \<Rightarrow> uint32_t \<Rightarrow> uint32_t \<times> uint16_t" where
  "pseudo_desc start_addr sz =
    (let start32_16 = ucast (drop_bit 16 start_addr) :: uint16_t;
         start15_0 = ucast (start_addr AND 0xFFFF) :: uint16_t;
         limit = ucast (sz - 1) :: uint16_t
     in (ucast start15_0 OR push_bit 16 (ucast start32_16), limit))"

definition lgdt :: "uint32_t \<Rightarrow> uint32_t \<Rightarrow> kernel \<Rightarrow> kernel" where
  "lgdt start_addr sz s = s\<lparr>gdtr := pseudo_desc start_addr sz\<rparr>"

definition lidt :: "uint32_t \<Rightarrow> uint32_t \<Rightarrow> kernel \<Rightarrow> kernel" where
  "lidt start_addr sz s = s\<lparr>idtr := pseudo_desc start_addr sz\<rparr>"

text \<open>
  A TSS descriptor is available (type 9) or busy (type 11); the processor sets the bit between them in the table when
  the task register is loaded and when a task is switched to, and clears it for the task that is left. An available
  descriptor is required for both; otherwise the processor raises an exception (recorded in \<open>fault\<close>; the handlers of
  \<^verbatim>\<open>irq.c\<close> halt the machine).
\<close>

definition is_tss_desc :: "segment_desc_t \<Rightarrow> bool" where
  "is_tss_desc d \<longleftrightarrow> attr d AND 0x9D = 0x89"

definition tss_busy :: "segment_desc_t \<Rightarrow> bool" where
  "tss_busy d \<longleftrightarrow> bit (attr d) 1"

definition set_busy :: "bool \<Rightarrow> segment_desc_t \<Rightarrow> segment_desc_t" where
  "set_busy b d =
    (if is_tss_desc d then d\<lparr>attr := (if b then attr d OR 2 else attr d AND NOT 2)\<rparr> else d)"

definition sel_index :: "uint16_t \<Rightarrow> nat" where
  "sel_index sel = unat (drop_bit 3 sel)"

definition sel_available :: "uint16_t \<Rightarrow> kernel \<Rightarrow> bool" where
  "sel_available sel s \<longleftrightarrow> (let i = sel_index sel
     in i < length (gdt_table s) \<and> is_tss_desc (gdt_table s ! i) \<and> \<not> tss_busy (gdt_table s ! i))"

definition mark_busy :: "bool \<Rightarrow> uint16_t \<Rightarrow> segment_desc_t list \<Rightarrow> segment_desc_t list" where
  "mark_busy b sel g = g[sel_index sel := set_busy b (g ! sel_index sel)]"

definition write_tr :: "uint16_t \<Rightarrow> kernel \<Rightarrow> kernel" where
  "write_tr sel s =
    (if sel_available sel s then s\<lparr>gdt_table := mark_busy True sel (gdt_table s), tr := sel\<rparr>
     else s\<lparr>fault := True\<rparr>)"

text \<open>
  \<^verbatim>\<open>far_jump\<close> with a TSS selector is the processor's task switch: the outgoing context goes to the
  TSS the task register names, the incoming one is loaded from the new TSS. Of the register file
  the model keeps \<open>eflags\<close> and the protected regions on the stack.
\<close>

definition desc_base :: "segment_desc_t \<Rightarrow> uint32_t" where
  "desc_base d = ucast (base15_0 d) OR push_bit 16 (ucast (base23_16 d))
     OR push_bit 24 (ucast (base31_24 d))"

definition tss_owner :: "uint16_t \<Rightarrow> kernel \<Rightarrow> addr" where
  "tss_owner sel s = desc_base (gdt_table s ! sel_index sel) - OFFSET_tss"

definition hw_task_switch :: "uint16_t \<Rightarrow> kernel \<Rightarrow> kernel" where
  "hw_task_switch sel s =
    (let old = tss_owner (tr s) s;
         new = tss_owner sel s;
         ts = (tasks s)(old := (tasks s old)\<lparr>tss := (tss (tasks s old))\<lparr>t_eflags := eflags s\<rparr>\<rparr>);
         ks = (saved_kstk s)(old := kstk s)
     in s\<lparr>tasks := ts, saved_kstk := ks, eflags := t_eflags (tss (ts new)), kstk := ks new,
          gdt_table := mark_busy True sel (mark_busy False (tr s) (gdt_table s)), tr := sel\<rparr>)"

definition far_jump :: "uint32_t \<Rightarrow> uint32_t \<Rightarrow> kernel \<Rightarrow> kernel" where
  "far_jump sel32 offset s =
    (let sel = ucast sel32 :: uint16_t
     in if sel_available sel s then hw_task_switch sel s
        else s\<lparr>fault := True\<rparr>)"

section \<open>Protected regions (irq.c)\<close>

definition irq_disable_global :: "kernel \<Rightarrow> kernel" where
  "irq_disable_global s = cli s"

definition irq_enable_global :: "kernel \<Rightarrow> kernel" where
  "irq_enable_global s = sti s"

definition irq_enter_protection :: "kernel \<Rightarrow> irq_state_t \<times> kernel" where
  "irq_enter_protection s = (let st = read_eflags s in (st, irq_disable_global s))"

definition irq_leave_protection :: "irq_state_t \<Rightarrow> kernel \<Rightarrow> kernel" where
  "irq_leave_protection st s = write_eflags st s"

text \<open>The local variable \<^verbatim>\<open>state\<close> of a protected region: stored in the running task's
  frame on entry, read back from the running task's frame on exit. A task that has been switched
  to for the first time has no frame yet; it starts at its entry point.\<close>

definition enter_protected :: "kernel \<Rightarrow> kernel" where
  "enter_protected s = (let (st, s1) = irq_enter_protection s in s1\<lparr>kstk := st # kstk s1\<rparr>)"

definition leave_protected :: "kernel \<Rightarrow> kernel" where
  "leave_protected s =
    (case kstk s of [] \<Rightarrow> s | st # fs \<Rightarrow> irq_leave_protection st (s\<lparr>kstk := fs\<rparr>))"

definition if_set :: "uint32_t \<Rightarrow> bool" where
  "if_set f \<longleftrightarrow> bit f 9"

lemmas protection_defs = enter_protected_def leave_protected_def irq_enter_protection_def
  irq_leave_protection_def irq_disable_global_def read_eflags_def write_eflags_def cli_def

lemma if_set_cli [simp]: "\<not> if_set (f AND NOT EFLAGS_IF)"
  by (simp add: if_set_def EFLAGS_IF_def bit_simps)

lemma if_set_sti [simp]: "if_set (f OR EFLAGS_IF)"
  by (simp add: if_set_def EFLAGS_IF_def bit_simps)

lemma enter_leave_protected [simp]: "leave_protected (enter_protected s) = s"
  by (simp add: protection_defs Let_def)

lemma enter_protected_simp:
  "enter_protected s = s\<lparr>eflags := eflags s AND NOT EFLAGS_IF, kstk := eflags s # kstk s\<rparr>"
  by (simp add: protection_defs Let_def)


section \<open>The state at power-on\<close>

text \<open>A concrete machine for the examples of the later theories: zeroed kernel data, the objects and
  string literals the kernel names at fixed addresses, and ports that read back what was written.\<close>

definition zero_tss :: tss_t where
  "zero_tss = \<lparr>t_pre_link = 0, t_esp0 = 0, t_ss0 = 0, t_esp1 = 0, t_ss1 = 0, t_esp2 = 0, t_ss2 = 0,
    t_cr3 = 0, t_eip = 0, t_eflags = 0, t_eax = 0, t_ecx = 0, t_edx = 0, t_ebx = 0, t_esp = 0,
    t_ebp = 0, t_esi = 0, t_edi = 0, t_es = 0, t_cs = 0, t_ss = 0, t_ds = 0, t_fs = 0, t_gs = 0,
    t_ldt = 0, t_iomap = 0\<rparr>"

definition zero_task :: task_t where
  "zero_task = \<lparr>state = TASK_CREATED, slice_ticks = 0, time_ticks = 0, sleep_ticks = 0,
    tss = zero_tss, tss_sel = 0\<rparr>"

definition last_out :: "uint16_t \<Rightarrow> io_event list \<Rightarrow> uint8_t" where
  "last_out p es = foldl (\<lambda>v e. case e of Out q w \<Rightarrow> if q = p then w else v | In q \<Rightarrow> v) 0 es"

definition sample_symbols :: "(string \<times> addr) list" where
  "sample_symbols = [(''task_manager'', 0x10000), (''new_task'', 0x11000), (''new_task2'', 0x11800), (''new_task3'', 0x11A00),
    (''gdt_table'', 0x12000),
    (''idt_table'', 0x13000), (''cpu.mutex'', 0x14000), (''log.mutex'', 0x14100),
    (''notify_task_print'', 0x14200), (''exception_handler_page_fault'', 0x15000),
    (''exception_handler_unknown'', 0x15100), (''exception_handler_timer'', 0x15200),
    (''str_idle_task'', 0x16000), (''str_main'', 0x16100), (''str_my_new_task'', 0x16200),
    (''str_sending'', 0x16300), (''str_recv'', 0x16400), (''str_new_task2'', 0x16500),
    (''str_new_task3'', 0x16600)]"

definition blank_kernel :: kernel where
  "blank_kernel = \<lparr>ready_list = list_init, task_list = list_init, sleep_list = list_init, curr_task = 0,
    nodes = (\<lambda>a. \<lparr>pre = 0, nxt = 0\<rparr>), tasks = (\<lambda>a. zero_task),
    sems = (\<lambda>a. \<lparr>sem_cnt = 0, sem_wait_list = list_init\<rparr>),
    mutexes = (\<lambda>a. \<lparr>owner = 0, locker = 0, mutex_wait_list = list_init\<rparr>),
    gdt_table = replicate 256 \<lparr>limit15_0 = 0, base15_0 = 0, base23_16 = 0, attr = 0, base31_24 = 0\<rparr>,
    idt_table = replicate 128 \<lparr>offset15_0 = 0, selector = 0, gattr = 0, offset31_16 = 0\<rparr>,
    mem = (\<lambda>a. 0), sys_tick = 0, eflags = 2, tr = 0, gdtr = (0, 0), idtr = (0, 0), kstk = [],
    saved_kstk = (\<lambda>a. []), fault = False, io = [], dev = (\<lambda>es p. last_out p es),
    symaddr = (\<lambda>n. case map_of sample_symbols n of Some a \<Rightarrow> a | None \<Rightarrow> 0x20000)\<rparr>"

end
