(* ===== verification/Sched.thy ===== *)
theory Sched
  imports Machine
begin

text \<open>
  The scheduler: the queue and dispatch operations of
  \<^verbatim>\<open>src/source/kernel/core/task.c\<close> (task creation, which needs the GDT and the mutexes,
  is in a later theory). Every function takes the kernel state and returns the state the C
  function leaves. \<^verbatim>\<open>task_time_tick\<close> walks the sleep list by following pointers, so it is a
  partial function: \<open>None\<close> means that the walk never ends.

  A function that calls \<^verbatim>\<open>task_dispatch\<close> may switch tasks. The statements that follow
  the switch in the C text are then executed by the task that is resumed, on its own stack: it too
  was suspended inside \<^verbatim>\<open>task_dispatch\<close>, called from one of the blocking operations, each
  of which does nothing after that call but leave its protected region (the timer interrupt does
  the same through \<^verbatim>\<open>iret\<close>). So \<open>leave_protected\<close> after the switch reads the resumed
  task's frame.
\<close>

section \<open>Operations\<close>

definition upd_task :: "addr \<Rightarrow> (task_t \<Rightarrow> task_t) \<Rightarrow> kernel \<Rightarrow> kernel" where
  "upd_task t f s = s\<lparr>tasks := (tasks s)(t := f (tasks s t))\<rparr>"

definition task_set_ready :: "addr \<Rightarrow> kernel \<Rightarrow> kernel" where
  "task_set_ready task s =
    (let (l, h) = list_insert_last (ready_list s) (run_node task) (nodes s)
     in upd_task task (\<lambda>k. k\<lparr>state := TASK_READY\<rparr>) (s\<lparr>nodes := h, ready_list := l\<rparr>))"

definition task_set_block :: "addr \<Rightarrow> kernel \<Rightarrow> kernel" where
  "task_set_block task s =
    (let (n, l, h) = list_pop (ready_list s) (run_node task) (nodes s)
     in s\<lparr>nodes := h, ready_list := l\<rparr>)"

definition task_current :: "kernel \<Rightarrow> addr" where
  "task_current s = curr_task s"

definition task_main_task :: "kernel \<Rightarrow> addr" where
  "task_main_task s = main_task s"

definition switch_to_tss :: "cint \<Rightarrow> kernel \<Rightarrow> kernel" where
  "switch_to_tss sel s = far_jump sel 0 s"

definition task_switch_from_to :: "addr \<Rightarrow> addr \<Rightarrow> kernel \<Rightarrow> kernel" where
  "task_switch_from_to from to s = switch_to_tss (tss_sel (tasks s to)) s"

definition task_dispatch :: "kernel \<Rightarrow> kernel" where
  "task_dispatch s0 =
    (let s = enter_protected s0;
         node = list_first (ready_list s);
         from = task_current s;
         s' = (if node = 0 then
                 (let to = idle_task s
                  in if to \<noteq> from
                     then task_switch_from_to from (idle_task s) (s\<lparr>curr_task := idle_task s\<rparr>)
                     else s)
               else
                 (let to = CONTAINER_OF node OFFSET_run_node
                  in if to \<noteq> from
                     then task_switch_from_to from to
                            (upd_task to (\<lambda>k. k\<lparr>state := TASK_RUNNING\<rparr>) (s\<lparr>curr_task := to\<rparr>))
                     else s))
     in leave_protected s')"

definition sys_sched_yield :: "kernel \<Rightarrow> kernel" where
  "sys_sched_yield s0 =
    (let s = enter_protected s0;
         s' = (if 1 < sint (list_count (ready_list s)) then
                 (let curr = task_current s
                  in task_dispatch (task_set_ready curr (task_set_block curr s)))
               else s)
     in leave_protected s')"

definition task_set_sleep :: "addr \<Rightarrow> uint32_t \<Rightarrow> kernel \<Rightarrow> kernel" where
  "task_set_sleep task ticks s =
    (if ticks = 0 then s
     else
       let s1 = upd_task task (\<lambda>k. k\<lparr>sleep_ticks := ticks, state := TASK_SLEEP\<rparr>) s;
           (l, h) = list_insert_last (sleep_list s1) (run_node task) (nodes s1)
       in s1\<lparr>nodes := h, sleep_list := l\<rparr>)"

definition task_set_wakeup :: "addr \<Rightarrow> kernel \<Rightarrow> kernel" where
  "task_set_wakeup task s =
    (let (n, l, h) = list_pop (sleep_list s) (run_node task) (nodes s)
     in s\<lparr>nodes := h, sleep_list := l\<rparr>)"

definition OS_TICKS_MS :: uint32_t where "OS_TICKS_MS = 10"

definition sleep_ticks_of_ms :: "uint32_t \<Rightarrow> uint32_t" where
  "sleep_ticks_of_ms ms = (ms + OS_TICKS_MS - 1) div OS_TICKS_MS + 1"

definition sys_sleep :: "uint32_t \<Rightarrow> kernel \<Rightarrow> kernel" where
  "sys_sleep ms s0 =
    (let s = enter_protected s0;
         curr = curr_task s;
         s1 = task_set_block curr s;
         s2 = task_set_sleep curr (sleep_ticks_of_ms ms) s1
     in leave_protected (task_dispatch s2))"

text \<open>The body of the walk over the sleep list, and the walk.\<close>

definition sleep_tick :: "addr \<Rightarrow> kernel \<Rightarrow> kernel" where
  "sleep_tick task s =
    (let s1 = upd_task task (\<lambda>k. k\<lparr>sleep_ticks := sleep_ticks k - 1\<rparr>) s
     in if sleep_ticks (tasks s1 task) = 0 then task_set_ready task (task_set_wakeup task s1)
        else s1)"

partial_function (option) sleep_walk :: "addr \<Rightarrow> kernel \<Rightarrow> kernel option" where
  "sleep_walk curr_node s =
    (if curr_node = 0 then Some s
     else sleep_walk (nxt (nodes s curr_node))
            (sleep_tick (CONTAINER_OF curr_node OFFSET_run_node) s))"

definition slice_tick :: "kernel \<Rightarrow> kernel" where
  "slice_tick s =
    (let curr = task_current s
     in if curr \<noteq> idle_task s then
          (let s1 = upd_task curr (\<lambda>k. k\<lparr>slice_ticks := slice_ticks k - 1\<rparr>) s
           in if slice_ticks (tasks s1 curr) = 0
              then task_set_ready curr (task_set_block curr
                     (upd_task curr (\<lambda>k. k\<lparr>slice_ticks := time_ticks k\<rparr>) s1))
              else s1)
        else s)"

definition task_time_tick :: "kernel \<Rightarrow> kernel option" where
  "task_time_tick s =
    (let s1 = slice_tick s
     in map_option task_dispatch (sleep_walk (list_first (sleep_list s1)) s1))"

end
