(* ===== verification/Queues.thy ===== *)
theory Queues
  imports Sched
begin

text \<open>
  The abstract view of the kernel's queues. The kernel keeps its tasks on intrusive lists that
  share one heap of nodes: the ready list and the sleep list (both through \<^verbatim>\<open>run_node\<close>), the
  list of all tasks (\<^verbatim>\<open>all_node\<close>) and the wait list of every semaphore and mutex
  (\<^verbatim>\<open>wait_node\<close>). \<open>lid\<close> names a list; an abstract state maps the lists in use to
  sequences of task addresses; \<open>qrel\<close> relates it to the concrete headers and nodes. The three
  ways the kernel changes a list are proved once for all lists here, from the laws of the list
  interface; every operation of the scheduler, the semaphores and the mutexes rests on them.
\<close>

section \<open>Task objects in memory\<close>

definition task_obj_ok :: "addr \<Rightarrow> bool" where
  "task_obj_ok t \<longleftrightarrow> 0 < unat t \<and> unat t + SIZEOF_task_t \<le> 2 ^ 32"

definition tasks_sep :: "addr set \<Rightarrow> bool" where
  "tasks_sep T \<longleftrightarrow> (\<forall>t\<in>T. task_obj_ok t) \<and>
     (\<forall>t\<in>T. \<forall>u\<in>T. t \<noteq> u \<longrightarrow>
        unat t + SIZEOF_task_t \<le> unat u \<or> unat u + SIZEOF_task_t \<le> unat t)"

lemma unat_field:
  assumes "task_obj_ok t" and "k < 184"
  shows "unat (t + of_nat k) = unat t + k"
proof -
  have "unat (of_nat k :: addr) = k"
    using assms(2) by (simp add: unat_of_nat)
  moreover have "unat t + k < 2 ^ 32" using assms by (simp add: task_obj_ok_def SIZEOF_task_t_def)
  ultimately show ?thesis by (simp add: unat_word_ariths)
qed

lemma unat_nodes:
  assumes "task_obj_ok t"
  shows "unat (run_node t) = unat t + 36" "unat (all_node t) = unat t + 44"
    "unat (wait_node t) = unat t + 52"
  using unat_field [OF assms, of 36] unat_field [OF assms, of 44] unat_field [OF assms, of 52]
  by (simp_all add: run_node_def all_node_def wait_node_def offsets)

lemma node_inj [simp]:
  "run_node t = run_node u \<longleftrightarrow> t = u" "all_node t = all_node u \<longleftrightarrow> t = u"
  "wait_node t = wait_node u \<longleftrightarrow> t = u"
  by (simp_all add: run_node_def all_node_def wait_node_def)

lemma tasks_sep_subset: "tasks_sep T \<Longrightarrow> U \<subseteq> T \<Longrightarrow> tasks_sep U"
  by (auto simp: tasks_sep_def subset_iff)

lemma tasks_sep_obj: "tasks_sep T \<Longrightarrow> t \<in> T \<Longrightarrow> task_obj_ok t"
  by (simp add: tasks_sep_def)

lemma node_nonnull:
  assumes "tasks_sep T" and "t \<in> T"
  shows "run_node t \<noteq> 0" "all_node t \<noteq> 0" "wait_node t \<noteq> 0"
  using unat_nodes [OF tasks_sep_obj [OF assms]] by (auto simp: unat_eq_zero)

lemma node_kinds_differ:
  assumes "tasks_sep T" and "t \<in> T" and "u \<in> T"
  shows "run_node t \<noteq> all_node u" "run_node t \<noteq> wait_node u" "all_node t \<noteq> wait_node u"
proof -
  note n = unat_nodes [OF tasks_sep_obj [OF assms(1)]]
  have "t = u \<or> unat t + 184 \<le> unat u \<or> unat u + 184 \<le> unat t"
    using assms by (auto simp: tasks_sep_def SIZEOF_task_t_def)
  then have "unat (run_node t) \<noteq> unat (all_node u)" "unat (run_node t) \<noteq> unat (wait_node u)"
    "unat (all_node t) \<noteq> unat (wait_node u)"
    using n [OF assms(2)] n [OF assms(3)] by auto
  then show "run_node t \<noteq> all_node u" "run_node t \<noteq> wait_node u" "all_node t \<noteq> wait_node u"
    by auto
qed

text \<open>Separate objects of 184 bytes in a 32-bit address space: the lists stay far below the
  range of their signed counters.\<close>

lemma tasks_sep_card:
  assumes "tasks_sep T"
  shows "card T < 2 ^ 31"
proof -
  let ?obj = "\<lambda>t. {unat t ..< unat t + 184}"
  have "184 * card T = (\<Sum>t\<in>T. card (?obj t))" by simp
  also have "\<dots> = card (\<Union>t\<in>T. ?obj t)"
    using assms
    by (intro card_UN_disjoint [symmetric]) (fastforce simp: tasks_sep_def SIZEOF_task_t_def)+
  also have "\<dots> \<le> card {..<2 ^ 32 :: nat}"
    using assms
    by (intro card_mono) (fastforce simp: tasks_sep_def task_obj_ok_def SIZEOF_task_t_def)+
  finally show ?thesis by simp
qed

section \<open>The lists and their abstract contents\<close>

datatype lid = LReady | LSleep | LAll | LSem addr | LMutex addr

type_synonym queues = "lid \<Rightarrow> addr list option"

fun node_of :: "lid \<Rightarrow> addr \<Rightarrow> addr" where
  "node_of LReady = run_node"
| "node_of LSleep = run_node"
| "node_of LAll = all_node"
| "node_of (LSem p) = wait_node"
| "node_of (LMutex p) = wait_node"

fun hdr :: "lid \<Rightarrow> kernel \<Rightarrow> list_t" where
  "hdr LReady s = ready_list s"
| "hdr LSleep s = sleep_list s"
| "hdr LAll s = task_list s"
| "hdr (LSem p) s = sem_wait_list (sems s p)"
| "hdr (LMutex p) s = mutex_wait_list (mutexes s p)"

fun set_hdr :: "lid \<Rightarrow> list_t \<Rightarrow> kernel \<Rightarrow> kernel" where
  "set_hdr LReady l s = s\<lparr>ready_list := l\<rparr>"
| "set_hdr LSleep l s = s\<lparr>sleep_list := l\<rparr>"
| "set_hdr LAll l s = s\<lparr>task_list := l\<rparr>"
| "set_hdr (LSem p) l s = s\<lparr>sems := (sems s)(p := (sems s p)\<lparr>sem_wait_list := l\<rparr>)\<rparr>"
| "set_hdr (LMutex p) l s = s\<lparr>mutexes := (mutexes s)(p := (mutexes s p)\<lparr>mutex_wait_list := l\<rparr>)\<rparr>"

definition qset :: "queues \<Rightarrow> lid \<Rightarrow> addr set" where
  "qset q i = (case q i of None \<Rightarrow> {} | Some xs \<Rightarrow> set xs)"

definition qrel :: "addr set \<Rightarrow> queues \<Rightarrow> kernel \<Rightarrow> bool" where
  "qrel T q s \<longleftrightarrow> tasks_sep T \<and>
     (\<forall>i xs. q i = Some xs \<longrightarrow> set xs \<subseteq> T \<and> dll (hdr i s) (nodes s) (map (node_of i) xs)) \<and>
     (\<forall>i j. i \<noteq> LAll \<longrightarrow> j \<noteq> LAll \<longrightarrow> i \<noteq> j \<longrightarrow> qset q i \<inter> qset q j = {})"

lemma hdr_set_hdr [simp]: "hdr j (set_hdr i l s) = (if i = j then l else hdr j s)"
  by (cases i; cases j) auto

lemma nodes_set_hdr [simp]: "nodes (set_hdr i l s) = nodes s"
  by (cases i) auto

lemma hdr_nodes_update [simp]: "hdr i (s\<lparr>nodes := h\<rparr>) = hdr i s"
  by (cases i) auto

lemma node_of_inj [simp]: "node_of i t = node_of i u \<longleftrightarrow> t = u"
  by (cases i) auto

lemma qset_upd [simp]: "qset (q(i \<mapsto> xs)) j = (if i = j then set xs else qset q j)"
  by (simp add: qset_def)

lemma qset_Some: "q i = Some xs \<Longrightarrow> qset q i = set xs"
  by (simp add: qset_def)

lemma qrel_dll: "qrel T q s \<Longrightarrow> q i = Some xs \<Longrightarrow> dll (hdr i s) (nodes s) (map (node_of i) xs)"
  by (simp add: qrel_def)

lemma qrel_sub: "qrel T q s \<Longrightarrow> q i = Some xs \<Longrightarrow> set xs \<subseteq> T"
  by (simp add: qrel_def)

lemma qrel_qset_sub: "qrel T q s \<Longrightarrow> qset q i \<subseteq> T"
  by (auto simp: qrel_def qset_def split: option.splits)

lemma qrel_sep: "qrel T q s \<Longrightarrow> tasks_sep T"
  by (simp add: qrel_def)

lemma qrel_disj:
  "qrel T q s \<Longrightarrow> i \<noteq> LAll \<Longrightarrow> j \<noteq> LAll \<Longrightarrow> i \<noteq> j \<Longrightarrow> t \<in> qset q i \<Longrightarrow> t \<notin> qset q j"
  unfolding qrel_def by blast

lemma qrel_distinct: "qrel T q s \<Longrightarrow> q i = Some xs \<Longrightarrow> distinct xs"
  by (metis qrel_dll kl.rep_distinct distinct_map)

text \<open>The relation depends on the headers and the nodes only.\<close>

lemma qrel_cong:
  assumes "\<And>i. hdr i s' = hdr i s" and "nodes s' = nodes s"
  shows "qrel T q s' \<longleftrightarrow> qrel T q s"
  using assms by (simp add: qrel_def)

text \<open>Nodes of different lists are different nodes.\<close>

lemma nodes_disjoint:
  assumes "qrel T q s" and "q i = Some xs" and "q j = Some ys" and "i \<noteq> j"
  shows "set (map (node_of i) xs) \<inter> set (map (node_of j) ys) = {}"
proof -
  have "node_of i t \<noteq> node_of j u" if "t \<in> set xs" "u \<in> set ys" for t u
  proof -
    have T: "tasks_sep T" "t \<in> T" "u \<in> T"
      using assms that by (auto simp: qrel_def)
    have "i \<noteq> LAll \<Longrightarrow> j \<noteq> LAll \<Longrightarrow> t \<noteq> u"
      using qrel_disj [OF assms(1), of i j t] assms(2-4) that by (auto simp: qset_Some)
    then show ?thesis
      using node_kinds_differ [OF T] node_kinds_differ [OF T(1,3,2)] assms(4)
      by (cases i; cases j) auto
  qed
  then show ?thesis by auto
qed

section \<open>The three changes of a list\<close>

text \<open>A task is free for a list when no list that uses the same node holds it (the task lists
  other than \<open>LAll\<close> hold every task at most once).\<close>

definition qfree :: "queues \<Rightarrow> lid \<Rightarrow> addr \<Rightarrow> bool" where
  "qfree q i t \<longleftrightarrow> (if i = LAll then t \<notin> qset q LAll else \<forall>j. j \<noteq> LAll \<longrightarrow> t \<notin> qset q j)"

lemma qfree_notin: "qfree q i t \<Longrightarrow> q i = Some xs \<Longrightarrow> t \<notin> set xs"
  by (auto simp: qfree_def qset_Some split: if_splits)

text \<open>A general step: the contents of one list change and the other lists keep their nodes.\<close>

lemma qrel_change:
  assumes q: "qrel T q s" and i: "q i = Some xs"
    and l: "dll l h (map (node_of i) ys)" and ys: "set ys \<subseteq> T"
    and other: "\<And>k zs. dll k (nodes s) zs \<Longrightarrow>
      set zs \<inter> (node_of i ` (set xs \<union> set ys)) = {} \<Longrightarrow> dll k h zs"
    and disj: "\<And>j. i \<noteq> LAll \<Longrightarrow> j \<noteq> LAll \<Longrightarrow> j \<noteq> i \<Longrightarrow> set ys \<inter> qset q j = {}"
  shows "qrel T (q(i \<mapsto> ys)) (set_hdr i l (s\<lparr>nodes := h\<rparr>))"
proof -
  have new: "dll (hdr j (set_hdr i l (s\<lparr>nodes := h\<rparr>))) h (map (node_of j) zs)"
    if "q j = Some zs" "i \<noteq> j" for j zs
  proof -
    have T: "tasks_sep T" "set zs \<subseteq> T" "set xs \<subseteq> T" using q i that by (auto simp: qrel_def)
    have "node_of j t \<noteq> node_of i u" if t: "t \<in> set zs" "u \<in> set xs \<union> set ys" for t u
    proof -
      have tu: "t \<in> T" "u \<in> T" using T t ys by auto
      have "t \<noteq> u" if "i \<noteq> LAll" "j \<noteq> LAll"
        using disj [of j] qrel_disj [OF q that(1,2) \<open>i \<noteq> j\<close>, of t] that t i \<open>i \<noteq> j\<close> \<open>q j = Some zs\<close>
        by (auto simp: qset_Some)
      then show ?thesis
        using node_kinds_differ [OF T(1) tu] node_kinds_differ [OF T(1) tu(2,1)] \<open>i \<noteq> j\<close>
        by (cases i; cases j) auto
    qed
    then have "set (map (node_of j) zs) \<inter> (node_of i ` (set xs \<union> set ys)) = {}" by auto
    moreover have "dll (hdr j s) (nodes s) (map (node_of j) zs)" using q that(1) by (rule qrel_dll)
    ultimately show ?thesis using other \<open>i \<noteq> j\<close> by simp
  qed
  have "qset (q(i \<mapsto> ys)) j \<inter> qset (q(i \<mapsto> ys)) k = {}"
    if "j \<noteq> LAll" "k \<noteq> LAll" "j \<noteq> k" for j k
    using disj [of j] disj [of k] qrel_disj [OF q that] that by auto
  then show ?thesis
    unfolding qrel_def using new l ys q by (auto simp: qrel_def)
qed

lemma qrel_insert_last:
  assumes q: "qrel T q s" and i: "q i = Some xs" and t: "t \<in> T" and free: "qfree q i t"
    and eq: "list_insert_last (hdr i s) (node_of i t) (nodes s) = (l, h)"
  shows "qrel T (q(i \<mapsto> xs @ [t])) (set_hdr i l (s\<lparr>nodes := h\<rparr>))"
proof (rule qrel_change [OF q i])
  have xs: "dll (hdr i s) (nodes s) (map (node_of i) xs)" using q i by (rule qrel_dll)
  have n: "node_of i t \<notin> set (map (node_of i) xs)" "node_of i t \<noteq> 0"
    using qfree_notin [OF free i] node_nonnull [OF qrel_sep [OF q] t] by (cases i, auto)+
  show "dll l h (map (node_of i) (xs @ [t]))"
    using kl.ins_last_rep [OF xs n] eq by simp
  show "dll k h zs" if "dll k (nodes s) zs"
    "set zs \<inter> (node_of i ` (set xs \<union> set (xs @ [t]))) = {}" for k zs
    using kl.ins_last_other [OF xs that(1), of "node_of i t"] that(2) eq by auto
  show "set (xs @ [t]) \<subseteq> T" using qrel_sub [OF q i] t by simp
  show "set (xs @ [t]) \<inter> qset q j = {}" if "i \<noteq> LAll" "j \<noteq> LAll" "j \<noteq> i" for j
    using qrel_disj [OF q that(1,2)] that i free by (auto simp: qset_Some qfree_def)
qed

lemma qrel_pop:
  assumes q: "qrel T q s" and i: "q i = Some (xs @ t # ys)"
    and eq: "list_pop (hdr i s) (node_of i t) (nodes s) = (r, l, h)"
  shows "qrel T (q(i \<mapsto> xs @ ys)) (set_hdr i l (s\<lparr>nodes := h\<rparr>))"
proof (rule qrel_change [OF q i])
  have xs: "dll (hdr i s) (nodes s) (map (node_of i) xs @ node_of i t # map (node_of i) ys)"
    using qrel_dll [OF q i] by simp
  show "dll l h (map (node_of i) (xs @ ys))" using kl.pop_rep [OF xs] eq by simp
  show "dll k h zs" if "dll k (nodes s) zs"
    "set zs \<inter> (node_of i ` (set (xs @ t # ys) \<union> set (xs @ ys))) = {}" for k zs
    using kl.pop_other [OF xs that(1)] that(2) eq by auto
  show "set (xs @ ys) \<subseteq> T" using qrel_sub [OF q i] by auto
  show "set (xs @ ys) \<inter> qset q j = {}" if "i \<noteq> LAll" "j \<noteq> LAll" "j \<noteq> i" for j
    using qrel_disj [OF q that(1,2)] that i by (auto simp: qset_Some)
qed

lemma qrel_pop_first:
  assumes q: "qrel T q s" and i: "q i = Some (t # ys)"
    and eq: "list_pop_first (hdr i s) (nodes s) = (r, l, h)"
  shows "r = node_of i t \<and> qrel T (q(i \<mapsto> ys)) (set_hdr i l (s\<lparr>nodes := h\<rparr>))"
proof
  have xs: "dll (hdr i s) (nodes s) (node_of i t # map (node_of i) ys)"
    using qrel_dll [OF q i] by simp
  show "r = node_of i t" using kl.pop_first_rep [OF xs] eq by simp
  show "qrel T (q(i \<mapsto> ys)) (set_hdr i l (s\<lparr>nodes := h\<rparr>))"
  proof (rule qrel_change [OF q i])
    show "dll l h (map (node_of i) ys)" using kl.pop_first_rep [OF xs] eq by simp
    show "dll k h zs" if "dll k (nodes s) zs"
      "set zs \<inter> (node_of i ` (set (t # ys) \<union> set ys)) = {}" for k zs
      using kl.pop_first_other [OF xs that(1)] that(2) eq by auto
    show "set ys \<subseteq> T" using qrel_sub [OF q i] by auto
    show "set ys \<inter> qset q j = {}" if "i \<noteq> LAll" "j \<noteq> LAll" "j \<noteq> i" for j
      using qrel_disj [OF q that(1,2)] that i by (auto simp: qset_Some)
  qed
qed

lemma qrel_count:
  assumes "qrel T q s" and "q i = Some xs"
  shows "sint (list_count (hdr i s)) = int (length xs)"
proof -
  have "finite T" by simp
  have "length xs = card (set xs)" using qrel_distinct [OF assms] by (simp add: distinct_card)
  also have "\<dots> \<le> card T" using qrel_sub [OF assms] by (intro card_mono) auto
  finally have "length xs < 2 ^ 31" using tasks_sep_card [OF qrel_sep [OF assms(1)]] by simp
  moreover have "list_count (hdr i s) = of_nat (length xs)"
    using dll_list_count [OF qrel_dll [OF assms]] by simp
  ultimately show ?thesis by (simp add: signed_of_nat signed_take_bit_int_eq_self)
qed

end
