(* ===== verification/Sched_Inv.thy ===== *)
theory Sched_Inv
  imports Queues
begin

text \<open>
  The invariant of the scheduler and what its operations do to the abstract queues. \<open>kinv\<close>
  collects what the kernel keeps true between operations: the lists are intact and hold every
  task exactly once, the running task is the head of the ready list (the idle task when the list
  is empty), the task register names the running task, every other task can be resumed through
  its TSS, interrupts are enabled and the tick counters are in range.
\<close>

named_theorems frame \<open>fields an operation leaves alone\<close>

section \<open>The queue operations of the scheduler\<close>

lemma hdr_updates:
  "hdr i (s\<lparr>tasks := ts\<rparr>) = hdr i s" "hdr i (s\<lparr>curr_task := c\<rparr>) = hdr i s"
  "hdr i (s\<lparr>eflags := e\<rparr>) = hdr i s" "hdr i (s\<lparr>kstk := ks\<rparr>) = hdr i s"
  "hdr i (s\<lparr>saved_kstk := sk\<rparr>) = hdr i s" "hdr i (s\<lparr>tr := r\<rparr>) = hdr i s"
  "hdr i (s\<lparr>fault := b\<rparr>) = hdr i s" "hdr i (s\<lparr>io := evs\<rparr>) = hdr i s"
  "hdr i (s\<lparr>sys_tick := n\<rparr>) = hdr i s" "hdr i (s\<lparr>mem := m\<rparr>) = hdr i s"
  "hdr i (s\<lparr>gdt_table := g\<rparr>) = hdr i s" "hdr i (s\<lparr>idt_table := d\<rparr>) = hdr i s"
  by (cases i; simp)+

lemma qrel_updates [simp]:
  "qrel T q (s\<lparr>tasks := ts\<rparr>) \<longleftrightarrow> qrel T q s"
  "qrel T q (s\<lparr>curr_task := c\<rparr>) \<longleftrightarrow> qrel T q s"
  "qrel T q (s\<lparr>eflags := e\<rparr>) \<longleftrightarrow> qrel T q s"
  "qrel T q (s\<lparr>kstk := ks\<rparr>) \<longleftrightarrow> qrel T q s"
  "qrel T q (s\<lparr>saved_kstk := sk\<rparr>) \<longleftrightarrow> qrel T q s"
  "qrel T q (s\<lparr>tr := r\<rparr>) \<longleftrightarrow> qrel T q s"
  "qrel T q (s\<lparr>fault := b\<rparr>) \<longleftrightarrow> qrel T q s"
  "qrel T q (s\<lparr>io := evs\<rparr>) \<longleftrightarrow> qrel T q s"
  "qrel T q (s\<lparr>sys_tick := n\<rparr>) \<longleftrightarrow> qrel T q s"
  "qrel T q (s\<lparr>mem := m\<rparr>) \<longleftrightarrow> qrel T q s"
  "qrel T q (s\<lparr>gdt_table := g\<rparr>) \<longleftrightarrow> qrel T q s"
  "qrel T q (s\<lparr>idt_table := d\<rparr>) \<longleftrightarrow> qrel T q s"
  by (simp_all add: qrel_def hdr_updates)

lemma qrel_upd_task [simp]: "qrel T q (upd_task t f s) \<longleftrightarrow> qrel T q s"
  by (simp add: upd_task_def)

lemma qrel_enter [simp]: "qrel T q (enter_protected s) \<longleftrightarrow> qrel T q s"
  by (simp add: enter_protected_simp)

lemma qrel_leave [simp]: "qrel T q (leave_protected s) \<longleftrightarrow> qrel T q s"
  by (simp add: protection_defs split: list.split)

lemma task_set_ready_qrel:
  assumes "qrel T q s" and "q LReady = Some R" and "t \<in> T" and "qfree q LReady t"
  shows "qrel T (q(LReady \<mapsto> R @ [t])) (task_set_ready t s)"
  using qrel_insert_last [OF assms]
  by (cases "list_insert_last (ready_list s) (run_node t) (nodes s)") (simp add: task_set_ready_def)

lemma task_set_block_qrel:
  assumes "qrel T q s" and "q LReady = Some (xs @ t # ys)"
  shows "qrel T (q(LReady \<mapsto> xs @ ys)) (task_set_block t s)"
  using qrel_pop [OF assms]
  by (cases "list_pop (ready_list s) (run_node t) (nodes s)") (simp add: task_set_block_def)

lemma task_set_wakeup_qrel:
  assumes "qrel T q s" and "q LSleep = Some (xs @ t # ys)"
  shows "qrel T (q(LSleep \<mapsto> xs @ ys)) (task_set_wakeup t s)"
  using qrel_pop [OF assms]
  by (cases "list_pop (sleep_list s) (run_node t) (nodes s)") (simp add: task_set_wakeup_def)

lemma task_set_sleep_qrel:
  assumes "qrel T q s" and "q LSleep = Some S" and "t \<in> T" and "qfree q LSleep t"
    and "ticks \<noteq> 0"
  shows "qrel T (q(LSleep \<mapsto> S @ [t])) (task_set_sleep t ticks s)"
  using qrel_insert_last [of T q "upd_task t (\<lambda>k. k\<lparr>sleep_ticks := ticks, state := TASK_SLEEP\<rparr>) s" LSleep S t]
    assms
  by (cases "list_insert_last (sleep_list s) (run_node t) (nodes s)")
    (simp add: task_set_sleep_def upd_task_def)

section \<open>Frames\<close>

lemma task_set_ready_frame [frame, simp]:
  "curr_task (task_set_ready t s) = curr_task s" "sems (task_set_ready t s) = sems s"
  "mutexes (task_set_ready t s) = mutexes s" "gdt_table (task_set_ready t s) = gdt_table s"
  "sleep_list (task_set_ready t s) = sleep_list s" "task_list (task_set_ready t s) = task_list s"
  "eflags (task_set_ready t s) = eflags s" "tr (task_set_ready t s) = tr s"
  "kstk (task_set_ready t s) = kstk s" "saved_kstk (task_set_ready t s) = saved_kstk s"
  "fault (task_set_ready t s) = fault s" "symaddr (task_set_ready t s) = symaddr s"
  "tasks (task_set_ready t s) = (tasks s)(t := (tasks s t)\<lparr>state := TASK_READY\<rparr>)"
  by (simp_all add: task_set_ready_def upd_task_def split: prod.split)

lemma task_set_block_frame [frame, simp]:
  "curr_task (task_set_block t s) = curr_task s" "sems (task_set_block t s) = sems s"
  "mutexes (task_set_block t s) = mutexes s" "gdt_table (task_set_block t s) = gdt_table s"
  "sleep_list (task_set_block t s) = sleep_list s" "task_list (task_set_block t s) = task_list s"
  "eflags (task_set_block t s) = eflags s" "tr (task_set_block t s) = tr s"
  "kstk (task_set_block t s) = kstk s" "saved_kstk (task_set_block t s) = saved_kstk s"
  "fault (task_set_block t s) = fault s" "symaddr (task_set_block t s) = symaddr s"
  "tasks (task_set_block t s) = tasks s"
  by (simp_all add: task_set_block_def split: prod.split)

lemma task_set_wakeup_frame [frame, simp]:
  "curr_task (task_set_wakeup t s) = curr_task s" "sems (task_set_wakeup t s) = sems s"
  "mutexes (task_set_wakeup t s) = mutexes s" "gdt_table (task_set_wakeup t s) = gdt_table s"
  "ready_list (task_set_wakeup t s) = ready_list s" "task_list (task_set_wakeup t s) = task_list s"
  "eflags (task_set_wakeup t s) = eflags s" "tr (task_set_wakeup t s) = tr s"
  "kstk (task_set_wakeup t s) = kstk s" "saved_kstk (task_set_wakeup t s) = saved_kstk s"
  "fault (task_set_wakeup t s) = fault s" "symaddr (task_set_wakeup t s) = symaddr s"
  "tasks (task_set_wakeup t s) = tasks s"
  by (simp_all add: task_set_wakeup_def split: prod.split)

lemma task_set_sleep_frame [frame, simp]:
  "curr_task (task_set_sleep t n s) = curr_task s" "sems (task_set_sleep t n s) = sems s"
  "mutexes (task_set_sleep t n s) = mutexes s" "gdt_table (task_set_sleep t n s) = gdt_table s"
  "ready_list (task_set_sleep t n s) = ready_list s" "task_list (task_set_sleep t n s) = task_list s"
  "eflags (task_set_sleep t n s) = eflags s" "tr (task_set_sleep t n s) = tr s"
  "kstk (task_set_sleep t n s) = kstk s" "saved_kstk (task_set_sleep t n s) = saved_kstk s"
  "fault (task_set_sleep t n s) = fault s" "symaddr (task_set_sleep t n s) = symaddr s"
  "tasks (task_set_sleep t n s) =
     (if n = 0 then tasks s
      else (tasks s)(t := (tasks s t)\<lparr>sleep_ticks := n, state := TASK_SLEEP\<rparr>))"
  by (simp_all add: task_set_sleep_def upd_task_def Let_def split: prod.split)

lemma enter_protected_frame [frame, simp]:
  "curr_task (enter_protected s) = curr_task s" "sems (enter_protected s) = sems s"
  "mutexes (enter_protected s) = mutexes s" "gdt_table (enter_protected s) = gdt_table s"
  "ready_list (enter_protected s) = ready_list s" "sleep_list (enter_protected s) = sleep_list s"
  "task_list (enter_protected s) = task_list s" "nodes (enter_protected s) = nodes s"
  "tr (enter_protected s) = tr s" "saved_kstk (enter_protected s) = saved_kstk s"
  "fault (enter_protected s) = fault s" "symaddr (enter_protected s) = symaddr s"
  "tasks (enter_protected s) = tasks s" "kstk (enter_protected s) = eflags s # kstk s"
  by (simp_all add: enter_protected_simp)

lemma leave_protected_frame [frame, simp]:
  "curr_task (leave_protected s) = curr_task s" "sems (leave_protected s) = sems s"
  "mutexes (leave_protected s) = mutexes s" "gdt_table (leave_protected s) = gdt_table s"
  "ready_list (leave_protected s) = ready_list s" "sleep_list (leave_protected s) = sleep_list s"
  "task_list (leave_protected s) = task_list s" "nodes (leave_protected s) = nodes s"
  "tr (leave_protected s) = tr s" "saved_kstk (leave_protected s) = saved_kstk s"
  "fault (leave_protected s) = fault s" "symaddr (leave_protected s) = symaddr s"
  "tasks (leave_protected s) = tasks s" "kstk (leave_protected s) = tl (kstk s)"
  by (simp_all add: protection_defs split: list.split)

lemma other_frame [frame, simp]:
  "sys_tick (enter_protected s) = sys_tick s" "io (enter_protected s) = io s"
  "mem (enter_protected s) = mem s" "idt_table (enter_protected s) = idt_table s"
  "sys_tick (leave_protected s) = sys_tick s" "io (leave_protected s) = io s"
  "mem (leave_protected s) = mem s" "idt_table (leave_protected s) = idt_table s"
  "sys_tick (task_set_ready t s) = sys_tick s" "io (task_set_ready t s) = io s"
  "mem (task_set_ready t s) = mem s" "idt_table (task_set_ready t s) = idt_table s"
  "sys_tick (task_set_block t s) = sys_tick s" "io (task_set_block t s) = io s"
  "mem (task_set_block t s) = mem s" "idt_table (task_set_block t s) = idt_table s"
  by (simp_all add: enter_protected_simp, (simp_all add: protection_defs split: list.split)?,
    (simp_all add: task_set_ready_def task_set_block_def upd_task_def split: prod.split)?)

lemma idle_task_frame [frame, simp]:
  "idle_task (task_set_ready t s) = idle_task s" "idle_task (task_set_block t s) = idle_task s"
  "idle_task (task_set_wakeup t s) = idle_task s" "idle_task (task_set_sleep t n s) = idle_task s"
  "idle_task (enter_protected s) = idle_task s" "idle_task (leave_protected s) = idle_task s"
  "idle_task (upd_task t f s) = idle_task s"
  by (simp_all add: idle_task_def upd_task_def)

section \<open>The processor and the suspended tasks\<close>

text \<open>The busy bit is the only part of the descriptor table that a task switch writes.\<close>

lemma busy_bit_type: "(w :: 16 word) AND 0x9D = 0x89 \<Longrightarrow> (w OR 2) AND 0x9D = 0x89"
  "w AND 0x9D = 0x89 \<Longrightarrow> (w AND NOT 2) AND 0x9D = 0x89"
proof -
  have "(w OR 2) AND 0x9D = (w AND 0x9D) OR (2 AND 0x9D)" by (rule bit.conj_disj_distrib2)
  then show "w AND 0x9D = 0x89 \<Longrightarrow> (w OR 2) AND 0x9D = 0x89" by simp
  have "(w AND NOT 2) AND 0x9D = (w AND 0x9D) AND NOT 2" by (simp only: ac_simps)
  then show "w AND 0x9D = 0x89 \<Longrightarrow> (w AND NOT 2) AND 0x9D = 0x89" by simp
qed

lemma set_busy_type [simp]: "is_tss_desc (set_busy b d) = is_tss_desc d"
  using busy_bit_type [of "attr d"] by (cases b) (auto simp: set_busy_def is_tss_desc_def)

lemma set_busy_simps [simp]:
  "desc_base (set_busy b d) = desc_base d"
  "set_busy b (set_busy c d) = set_busy b d" "is_tss_desc d \<Longrightarrow> tss_busy (set_busy b d) = b"
proof -
  show "desc_base (set_busy b d) = desc_base d" by (simp add: set_busy_def desc_base_def)
  have w: "(w OR 2) OR 2 = w OR 2" "(w AND NOT 2) AND NOT 2 = w AND NOT 2"
    "(w OR 2) AND NOT 2 = w AND NOT 2" "(w AND NOT 2) OR 2 = w OR 2" for w :: uint16_t
    by (rule bit_word_eqI, auto simp: bit_simps)+
  show "set_busy b (set_busy c d) = set_busy b d"
  proof (cases "is_tss_desc d")
    case True
    then have "is_tss_desc (set_busy c d)" by simp
    then show ?thesis using True w [of "attr d"] by (simp add: set_busy_def [of b] set_busy_def [of c])
  qed (simp add: set_busy_def)
  show "is_tss_desc d \<Longrightarrow> tss_busy (set_busy b d) = b" by (simp add: set_busy_def tss_busy_def bit_simps)
qed

lemma mark_busy_simps [simp]:
  "length (mark_busy b sel g) = length g"
  "map (set_busy c) (mark_busy b sel g) = map (set_busy c) g"
proof -
  show "map (set_busy c) (mark_busy b sel g) = map (set_busy c) g"
  proof (cases "sel_index sel < length g")
    case True
    then show ?thesis using list_update_id [of "map (set_busy c) g" "sel_index sel"] by (simp add: mark_busy_def map_update)
  qed (simp add: mark_busy_def list_update_beyond)
qed (simp add: mark_busy_def)

lemma mark_busy_nth:
  "i < length g \<Longrightarrow> mark_busy b sel g ! i = (if i = sel_index sel then set_busy b (g ! i) else g ! i)"
  by (simp add: mark_busy_def nth_list_update)

text \<open>The selector of a task names a TSS descriptor whose base is that task's TSS.\<close>

definition sel_ok :: "kernel \<Rightarrow> addr \<Rightarrow> bool" where
  "sel_ok s t \<longleftrightarrow> (let i = sel_index (ucast (tss_sel (tasks s t)))
     in i < length (gdt_table s) \<and> is_tss_desc (gdt_table s ! i)
        \<and> desc_base (gdt_table s ! i) = t + OFFSET_tss)"

text \<open>The descriptor of a task is marked busy.\<close>

definition is_busy :: "kernel \<Rightarrow> addr \<Rightarrow> bool" where
  "is_busy s t \<longleftrightarrow> tss_busy (gdt_table s ! sel_index (ucast (tss_sel (tasks s t))))"

lemma sel_ok_available: "sel_ok s t \<Longrightarrow> sel_available (ucast (tss_sel (tasks s t))) s \<longleftrightarrow> \<not> is_busy s t"
  by (simp add: sel_ok_def sel_available_def is_busy_def Let_def)

text \<open>Different tasks have different descriptors.\<close>

lemma sel_ok_inj:
  assumes "sel_ok s t" and "sel_ok s u"
    and "sel_index (ucast (tss_sel (tasks s t))) = sel_index (ucast (tss_sel (tasks s u)))"
  shows "t = u"
proof -
  have "t + OFFSET_tss = u + OFFSET_tss" using assms by (simp add: sel_ok_def Let_def)
  then show ?thesis by simp
qed

text \<open>Marking the descriptor of one task.\<close>

lemma mark_busy_task:
  assumes "sel_ok s t" and "tasks s' = tasks s" and "gdt_table s' = mark_busy b (ucast (tss_sel (tasks s t))) (gdt_table s)"
    and "sel_ok s u"
  shows "sel_ok s' u" and "is_busy s' u = (if u = t then b else is_busy s u)"
proof -
  show "sel_ok s' u" using assms(2-4) by (auto simp: sel_ok_def mark_busy_nth Let_def)
  show "is_busy s' u = (if u = t then b else is_busy s u)"
    using assms sel_ok_inj [OF assms(1,4)] by (auto simp: is_busy_def sel_ok_def mark_busy_nth Let_def)
qed

text \<open>A task that is not running either has not started (its TSS enables interrupts and its
  stack is empty) or was suspended in \<^verbatim>\<open>task_dispatch\<close> inside one outer protected region,
  entered with interrupts enabled.\<close>

definition susp_ok :: "kernel \<Rightarrow> addr \<Rightarrow> bool" where
  "susp_ok s t \<longleftrightarrow> (case saved_kstk s t of
       [] \<Rightarrow> if_set (t_eflags (tss (tasks s t)))
     | [e1, e2] \<Rightarrow> if_set e2
     | _ \<Rightarrow> False)"

definition cpu_inv :: "addr set \<Rightarrow> kernel \<Rightarrow> bool" where
  "cpu_inv T s \<longleftrightarrow> \<not> fault s \<and> idle_task s \<in> T \<and> curr_task s \<in> T \<and> (\<forall>t\<in>T. sel_ok s t)
     \<and> (\<forall>t\<in>T. is_busy s t \<longleftrightarrow> t = curr_task s) \<and> tr s = ucast (tss_sel (tasks s (curr_task s)))
     \<and> (\<forall>t\<in>T. t \<noteq> curr_task s \<longrightarrow> susp_ok s t)"

text \<open>Where the running task is: in task-level code, inside one protected region entered with
  interrupts enabled, or just resumed on its way out of one.\<close>

definition at_user :: "kernel \<Rightarrow> bool" where
  "at_user s \<longleftrightarrow> kstk s = [] \<and> if_set (eflags s)"

definition in_region :: "kernel \<Rightarrow> bool" where
  "in_region s \<longleftrightarrow> (case kstk s of [e] \<Rightarrow> if_set e | _ \<Rightarrow> False)"

lemma enter_in_region: "at_user s \<Longrightarrow> in_region (enter_protected s)"
  by (simp add: at_user_def in_region_def)

lemma leave_at_user: "at_user s \<or> in_region s \<Longrightarrow> at_user (leave_protected s)"
  by (auto simp: at_user_def in_region_def protection_defs split: list.splits)

text \<open>The saved contexts and selectors are all that the invariant reads from a task.\<close>

lemma cpu_inv_cong:
  assumes "cpu_inv T s" and "\<And>t. tss_sel (tasks s' t) = tss_sel (tasks s t)"
    and "\<And>t. tss (tasks s' t) = tss (tasks s t)"
    and "fault s' = fault s" "symaddr s' = symaddr s" "curr_task s' = curr_task s"
    "gdt_table s' = gdt_table s" "tr s' = tr s" "saved_kstk s' = saved_kstk s"
  shows "cpu_inv T s'"
proof -
  have "susp_ok s' t = susp_ok s t" for t
    using assms by (simp add: susp_ok_def split: list.split)
  moreover have "sel_ok s' t = sel_ok s t" "is_busy s' t = is_busy s t" for t
    using assms by (simp_all add: sel_ok_def is_busy_def)
  ultimately show ?thesis using assms by (simp add: cpu_inv_def idle_task_def)
qed

lemma cpu_inv_set_ready [simp, intro]: "cpu_inv T s \<Longrightarrow> cpu_inv T (task_set_ready t s)"
  by (erule cpu_inv_cong) auto

lemma cpu_inv_set_block [simp, intro]: "cpu_inv T s \<Longrightarrow> cpu_inv T (task_set_block t s)"
  by (erule cpu_inv_cong) auto

lemma cpu_inv_set_wakeup [simp, intro]: "cpu_inv T s \<Longrightarrow> cpu_inv T (task_set_wakeup t s)"
  by (erule cpu_inv_cong) auto

lemma cpu_inv_set_sleep [simp, intro]: "cpu_inv T s \<Longrightarrow> cpu_inv T (task_set_sleep t n s)"
  by (erule cpu_inv_cong) auto

lemma cpu_inv_enter [simp, intro]: "cpu_inv T s \<Longrightarrow> cpu_inv T (enter_protected s)"
  by (erule cpu_inv_cong) auto

lemma cpu_inv_leave [simp, intro]: "cpu_inv T s \<Longrightarrow> cpu_inv T (leave_protected s)"
  by (erule cpu_inv_cong) auto

text \<open>The switch saves the context of the task that ran and loads the one of the task named.\<close>

definition switched :: "addr \<Rightarrow> (task_t \<Rightarrow> task_t) \<Rightarrow> kernel \<Rightarrow> kernel" where
  "switched to f s = task_switch_from_to (curr_task s) to (upd_task to f (s\<lparr>curr_task := to\<rparr>))"

lemma switched_context:
  assumes inv: "cpu_inv T s" and to: "to \<in> T" "to \<noteq> curr_task s"
    and f: "\<And>k. tss (f k) = tss k" "\<And>k. tss_sel (f k) = tss_sel k"
  shows "switched to f s = s\<lparr>curr_task := to,
      tasks := (tasks s)(to := f (tasks s to),
        curr_task s := (tasks s (curr_task s))\<lparr>tss := (tss (tasks s (curr_task s)))\<lparr>t_eflags := eflags s\<rparr>\<rparr>),
      saved_kstk := (saved_kstk s)(curr_task s := kstk s),
      eflags := t_eflags (tss (tasks s to)), kstk := saved_kstk s to,
      gdt_table := mark_busy True (ucast (tss_sel (tasks s to)))
        (mark_busy False (ucast (tss_sel (tasks s (curr_task s)))) (gdt_table s)),
      tr := ucast (tss_sel (tasks s to))\<rparr>"
proof -
  let ?s1 = "upd_task to f (s\<lparr>curr_task := to\<rparr>)"
  have sel: "sel_ok s to" "sel_ok s (curr_task s)" "tr s = ucast (tss_sel (tasks s (curr_task s)))" "\<not> is_busy s to"
    using inv to by (auto simp: cpu_inv_def)
  have av: "sel_available (ucast (tss_sel (tasks s to))) ?s1"
    using sel_ok_available [OF sel(1)] sel(4) by (simp add: sel_available_def upd_task_def)
  have own: "tss_owner (tr ?s1) ?s1 = curr_task s"
    "tss_owner (ucast (tss_sel (tasks s to))) ?s1 = to"
    using sel by (simp_all add: tss_owner_def upd_task_def sel_ok_def Let_def)
  have "switched to f s = hw_task_switch (ucast (tss_sel (tasks s to))) ?s1"
    using av f by (simp add: switched_def task_switch_from_to_def switch_to_tss_def far_jump_def)
      (simp add: upd_task_def)
  also have "\<dots> = s\<lparr>curr_task := to,
      tasks := (tasks s)(to := f (tasks s to),
        curr_task s := (tasks s (curr_task s))\<lparr>tss := (tss (tasks s (curr_task s)))\<lparr>t_eflags := eflags s\<rparr>\<rparr>),
      saved_kstk := (saved_kstk s)(curr_task s := kstk s),
      eflags := t_eflags (tss (tasks s to)), kstk := saved_kstk s to,
      gdt_table := mark_busy True (ucast (tss_sel (tasks s to)))
        (mark_busy False (ucast (tss_sel (tasks s (curr_task s)))) (gdt_table s)),
      tr := ucast (tss_sel (tasks s to))\<rparr>"
    unfolding hw_task_switch_def own using to(2) f sel(3) by (simp add: upd_task_def Let_def)
  finally show ?thesis .
qed

lemma switched_inv:
  assumes inv: "cpu_inv T s" and to: "to \<in> T" "to \<noteq> curr_task s"
    and f: "\<And>k. tss (f k) = tss k" "\<And>k. tss_sel (f k) = tss_sel k"
    and ks: "kstk s = [e1, e2]" "if_set e2"
  shows "cpu_inv T (switched to f s)"
    and "(kstk (switched to f s) = [] \<and> if_set (eflags (switched to f s))) \<or>
      (\<exists>e1 e2. kstk (switched to f s) = [e1, e2] \<and> if_set e2)"
proof -
  note eq = switched_context [OF inv to f]
  have "susp_ok s to" using inv to by (simp add: cpu_inv_def)
  then show "(kstk (switched to f s) = [] \<and> if_set (eflags (switched to f s))) \<or>
      (\<exists>e1 e2. kstk (switched to f s) = [e1, e2] \<and> if_set e2)"
    unfolding eq by (auto simp: susp_ok_def split: list.splits)
  have "susp_ok (switched to f s) t" if "t \<in> T" "t \<noteq> to" for t
  proof (cases "t = curr_task s")
    case True
    then show ?thesis using ks unfolding eq by (simp add: susp_ok_def)
  next
    case False
    then have "susp_ok s t" using inv that by (simp add: cpu_inv_def)
    with False that show ?thesis unfolding eq susp_ok_def by (auto split: list.splits)
  qed
  moreover have "sel_ok (switched to f s) t \<and> (is_busy (switched to f s) t \<longleftrightarrow> t = to)" if "t \<in> T" for t
  proof -
    let ?off = "s\<lparr>gdt_table := mark_busy False (ucast (tss_sel (tasks s (curr_task s)))) (gdt_table s)\<rparr>"
    let ?on = "?off\<lparr>gdt_table := mark_busy True (ucast (tss_sel (tasks s to))) (gdt_table ?off)\<rparr>"
    have s: "sel_ok s (curr_task s)" "sel_ok s t" "sel_ok s to" "is_busy s t \<longleftrightarrow> t = curr_task s"
      using inv to(1) that by (simp_all add: cpu_inv_def)
    have off: "sel_ok ?off t" "sel_ok ?off to" "\<not> is_busy ?off t"
      using mark_busy_task [OF s(1) _ _ s(2), of ?off False] mark_busy_task [OF s(1) _ _ s(3), of ?off False] s(4)
      by auto
    have on: "sel_ok ?on t" "is_busy ?on t \<longleftrightarrow> t = to"
      using mark_busy_task [OF off(2) _ _ off(1), of ?on True] off(3) by auto
    have "tss_sel (tasks (switched to f s) t) = tss_sel (tasks s t)" "gdt_table (switched to f s) = gdt_table ?on"
      unfolding eq using f(2) by simp_all
    then show ?thesis using on by (simp add: sel_ok_def is_busy_def)
  qed
  ultimately show "cpu_inv T (switched to f s)"
    using inv to f unfolding eq by (simp add: cpu_inv_def idle_task_def)
qed

section \<open>Dispatch\<close>

text \<open>Case analysis of \<^verbatim>\<open>task_dispatch\<close>: the target is the head of the ready list or the
  idle task, and nothing but the switch happens.\<close>

definition dispatch_target :: "kernel \<Rightarrow> addr" where
  "dispatch_target s = (if list_first (ready_list s) = 0 then idle_task s
     else CONTAINER_OF (list_first (ready_list s)) OFFSET_run_node)"

definition dispatch_mark :: "kernel \<Rightarrow> task_t \<Rightarrow> task_t" where
  "dispatch_mark s = (if list_first (ready_list s) = 0 then id else (\<lambda>k. k\<lparr>state := TASK_RUNNING\<rparr>))"

lemma upd_task_id [simp]: "upd_task t id s = s"
  by (simp add: upd_task_def)

lemma task_dispatch_alt:
  "task_dispatch s = leave_protected
     (if dispatch_target s = curr_task s then enter_protected s
      else switched (dispatch_target s) (dispatch_mark s) (enter_protected s))"
  by (auto simp: task_dispatch_def dispatch_target_def dispatch_mark_def switched_def
      task_current_def Let_def)

lemma dispatch_target_queue:
  assumes "qrel T q s" and "q LReady = Some R"
  shows "dispatch_target s = hd_or (idle_task s) R"
proof -
  have "list_first (ready_list s) = hd_or 0 (map run_node R)"
    using dll_list_first [OF qrel_dll [OF assms]] by simp
  moreover have "x \<in> T" if "R = x # xs" for x xs using qrel_sub [OF assms] that by auto
  ultimately show ?thesis
    using node_nonnull(1) [OF qrel_sep [OF assms(1)]]
    by (cases R) (auto simp: dispatch_target_def)
qed

lemma task_dispatch_inv:
  assumes q: "qrel T q s" "q LReady = Some R" and inv: "cpu_inv T s" and r: "in_region s"
  shows "qrel T q (task_dispatch s)" and "cpu_inv T (task_dispatch s)"
    and "curr_task (task_dispatch s) = hd_or (idle_task s) R"
    and "at_user (task_dispatch s) \<or> in_region (task_dispatch s)"
proof -
  let ?to = "dispatch_target s" and ?f = "dispatch_mark s" and ?s = "enter_protected s"
  obtain e where e: "kstk s = [e]" "if_set e"
    using r by (auto simp: in_region_def split: list.splits)
  have to: "?to = hd_or (idle_task s) R" by (rule dispatch_target_queue [OF q])
  have T: "?to \<in> T"
    using qrel_sub [OF q] inv by (cases R) (auto simp: to cpu_inv_def)
  have f: "\<And>k. tss (?f k) = tss k" "\<And>k. tss_sel (?f k) = tss_sel k"
    by (simp_all add: dispatch_mark_def)
  have all: "qrel T q (task_dispatch s) \<and> cpu_inv T (task_dispatch s) \<and>
      curr_task (task_dispatch s) = hd_or (idle_task s) R \<and>
      (at_user (task_dispatch s) \<or> in_region (task_dispatch s))"
  proof (cases "?to = curr_task s")
    case True
    then show ?thesis
      using q inv r to by (simp add: task_dispatch_alt)
  next
    case False
    let ?s' = "switched ?to ?f ?s"
    have pre: "cpu_inv T ?s" "?to \<noteq> curr_task ?s" using inv False by auto
    note ctx = switched_context [OF pre(1) T pre(2) f]
    have ks: "kstk ?s = [eflags s, e]" using e by simp
    note sw = switched_inv [OF pre(1) T pre(2) f ks e(2)]
    have "qrel T q ?s'" unfolding ctx using q(1) by simp
    moreover have "curr_task ?s' = ?to" unfolding ctx by simp
    moreover have "at_user (leave_protected ?s') \<or> in_region (leave_protected ?s')"
      using sw(2) by (auto simp: at_user_def in_region_def protection_defs)
    ultimately show ?thesis
      using False sw(1) by (simp add: task_dispatch_alt to [symmetric])
  qed
  then show "qrel T q (task_dispatch s)" and "cpu_inv T (task_dispatch s)"
    and "curr_task (task_dispatch s) = hd_or (idle_task s) R"
    and "at_user (task_dispatch s) \<or> in_region (task_dispatch s)"
    by auto
qed

lemmas dispatch_defs = task_dispatch_alt switched_def task_switch_from_to_def switch_to_tss_def
  far_jump_def hw_task_switch_def upd_task_def dispatch_mark_def

lemma task_dispatch_frame [frame, simp]:
  "sems (task_dispatch s) = sems s" "mutexes (task_dispatch s) = mutexes s"
  "map (set_busy b) (gdt_table (task_dispatch s)) = map (set_busy b) (gdt_table s)" "symaddr (task_dispatch s) = symaddr s"
  "ready_list (task_dispatch s) = ready_list s" "sleep_list (task_dispatch s) = sleep_list s"
  "task_list (task_dispatch s) = task_list s" "nodes (task_dispatch s) = nodes s"
  "sys_tick (task_dispatch s) = sys_tick s" "io (task_dispatch s) = io s"
  by (simp_all add: dispatch_defs Let_def)

lemma task_dispatch_tasks [frame, simp]:
  "slice_ticks (tasks (task_dispatch s) t) = slice_ticks (tasks s t)"
  "time_ticks (tasks (task_dispatch s) t) = time_ticks (tasks s t)"
  "sleep_ticks (tasks (task_dispatch s) t) = sleep_ticks (tasks s t)"
  "tss_sel (tasks (task_dispatch s) t) = tss_sel (tasks s t)"
  by (simp_all add: dispatch_defs Let_def)

lemma task_dispatch_idle [frame, simp]: "idle_task (task_dispatch s) = idle_task s"
  by (simp add: idle_task_def)

section \<open>The kernel invariant\<close>

definition ready :: "queues \<Rightarrow> addr list" where
  "ready q = (case q LReady of None \<Rightarrow> [] | Some R \<Rightarrow> R)"

definition ticks_ok :: "queues \<Rightarrow> kernel \<Rightarrow> bool" where
  "ticks_ok q s \<longleftrightarrow>
     (\<forall>t\<in>qset q LAll. 0 < sint (slice_ticks (tasks s t)) \<and>
        sint (slice_ticks (tasks s t)) \<le> sint (time_ticks (tasks s t))) \<and>
     (\<forall>t\<in>qset q LSleep. 0 < sint (sleep_ticks (tasks s t)))"

definition kstatic :: "addr set \<Rightarrow> queues \<Rightarrow> kernel \<Rightarrow> bool" where
  "kstatic T q s \<longleftrightarrow> qrel T q s \<and> cpu_inv T s \<and> ticks_ok q s
     \<and> q LReady \<noteq> None \<and> q LSleep \<noteq> None \<and> q LAll \<noteq> None
     \<and> T = insert (idle_task s) (qset q LAll) \<and> idle_task s \<notin> qset q LAll"

definition located :: "queues \<Rightarrow> bool" where
  "located q \<longleftrightarrow> (\<forall>t. t \<in> qset q LAll \<longleftrightarrow> (\<exists>i. i \<noteq> LAll \<and> t \<in> qset q i))"

definition kinv :: "addr set \<Rightarrow> queues \<Rightarrow> kernel \<Rightarrow> bool" where
  "kinv T q s \<longleftrightarrow> kstatic T q s \<and> located q \<and> at_user s
     \<and> curr_task s = hd_or (idle_task s) (ready q)"

lemma ready_Some: "q LReady = Some R \<Longrightarrow> ready q = R"
  by (simp add: ready_def)

lemma kstatic_ready: "kstatic T q s \<Longrightarrow> q LReady = Some (ready q)"
  by (auto simp: kstatic_def ready_def)

lemma kstatic_qrel: "kstatic T q s \<Longrightarrow> qrel T q s"
  unfolding kstatic_def by blast

lemma kstatic_cpu: "kstatic T q s \<Longrightarrow> cpu_inv T s"
  unfolding kstatic_def by blast

lemma kstatic_notidle:
  assumes "kstatic T q s" and "located q" and "t \<in> qset q i"
  shows "t \<noteq> idle_task s" and "t \<in> qset q LAll" and "t \<in> T"
proof -
  show "t \<in> qset q LAll" using assms by (cases "i = LAll") (auto simp: located_def)
  then show "t \<noteq> idle_task s" and "t \<in> T" using assms(1) by (auto simp: kstatic_def)
qed

text \<open>Ending a protected region with a dispatch restores the invariant.\<close>

lemma dispatch_kinv:
  assumes "kstatic T q s" and "located q" and "in_region s"
  shows "kinv T q (leave_protected (task_dispatch s))"
proof -
  note q = kstatic_ready [OF assms(1)]
  have k: "qrel T q s" "cpu_inv T s" using assms(1) by (auto simp: kstatic_def)
  note d = task_dispatch_inv [OF k(1) q k(2) assms(3)]
  have "kstatic T q (leave_protected (task_dispatch s))"
    using assms(1) d(1,2) by (simp add: kstatic_def ticks_ok_def)
  then show ?thesis
    using assms(2) d(3) leave_at_user [OF d(4)] by (simp add: kinv_def)
qed

lemma leave_kinv:
  assumes "kstatic T q s" and "located q" and "in_region s"
    and "curr_task s = hd_or (idle_task s) (ready q)"
  shows "kinv T q (leave_protected s)"
proof -
  have "kstatic T q (leave_protected s)"
    using assms(1) by (auto simp: kstatic_def ticks_ok_def)
  then show ?thesis using assms leave_at_user by (simp add: kinv_def)
qed

lemma enter_kinv:
  assumes "kinv T q s"
  shows "kstatic T q (enter_protected s)" "in_region (enter_protected s)"
  using assms enter_in_region by (auto simp: kinv_def kstatic_def ticks_ok_def)

section \<open>Abstract effects of the operations\<close>

text \<open>Rotating the running task to the back of the ready list; moving it to the end of another
  list; moving the first waiter of a list to the back of the ready list.\<close>

definition q_rotate :: "queues \<Rightarrow> queues" where
  "q_rotate q = q(LReady \<mapsto> tl (ready q) @ [hd (ready q)])"

definition q_block :: "lid \<Rightarrow> queues \<Rightarrow> queues" where
  "q_block i q = q(LReady \<mapsto> tl (ready q), i \<mapsto> the (q i) @ [hd (ready q)])"

definition q_wake :: "lid \<Rightarrow> queues \<Rightarrow> queues" where
  "q_wake i q = q(i \<mapsto> tl (the (q i)), LReady \<mapsto> ready q @ [hd (the (q i))])"

lemma located_upd2:
  assumes "located q" and "i \<noteq> LAll" and "j \<noteq> LAll" and "i \<noteq> j"
    and "set xs \<union> set ys = qset q i \<union> qset q j"
  shows "located (q(i \<mapsto> xs, j \<mapsto> ys))"
proof -
  let ?q = "q(i \<mapsto> xs, j \<mapsto> ys)"
  have "(\<exists>k. k \<noteq> LAll \<and> t \<in> qset ?q k) \<longleftrightarrow> (\<exists>k. k \<noteq> LAll \<and> t \<in> qset q k)" for t
  proof
    assume "\<exists>k. k \<noteq> LAll \<and> t \<in> qset ?q k"
    then obtain k where k: "k \<noteq> LAll" "t \<in> qset ?q k" by blast
    then have "t \<in> set xs \<union> set ys \<or> t \<in> qset q k" by (auto split: if_splits)
    then show "\<exists>k. k \<noteq> LAll \<and> t \<in> qset q k" using assms(2,3,5) k(1) by blast
  next
    assume "\<exists>k. k \<noteq> LAll \<and> t \<in> qset q k"
    then obtain k where k: "k \<noteq> LAll" "t \<in> qset q k" by blast
    have "qset ?q i = set xs" "qset ?q j = set ys" "k \<noteq> i \<Longrightarrow> k \<noteq> j \<Longrightarrow> qset ?q k = qset q k"
      using assms(4) by auto
    then show "\<exists>k. k \<noteq> LAll \<and> t \<in> qset ?q k" using assms(2,3,5) k by blast
  qed
  then show ?thesis using assms(1-3) by (simp add: located_def)
qed

lemma located_rotate:
  assumes "located q" and "q LReady = Some (t # R)"
  shows "located (q_rotate q)"
proof -
  have "qset (q_rotate q) = qset q" using assms(2) by (intro ext) (auto simp: q_rotate_def qset_Some ready_Some)
  then show ?thesis using assms(1) by (simp add: located_def)
qed

lemma located_block:
  assumes "located q" and "q LReady = Some (t # R)" and "q i = Some xs" and "i \<noteq> LReady" "i \<noteq> LAll"
  shows "located (q_block i q)"
  unfolding q_block_def using assms by (intro located_upd2) (auto simp: qset_Some ready_Some)

lemma located_wake:
  assumes "located q" and "q LReady = Some R" and "q i = Some (t # xs)" and "i \<noteq> LReady" "i \<noteq> LAll"
  shows "located (q_wake i q)"
  unfolding q_wake_def using assms by (intro located_upd2) (auto simp: qset_Some ready_Some)

section \<open>Steps inside a protected region\<close>

lemma block_free:
  assumes "qrel T q s" and "q LReady = Some (t # R)" and "i \<noteq> LAll"
  shows "qfree (q(LReady \<mapsto> R)) i t"
proof -
  have "t \<notin> set R" using qrel_distinct [OF assms(1,2)] by simp
  moreover have "t \<notin> qset q j" if "j \<noteq> LAll" "j \<noteq> LReady" for j
    using qrel_disj [OF assms(1) _ that(1), of LReady t] that assms(2) by (auto simp: qset_Some)
  ultimately show ?thesis using assms(3) by (simp add: qfree_def)
qed

lemma wake_free:
  assumes "qrel T q s" and "q i = Some (t # xs)" and "i \<noteq> LAll" and "j \<noteq> LAll"
  shows "qfree (q(i \<mapsto> xs)) j t"
proof -
  have "t \<notin> set xs" using qrel_distinct [OF assms(1,2)] by simp
  moreover have "t \<notin> qset q k" if "k \<noteq> LAll" "k \<noteq> i" for k
    using qrel_disj [OF assms(1,3) that(1), of t] that assms(2) by (auto simp: qset_Some)
  ultimately show ?thesis using assms(4) by (simp add: qfree_def)
qed

lemma set_block_kstatic:
  assumes "kstatic T q s" and "q LReady = Some (t # R)"
  shows "kstatic T (q(LReady \<mapsto> R)) (task_set_block t s)"
  using assms task_set_block_qrel [of T q s "[]" t R] by (auto simp: kstatic_def ticks_ok_def)

lemma set_ready_kstatic:
  assumes "kstatic T q s" and "t \<in> T" and "qfree q LReady t"
  shows "kstatic T (q(LReady \<mapsto> ready q @ [t])) (task_set_ready t s)"
  using assms task_set_ready_qrel [OF _ kstatic_ready [OF assms(1)] assms(2,3)]
  by (auto simp: kstatic_def ticks_ok_def)

lemma rotate_kstatic:
  assumes "kstatic T q s" and "q LReady = Some (t # R)"
  shows "kstatic T (q_rotate q) (task_set_ready t (task_set_block t s))"
proof -
  have q: "qrel T q s" "t \<in> T" using assms qrel_sub by (fastforce simp: kstatic_def)+
  note b = set_block_kstatic [OF assms]
  have "kstatic T (q(LReady \<mapsto> R, LReady \<mapsto> R @ [t])) (task_set_ready t (task_set_block t s))"
    using set_ready_kstatic [OF b q(2) block_free [OF q(1) assms(2)]] by (simp add: ready_Some)
  then show ?thesis using assms(2) by (simp add: q_rotate_def ready_Some)
qed

lemma in_region_frame [simp]:
  "in_region (task_set_ready t s) = in_region s" "in_region (task_set_block t s) = in_region s"
  "in_region (task_set_wakeup t s) = in_region s" "in_region (task_set_sleep t n s) = in_region s"
  "in_region (upd_task t f s) = in_region s"
  by (simp_all add: in_region_def upd_task_def)

section \<open>Yield and sleep\<close>

lemma sys_sched_yield_kinv:
  assumes "kinv T q s"
  shows "kinv T (if 1 < length (ready q) then q_rotate q else q) (sys_sched_yield s)"
proof -
  let ?s = "enter_protected s"
  note e = enter_kinv [OF assms]
  have loc: "located q" and curr: "curr_task s = hd_or (idle_task s) (ready q)"
    using assms by (auto simp: kinv_def)
  note R = kstatic_ready [OF e(1)]
  have cnt: "sint (list_count (ready_list ?s)) = int (length (ready q))"
    using qrel_count [OF kstatic_qrel [OF e(1)] R] by simp
  show ?thesis
  proof (cases "1 < length (ready q)")
    case True
    then obtain t rs where tr: "ready q = t # rs" by (cases "ready q") auto
    with R have q: "q LReady = Some (t # rs)" by simp
    have "kinv T (q_rotate q) (leave_protected (task_dispatch (task_set_ready t (task_set_block t ?s))))"
      using rotate_kstatic [OF e(1) q] located_rotate [OF loc q] e(2) by (intro dispatch_kinv) auto
    with True cnt curr tr show ?thesis
      by (simp add: sys_sched_yield_def task_current_def Let_def)
  next
    case False
    with cnt assms show ?thesis by (simp add: sys_sched_yield_def Let_def)
  qed
qed

lemma sleep_ticks_of_ms_bounds:
  "0 < sint (sleep_ticks_of_ms ms)" "sint (sleep_ticks_of_ms ms) = int (unat (sleep_ticks_of_ms ms))"
  "sleep_ticks_of_ms ms \<noteq> 0"
proof -
  let ?x = "ms + OS_TICKS_MS - 1"
  have "unat (?x div 10) = unat ?x div 10" by (simp add: unat_div)
  moreover have "unat ?x < 2 ^ 32" using unsigned_less [of ?x, where ?'a = nat] by simp
  ultimately have d: "unat (?x div 10) < 429496730" by simp
  then have u: "unat (sleep_ticks_of_ms ms) = unat (?x div 10) + 1"
    unfolding sleep_ticks_of_ms_def OS_TICKS_MS_def by (simp add: unat_word_ariths OS_TICKS_MS_def)
  show s: "sint (sleep_ticks_of_ms ms) = int (unat (sleep_ticks_of_ms ms))"
    using u d by (intro sint_small) simp
  show "0 < sint (sleep_ticks_of_ms ms)" using u by (simp only: s of_nat_0_less_iff)
  then show "sleep_ticks_of_ms ms \<noteq> 0" by auto
qed

lemma sys_sleep_kinv:
  assumes "kinv T q s" and "ready q \<noteq> []"
  shows "kinv T (q_block LSleep q) (sys_sleep ms s)"
proof -
  let ?s = "enter_protected s" and ?n = "sleep_ticks_of_ms ms"
  obtain t R where tr: "ready q = t # R" using assms(2) by (cases "ready q") auto
  note e = enter_kinv [OF assms(1)]
  have loc: "located q" and curr: "curr_task s = t" using assms(1) tr by (auto simp: kinv_def)
  have q: "q LReady = Some (t # R)" using kstatic_ready [OF e(1)] tr by simp
  obtain S where S: "q LSleep = Some S" using e(1) by (auto simp: kstatic_def)
  have rel: "qrel T q ?s" "t \<in> T" using e(1) q qrel_sub by (fastforce simp: kstatic_def)+
  let ?s1 = "task_set_block t ?s" and ?q1 = "q(LReady \<mapsto> R)"
  let ?s2 = "task_set_sleep t ?n ?s1"
  note b = set_block_kstatic [OF e(1) q]
  have "qrel T (?q1(LSleep \<mapsto> S @ [t])) ?s2"
    using b S rel block_free [OF rel(1) q, of LSleep] sleep_ticks_of_ms_bounds(3)
    by (intro task_set_sleep_qrel) (auto simp: kstatic_def)
  then have "kstatic T (q_block LSleep q) ?s2"
    using b S tr sleep_ticks_of_ms_bounds [of ms]
    by (auto simp: kstatic_def ticks_ok_def q_block_def qset_Some)
  then have "kinv T (q_block LSleep q) (leave_protected (task_dispatch ?s2))"
    using located_block [OF loc q S] e(2) by (intro dispatch_kinv) auto
  then show ?thesis using curr by (simp add: sys_sleep_def Let_def)
qed

section \<open>The clock tick\<close>

lemma cpu_inv_upd_task:
  assumes "cpu_inv T s" and "\<And>k. tss (f k) = tss k" and "\<And>k. tss_sel (f k) = tss_sel k"
  shows "cpu_inv T (upd_task t f s)"
  using assms(1) by (rule cpu_inv_cong) (auto simp: upd_task_def assms)

lemma kstatic_upd_task:
  assumes "kstatic T q s" and "\<And>k. tss (f k) = tss k" and "\<And>k. tss_sel (f k) = tss_sel k"
    and "ticks_ok q (upd_task t f s)"
  shows "kstatic T q (upd_task t f s)"
  using assms cpu_inv_upd_task [OF kstatic_cpu [OF assms(1)] assms(2,3)] by (auto simp: kstatic_def)

lemma tasks_upd_task [simp]: "tasks (upd_task t f s) = (tasks s)(t := f (tasks s t))"
  by (simp add: upd_task_def)

text \<open>One sleeper: its counter goes down; at zero it moves to the back of the ready list.\<close>

lemma sleep_tick_wake:
  assumes k: "kstatic T q s" and S: "q LSleep = Some (ds @ t # ys)"
    and one: "sleep_ticks (tasks s t) = 1"
  shows "kstatic T (q(LSleep \<mapsto> ds @ ys, LReady \<mapsto> ready q @ [t])) (sleep_tick t s)"
proof -
  let ?s1 = "upd_task t (\<lambda>k. k\<lparr>sleep_ticks := sleep_ticks k - 1\<rparr>) s" and ?q1 = "q(LSleep \<mapsto> ds @ ys)"
  have q: "qrel T q ?s1" "t \<in> T" "distinct (ds @ t # ys)"
    using kstatic_qrel [OF k] qrel_sub [OF kstatic_qrel [OF k] S] qrel_distinct [OF kstatic_qrel [OF k] S]
    by auto
  have cpu: "cpu_inv T ?s1" using kstatic_cpu [OF k] by (rule cpu_inv_upd_task) auto
  have w: "qrel T ?q1 (task_set_wakeup t ?s1)" by (rule task_set_wakeup_qrel [OF q(1) S])
  have "kstatic T ?q1 (task_set_wakeup t ?s1)"
    using k w cpu S q(3) by (auto simp: kstatic_def ticks_ok_def qset_Some)
  moreover have "qfree ?q1 LReady t"
    using q(3) qrel_disj [OF q(1), of LSleep _ t] S by (auto simp: qfree_def qset_Some)
  moreover have "ready ?q1 = ready q" by (simp add: ready_def)
  ultimately show ?thesis
    using set_ready_kstatic [of T ?q1 _ t] q(2) one by (simp add: sleep_tick_def Let_def)
qed

lemma sleep_tick_keep:
  assumes k: "kstatic T q s" and t: "t \<in> qset q LSleep" and two: "sleep_ticks (tasks s t) \<noteq> 1"
  shows "kstatic T q (sleep_tick t s)"
proof -
  let ?f = "\<lambda>k. k\<lparr>sleep_ticks := sleep_ticks k - 1\<rparr>"
  have pos: "0 < sint (sleep_ticks (tasks s t))" using k t by (auto simp: kstatic_def ticks_ok_def)
  have nz: "sleep_ticks (tasks s t) - 1 \<noteq> 0" using two by simp
  then have "0 < sint (sleep_ticks (tasks s t) - 1)"
    using pos sint_pos_decr [OF pos] sint_eq_0 [of "sleep_ticks (tasks s t) - 1"] by linarith
  then have "kstatic T q (upd_task t ?f s)"
    using k by (intro kstatic_upd_task) (auto simp: kstatic_def ticks_ok_def)
  then show ?thesis using nz by (simp add: sleep_tick_def Let_def)
qed

lemma sleep_tick_frame [frame, simp]:
  "curr_task (sleep_tick t s) = curr_task s" "sems (sleep_tick t s) = sems s"
  "mutexes (sleep_tick t s) = mutexes s" "gdt_table (sleep_tick t s) = gdt_table s"
  "in_region (sleep_tick t s) = in_region s"
  "u \<noteq> t \<Longrightarrow> tasks (sleep_tick t s) u = tasks s u"
  by (simp_all add: sleep_tick_def Let_def) (simp_all add: upd_task_def)

text \<open>The walk ends and does this to every sleeper, in list order.\<close>

definition wakes :: "kernel \<Rightarrow> addr \<Rightarrow> bool" where
  "wakes s t \<longleftrightarrow> sleep_ticks (tasks s t) = 1"

lemma dll_next: "dll l h (xs @ n # ys) \<Longrightarrow> nxt (h n) = hd_or 0 ys"
  by (simp add: dll_def)

definition q_wakeup :: "(addr \<Rightarrow> bool) \<Rightarrow> addr list \<Rightarrow> addr list \<Rightarrow> queues \<Rightarrow> queues" where
  "q_wakeup w ds ys q = q(LSleep \<mapsto> ds @ filter (\<lambda>t. \<not> w t) ys, LReady \<mapsto> ready q @ filter w ys)"

lemma q_wakeup_Nil: "q LSleep = Some ds \<Longrightarrow> q LReady = Some (ready q) \<Longrightarrow> q_wakeup w ds [] q = q"
  by (auto simp: q_wakeup_def)

lemma q_wakeup_wake:
  "w t \<Longrightarrow> q_wakeup w ds ys (q(LSleep \<mapsto> zs, LReady \<mapsto> ready q @ [t])) = q_wakeup w ds (t # ys) q"
  by (auto simp: q_wakeup_def ready_def)

lemma q_wakeup_keep: "\<not> w t \<Longrightarrow> q_wakeup w (ds @ [t]) ys q = q_wakeup w ds (t # ys) q"
  by (auto simp: q_wakeup_def)

lemma q_wakeup_cong:
  "(\<And>t. t \<in> set ys \<Longrightarrow> w t = w' t) \<Longrightarrow> q_wakeup w ds ys q = q_wakeup w' ds ys q"
proof -
  assume w: "\<And>t. t \<in> set ys \<Longrightarrow> w t = w' t"
  then have "filter w ys = filter w' ys" "filter (\<lambda>t. \<not> w t) ys = filter (\<lambda>t. \<not> w' t) ys"
    by (auto intro!: filter_cong)
  then show "q_wakeup w ds ys q = q_wakeup w' ds ys q" by (simp add: q_wakeup_def)
qed

text \<open>What the walk does to the counters: one less for every sleeper, nothing else.\<close>

definition ticked :: "addr list \<Rightarrow> kernel \<Rightarrow> kernel \<Rightarrow> bool" where
  "ticked ys s s' \<longleftrightarrow> sys_tick s' = sys_tick s \<and>
     (\<forall>u. sleep_ticks (tasks s' u) = sleep_ticks (tasks s u) - (if u \<in> set ys then 1 else 0) \<and>
        slice_ticks (tasks s' u) = slice_ticks (tasks s u) \<and>
        time_ticks (tasks s' u) = time_ticks (tasks s u))"

lemma sleep_tick_counters:
  "sys_tick (sleep_tick t s) = sys_tick s"
  "sleep_ticks (tasks (sleep_tick t s) u) = sleep_ticks (tasks s u) - (if u = t then 1 else 0)"
  "slice_ticks (tasks (sleep_tick t s) u) = slice_ticks (tasks s u)"
  "time_ticks (tasks (sleep_tick t s) u) = time_ticks (tasks s u)"
  by (simp_all add: sleep_tick_def Let_def)
    (simp_all add: task_set_ready_def task_set_wakeup_def upd_task_def split: prod.split)

lemma ticked_step: "t \<notin> set ys \<Longrightarrow> ticked ys (sleep_tick t s) s' \<Longrightarrow> ticked (t # ys) s s'"
  by (auto simp: ticked_def sleep_tick_counters)

lemma sleep_walk_kstatic:
  assumes "kstatic T q s" and "q LSleep = Some (ds @ ys)" and "in_region s"
  shows "\<exists>s'. sleep_walk (hd_or 0 (map run_node ys)) s = Some s' \<and>
      kstatic T (q_wakeup (wakes s) ds ys q) s' \<and>
      in_region s' \<and> sems s' = sems s \<and> mutexes s' = mutexes s \<and> gdt_table s' = gdt_table s \<and>
      ticked ys s s'"
  using assms
proof (induction ys arbitrary: q s ds)
  case Nil
  then show ?case
    using kstatic_ready [OF Nil.prems(1)] by (simp add: sleep_walk.simps q_wakeup_Nil ticked_def)
next
  case (Cons t ys)
  note k = Cons.prems(1) and S = Cons.prems(2)
  note q = kstatic_qrel [OF k]
  have "t \<in> T" "distinct (ds @ t # ys)" using qrel_sub [OF q S] qrel_distinct [OF q S] by auto
  then have t: "run_node t \<noteq> 0" "t \<notin> set ys" using node_nonnull [OF qrel_sep [OF q]] by auto
  have nx: "nxt (nodes s (run_node t)) = hd_or 0 (map run_node ys)"
    using dll_next [of "sleep_list s" "nodes s" "map run_node ds" "run_node t" "map run_node ys"]
      qrel_dll [OF q S] by simp
  then have step: "sleep_walk (hd_or 0 (map run_node (t # ys))) s =
      sleep_walk (hd_or 0 (map run_node ys)) (sleep_tick t s)"
    using t(1) by (subst sleep_walk.simps) simp
  have w: "wakes (sleep_tick t s) u = wakes s u" if "u \<in> set ys" for u
  proof -
    from that t(2) have "u \<noteq> t" by auto
    then show ?thesis by (simp add: wakes_def)
  qed
  note w = q_wakeup_cong [of ys "wakes (sleep_tick t s)" "wakes s", OF w]
  show ?case
  proof (cases "wakes s t")
    case True
    let ?q = "q(LSleep \<mapsto> ds @ ys, LReady \<mapsto> ready q @ [t])"
    have "kstatic T ?q (sleep_tick t s)" "?q LSleep = Some (ds @ ys)" "in_region (sleep_tick t s)"
      using sleep_tick_wake [OF k S] True Cons.prems(3) by (simp_all add: wakes_def)
    note IH = Cons.IH [OF this]
    have "q_wakeup (wakes (sleep_tick t s)) ds ys ?q = q_wakeup (wakes s) ds (t # ys) q"
      by (simp only: w q_wakeup_wake [of "wakes s", OF True])
    from IH [unfolded this] show ?thesis unfolding step using ticked_step [OF t(2)] by auto
  next
    case False
    have "kstatic T q (sleep_tick t s)"
      using sleep_tick_keep [OF k] S False by (simp add: wakes_def qset_Some)
    from Cons.IH [OF this, of "ds @ [t]"] show ?thesis
      using step S Cons.prems(3) ticked_step [OF t(2)]
      by (auto simp: w q_wakeup_keep [of "wakes s", OF False])
  qed
qed

text \<open>The whole tick on the queues: the running task is rotated when its slice is used up, then
  the sleepers whose time has come are appended to the ready list.\<close>

definition slice_ends :: "queues \<Rightarrow> kernel \<Rightarrow> bool" where
  "slice_ends q s \<longleftrightarrow> ready q \<noteq> [] \<and> slice_ticks (tasks s (hd (ready q))) = 1"

definition sleepers :: "queues \<Rightarrow> addr list" where
  "sleepers q = (case q LSleep of None \<Rightarrow> [] | Some S \<Rightarrow> S)"

definition q_tick :: "kernel \<Rightarrow> queues \<Rightarrow> queues" where
  "q_tick s q = q_wakeup (wakes s) [] (sleepers q) (if slice_ends q s then q_rotate q else q)"

lemma slice_tick_kstatic:
  assumes k: "kstatic T q s" and loc: "located q" and curr: "curr_task s = hd_or (idle_task s) (ready q)"
  shows "kstatic T (if slice_ends q s then q_rotate q else q) (slice_tick s)"
    and "located (if slice_ends q s then q_rotate q else q)"
proof -
  note R = kstatic_ready [OF k]
  have "kstatic T (if slice_ends q s then q_rotate q else q) (slice_tick s) \<and>
     located (if slice_ends q s then q_rotate q else q)"
  proof (cases "ready q")
    case Nil
    with k loc curr show ?thesis
      by (simp add: slice_tick_def slice_ends_def task_current_def)
  next
    case (Cons t rs)
    with R have q: "q LReady = Some (t # rs)" by simp
    have t: "t \<noteq> idle_task s" "t \<in> qset q LAll"
      using kstatic_notidle [OF k loc, of t LReady] q by (auto simp: qset_Some)
    have pos: "0 < sint (slice_ticks (tasks s t))"
      "sint (slice_ticks (tasks s t)) \<le> sint (time_ticks (tasks s t))"
      using k t(2) by (auto simp: kstatic_def ticks_ok_def)
    show ?thesis
    proof (cases "slice_ticks (tasks s t) = 1")
      case True
      let ?s = "upd_task t (\<lambda>k. k\<lparr>slice_ticks := time_ticks k\<rparr>)
        (upd_task t (\<lambda>k. k\<lparr>slice_ticks := slice_ticks k - 1\<rparr>) s)"
      have "?s = upd_task t (\<lambda>k. k\<lparr>slice_ticks := time_ticks k\<rparr>) s" by (simp add: upd_task_def)
      moreover have "kstatic T q (upd_task t (\<lambda>k. k\<lparr>slice_ticks := time_ticks k\<rparr>) s)"
        using k pos by (intro kstatic_upd_task) (auto simp: kstatic_def ticks_ok_def)
      ultimately have "kstatic T (q_rotate q) (task_set_ready t (task_set_block t ?s))"
        using rotate_kstatic [of T q "upd_task t (\<lambda>k. k\<lparr>slice_ticks := time_ticks k\<rparr>) s" t rs] q
        by simp
      then show ?thesis
        using True Cons t(1) curr located_rotate [OF loc q]
        by (simp add: slice_tick_def slice_ends_def task_current_def Let_def)
    next
      case False
      then have "0 < sint (slice_ticks (tasks s t) - 1)"
        using pos(1) sint_pos_decr [OF pos(1)] sint_eq_0 [of "slice_ticks (tasks s t) - 1"] by simp
      then have "kstatic T q (upd_task t (\<lambda>k. k\<lparr>slice_ticks := slice_ticks k - 1\<rparr>) s)"
        using k pos sint_pos_decr [OF pos(1)]
        by (intro kstatic_upd_task) (auto simp: kstatic_def ticks_ok_def)
      then show ?thesis
        using False Cons t(1) curr loc
        by (simp add: slice_tick_def slice_ends_def task_current_def Let_def)
    qed
  qed
  then show "kstatic T (if slice_ends q s then q_rotate q else q) (slice_tick s)"
    and "located (if slice_ends q s then q_rotate q else q)" by auto
qed

lemma slice_tick_frame [frame, simp]:
  "sems (slice_tick s) = sems s" "mutexes (slice_tick s) = mutexes s"
  "gdt_table (slice_tick s) = gdt_table s" "in_region (slice_tick s) = in_region s"
  "sleep_ticks (tasks (slice_tick s) t) = sleep_ticks (tasks s t)"
  by (simp_all add: slice_tick_def Let_def) (simp_all add: upd_task_def)

definition next_slice :: "task_t \<Rightarrow> cint" where
  "next_slice k = (if slice_ticks k = 1 then time_ticks k else slice_ticks k - 1)"

lemma slice_tick_counters:
  "sys_tick (slice_tick s) = sys_tick s"
  "time_ticks (tasks (slice_tick s) u) = time_ticks (tasks s u)"
  "slice_ticks (tasks (slice_tick s) u) =
     (if u = curr_task s \<and> u \<noteq> idle_task s then next_slice (tasks s u) else slice_ticks (tasks s u))"
  by (simp_all add: slice_tick_def task_current_def next_slice_def Let_def)
    (simp_all add: task_set_ready_def task_set_block_def upd_task_def split: prod.split)

lemma located_wakeup:
  assumes "located q" and "q LReady = Some R" and "q LSleep = Some (ds @ ys)"
  shows "located (q_wakeup w ds ys q)"
  unfolding q_wakeup_def using assms by (intro located_upd2) (auto simp: qset_Some ready_Some)

definition tick_counters :: "queues \<Rightarrow> kernel \<Rightarrow> kernel \<Rightarrow> bool" where
  "tick_counters q s s' \<longleftrightarrow> sys_tick s' = sys_tick s \<and>
     (\<forall>u. sleep_ticks (tasks s' u) = sleep_ticks (tasks s u) - (if u \<in> set (sleepers q) then 1 else 0) \<and>
        slice_ticks (tasks s' u) =
          (if ready q \<noteq> [] \<and> u = hd (ready q) then next_slice (tasks s u) else slice_ticks (tasks s u)) \<and>
        time_ticks (tasks s' u) = time_ticks (tasks s u))"

lemma task_time_tick_kinv:
  assumes k: "kstatic T q s" and loc: "located q" and r: "in_region s"
    and curr: "curr_task s = hd_or (idle_task s) (ready q)"
  shows "\<exists>s'. task_time_tick s = Some s' \<and> kinv T (q_tick s q) (leave_protected s') \<and>
      sems s' = sems s \<and> mutexes s' = mutexes s \<and> tick_counters q s s'"
proof -
  let ?q = "if slice_ends q s then q_rotate q else q"
  note st = slice_tick_kstatic [OF k loc curr]
  obtain S where S: "q LSleep = Some S" using k by (auto simp: kstatic_def)
  then have S': "?q LSleep = Some ([] @ S)" by (simp add: q_rotate_def)
  have first: "list_first (sleep_list (slice_tick s)) = hd_or 0 (map run_node S)"
    using dll_list_first [OF qrel_dll [OF kstatic_qrel [OF st(1)] S']] by simp
  have w: "wakes (slice_tick s) = wakes s" by (rule ext) (simp add: wakes_def)
  obtain s' where s': "sleep_walk (hd_or 0 (map run_node S)) (slice_tick s) = Some s'"
    "kstatic T (q_wakeup (wakes s) [] S ?q) s'" "in_region s'" "sems s' = sems s"
    "mutexes s' = mutexes s" "ticked S (slice_tick s) s'"
    using sleep_walk_kstatic [OF st(1) S'] r w by auto
  have "located (q_wakeup (wakes s) [] S ?q)"
    by (rule located_wakeup [OF st(2) kstatic_ready [OF st(1)] S'])
  then have inv: "kinv T (q_wakeup (wakes s) [] S ?q) (leave_protected (task_dispatch s'))"
    using s'(2,3) by (intro dispatch_kinv)
  have cur: "u = curr_task s \<and> u \<noteq> idle_task s \<longleftrightarrow> ready q \<noteq> [] \<and> u = hd (ready q)" for u
    using curr kstatic_notidle(1) [OF k loc, of "hd (ready q)" LReady] kstatic_ready [OF k]
    by (cases "ready q") (auto simp: qset_Some)
  have "tick_counters q s (task_dispatch s')"
    using s'(6) S by (simp add: ticked_def tick_counters_def slice_tick_counters cur sleepers_def)
  then show ?thesis
    using s' first S inv by (simp add: task_time_tick_def q_tick_def sleepers_def Let_def)
qed

end
