(* ===== verification/Ipc.thy ===== *)
theory Ipc
  imports Sched_Inv
begin

text \<open>
  The counting semaphore of \<^verbatim>\<open>src/source/kernel/ipc/sem.c\<close> and the re-entrant mutex of
  \<^verbatim>\<open>src/source/kernel/ipc/mutex.c\<close>. Both park tasks on a wait list through their
  \<^verbatim>\<open>wait_node\<close> and hand them back to the ready list in order; the two steps are proved once
  for any wait list. An assertion that fails calls \<^verbatim>\<open>panic\<close>, which prints the failure and
  halts the processor for good: it is the error value of \<open>rein_mutex_unlock\<close>.
\<close>

section \<open>Semaphores\<close>

definition upd_sem :: "addr \<Rightarrow> (sem_t \<Rightarrow> sem_t) \<Rightarrow> kernel \<Rightarrow> kernel" where
  "upd_sem p f s = s\<lparr>sems := (sems s)(p := f (sems s p))\<rparr>"

definition sem_init :: "addr \<Rightarrow> cint \<Rightarrow> kernel \<Rightarrow> kernel" where
  "sem_init sem init_count s =
    upd_sem sem (\<lambda>k. k\<lparr>sem_wait_list := list_init\<rparr>)
      (upd_sem sem (\<lambda>k. k\<lparr>sem_cnt := init_count\<rparr>) s)"

definition sem_wait :: "addr \<Rightarrow> kernel \<Rightarrow> kernel" where
  "sem_wait sem s0 =
    (let s = enter_protected s0;
         s' = (if 0 < sint (sem_cnt (sems s sem)) then
                 upd_sem sem (\<lambda>k. k\<lparr>sem_cnt := sem_cnt k - 1\<rparr>) s
               else
                 (let curr = task_current s;
                      s1 = task_set_block curr s;
                      (l, h) = list_insert_last (sem_wait_list (sems s1 sem)) (wait_node curr) (nodes s1);
                      s2 = upd_sem sem (\<lambda>k. k\<lparr>sem_wait_list := l\<rparr>) (s1\<lparr>nodes := h\<rparr>)
                  in task_dispatch s2))
     in leave_protected s')"

definition sem_notify :: "addr \<Rightarrow> kernel \<Rightarrow> kernel" where
  "sem_notify sem s0 =
    (let s = enter_protected s0;
         s' = (if list_count (sem_wait_list (sems s sem)) \<noteq> 0 then
                 (let (node, l, h) = list_pop_first (sem_wait_list (sems s sem)) (nodes s);
                      s1 = upd_sem sem (\<lambda>k. k\<lparr>sem_wait_list := l\<rparr>) (s\<lparr>nodes := h\<rparr>);
                      task = CONTAINER_OF node OFFSET_wait_node
                  in task_dispatch (task_set_ready task s1))
               else upd_sem sem (\<lambda>k. k\<lparr>sem_cnt := sem_cnt k + 1\<rparr>) s)
     in leave_protected s')"

definition sem_count :: "addr \<Rightarrow> kernel \<Rightarrow> cint \<times> kernel" where
  "sem_count sem s0 =
    (let s = enter_protected s0; cnt = sem_cnt (sems s sem) in (cnt, leave_protected s))"

section \<open>Mutexes\<close>

datatype panic_info = Panic (panic_func: string) (panic_cond: string)

definition upd_mutex :: "addr \<Rightarrow> (rein_mutex_t \<Rightarrow> rein_mutex_t) \<Rightarrow> kernel \<Rightarrow> kernel" where
  "upd_mutex p f s = s\<lparr>mutexes := (mutexes s)(p := f (mutexes s p))\<rparr>"

definition rein_mutex_init :: "addr \<Rightarrow> kernel \<Rightarrow> kernel" where
  "rein_mutex_init lock s =
    upd_mutex lock (\<lambda>k. k\<lparr>locker := 0, owner := 0, mutex_wait_list := list_init\<rparr>) s"

definition rein_mutex_lock :: "addr \<Rightarrow> kernel \<Rightarrow> kernel" where
  "rein_mutex_lock lock s0 =
    (let s = enter_protected s0;
         curr = task_current s;
         m = mutexes s lock;
         s' = (if locker m = 0 then
                 upd_mutex lock (\<lambda>k. k\<lparr>locker := locker k + 1, owner := curr\<rparr>) s
               else if owner m = curr then
                 upd_mutex lock (\<lambda>k. k\<lparr>locker := locker k + 1\<rparr>) s
               else
                 (let s1 = task_set_block curr s;
                      (l, h) = list_insert_last (mutex_wait_list (mutexes s1 lock)) (wait_node curr) (nodes s1);
                      s2 = upd_mutex lock (\<lambda>k. k\<lparr>mutex_wait_list := l\<rparr>) (s1\<lparr>nodes := h\<rparr>)
                  in task_dispatch s2))
     in leave_protected s')"

text \<open>The part of \<^verbatim>\<open>rein_mutex_unlock\<close> that runs when the last level is released.\<close>

definition mutex_handoff :: "addr \<Rightarrow> kernel \<Rightarrow> kernel" where
  "mutex_handoff lock s0 =
    (let s = upd_mutex lock (\<lambda>k. k\<lparr>owner := 0\<rparr>) s0
     in if list_count (mutex_wait_list (mutexes s lock)) \<noteq> 0 then
          (let (node, l, h) = list_pop_first (mutex_wait_list (mutexes s lock)) (nodes s);
               s1 = upd_mutex lock (\<lambda>k. k\<lparr>mutex_wait_list := l\<rparr>) (s\<lparr>nodes := h\<rparr>);
               new_owner = CONTAINER_OF node OFFSET_wait_node;
               s2 = task_set_ready new_owner s1
           in upd_mutex lock (\<lambda>k. k\<lparr>owner := new_owner, locker := locker k + 1\<rparr>) s2)
        else s)"

definition rein_mutex_unlock :: "addr \<Rightarrow> kernel \<Rightarrow> panic_info + kernel" where
  "rein_mutex_unlock lock s0 =
    (let s = enter_protected s0;
         curr = task_current s;
         m = mutexes s lock
     in if locker m = 0 then Inl (Panic ''rein_mutex_unlock'' ''lock->locker != 0'')
        else if owner m \<noteq> curr then Inl (Panic ''rein_mutex_unlock'' ''lock->owner == curr_task'')
        else
          let s' = (if owner m = curr then
                      (let s1 = upd_mutex lock (\<lambda>k. k\<lparr>locker := locker k - 1\<rparr>) s
                       in if locker (mutexes s1 lock) = 0 then mutex_handoff lock s1 else s1)
                    else s)
          in Inr (leave_protected s'))"

section \<open>Parking and waking a task, for any wait list\<close>

fun is_wait :: "lid \<Rightarrow> bool" where
  "is_wait (LSem p) = True"
| "is_wait (LMutex p) = True"
| "is_wait _ = False"

lemma is_wait_simps: "is_wait i \<Longrightarrow> i \<noteq> LReady \<and> i \<noteq> LSleep \<and> i \<noteq> LAll \<and> node_of i = wait_node"
  by (cases i) auto

lemma set_hdr_frame [simp]:
  "tasks (set_hdr i l s) = tasks s" "gdt_table (set_hdr i l s) = gdt_table s"
  "curr_task (set_hdr i l s) = curr_task s" "symaddr (set_hdr i l s) = symaddr s"
  "tr (set_hdr i l s) = tr s" "kstk (set_hdr i l s) = kstk s" "eflags (set_hdr i l s) = eflags s"
  "saved_kstk (set_hdr i l s) = saved_kstk s" "fault (set_hdr i l s) = fault s"
  by (cases i; simp)+

lemma set_hdr_idle [simp]: "idle_task (set_hdr i l s) = idle_task s"
  by (simp add: idle_task_def)

lemma idle_nodes_update [simp]: "idle_task (s\<lparr>nodes := h\<rparr>) = idle_task s"
  by (simp add: idle_task_def)

lemma set_hdr_in_region [simp]: "in_region (set_hdr i l s) = in_region s"
  by (simp add: in_region_def)

lemma in_region_nodes [simp]: "in_region (s\<lparr>nodes := h\<rparr>) = in_region s"
  by (simp add: in_region_def)

lemma kstatic_set_hdr:
  assumes "kstatic T q s" and "qrel T (q(i \<mapsto> xs)) (set_hdr i l (s\<lparr>nodes := h\<rparr>))" and "is_wait i"
  shows "kstatic T (q(i \<mapsto> xs)) (set_hdr i l (s\<lparr>nodes := h\<rparr>))"
proof -
  have "cpu_inv T (set_hdr i l (s\<lparr>nodes := h\<rparr>))"
    using kstatic_cpu [OF assms(1)] by (rule cpu_inv_cong) auto
  then show ?thesis using assms by (auto simp: kstatic_def ticks_ok_def)
qed

lemma block_on:
  assumes inv: "kinv T q s" and R: "ready q = t # R" and i: "q i = Some ws" "is_wait i"
    and s1: "s1 = task_set_block t (enter_protected s)"
    and ins: "list_insert_last (hdr i s1) (wait_node t) (nodes s1) = (l, h)"
  shows "kinv T (q_block i q) (leave_protected (task_dispatch (set_hdr i l (s1\<lparr>nodes := h\<rparr>))))"
proof -
  note iw = is_wait_simps [OF i(2)] and e = enter_kinv [OF inv]
  have loc: "located q" using inv by (simp add: kinv_def)
  have q: "q LReady = Some (t # R)" using kstatic_ready [OF e(1)] R by simp
  let ?q1 = "q(LReady \<mapsto> R)"
  note rel = kstatic_qrel [OF e(1)]
  have t: "t \<in> T" using qrel_sub [OF rel q] by simp
  have b: "kstatic T ?q1 s1" unfolding s1 by (rule set_block_kstatic [OF e(1) q])
  have "qrel T (?q1(i \<mapsto> ws @ [t])) (set_hdr i l (s1\<lparr>nodes := h\<rparr>))"
    using kstatic_qrel [OF b] i iw t block_free [OF rel q, of i] ins
    by (intro qrel_insert_last) auto
  then have "kstatic T (?q1(i \<mapsto> ws @ [t])) (set_hdr i l (s1\<lparr>nodes := h\<rparr>))"
    using kstatic_set_hdr [OF b] i(2) by simp
  then have "kstatic T (q_block i q) (set_hdr i l (s1\<lparr>nodes := h\<rparr>))"
    using i(1) R by (simp add: q_block_def)
  then show ?thesis
    using located_block [OF loc q i(1)] iw e(2) s1 by (intro dispatch_kinv) auto
qed

lemma wake_from:
  assumes k: "kstatic T q s" and loc: "located q" and i: "q i = Some (t # ws)" "is_wait i"
    and pop: "list_pop_first (hdr i s) (nodes s) = (n, l, h)"
  shows "n = wait_node t"
    and "kstatic T (q_wake i q) (task_set_ready t (set_hdr i l (s\<lparr>nodes := h\<rparr>)))"
    and "located (q_wake i q)"
proof -
  note iw = is_wait_simps [OF i(2)] and rel = kstatic_qrel [OF k]
  note p = qrel_pop_first [OF rel i(1) pop]
  then show "n = wait_node t" using iw by simp
  have t: "t \<in> T" using qrel_sub [OF rel i(1)] by simp
  let ?q1 = "q(i \<mapsto> ws)" and ?s1 = "set_hdr i l (s\<lparr>nodes := h\<rparr>)"
  have k1: "kstatic T ?q1 ?s1" using kstatic_set_hdr [OF k] p i(2) by blast
  have "ready ?q1 = ready q" using iw by (auto simp: ready_def)
  then have "kstatic T (?q1(LReady \<mapsto> ready q @ [t])) (task_set_ready t ?s1)"
    using set_ready_kstatic [OF k1 t] wake_free [OF rel i(1), of LReady] iw by simp
  then show "kstatic T (q_wake i q) (task_set_ready t ?s1)" using i(1) by (simp add: q_wake_def)
  show "located (q_wake i q)"
    using located_wake [OF loc kstatic_ready [OF k] i(1)] iw by simp
qed

section \<open>The semaphore operations on the queues\<close>

lemma hdr_upd_sem_cnt: "hdr i (upd_sem p (\<lambda>k. k\<lparr>sem_cnt := f k\<rparr>) s) = hdr i s"
  by (cases i) (auto simp: upd_sem_def)

lemma qrel_upd_sem_cnt [simp]:
  "qrel T q (upd_sem p (\<lambda>k. k\<lparr>sem_cnt := f k\<rparr>) s) \<longleftrightarrow> qrel T q s"
  by (rule qrel_cong) (simp_all add: hdr_upd_sem_cnt, simp add: upd_sem_def)

lemma upd_sem_frame [frame, simp]:
  "tasks (upd_sem p f s) = tasks s" "gdt_table (upd_sem p f s) = gdt_table s"
  "curr_task (upd_sem p f s) = curr_task s" "symaddr (upd_sem p f s) = symaddr s"
  "tr (upd_sem p f s) = tr s" "kstk (upd_sem p f s) = kstk s" "eflags (upd_sem p f s) = eflags s"
  "saved_kstk (upd_sem p f s) = saved_kstk s" "fault (upd_sem p f s) = fault s"
  "idle_task (upd_sem p f s) = idle_task s" "mutexes (upd_sem p f s) = mutexes s"
  "in_region (upd_sem p f s) = in_region s" "sems (upd_sem p f s) = (sems s)(p := f (sems s p))"
  by (simp_all add: upd_sem_def idle_task_def in_region_def)

lemma kstatic_upd_sem_cnt:
  assumes "kstatic T q s"
  shows "kstatic T q (upd_sem p (\<lambda>k. k\<lparr>sem_cnt := f k\<rparr>) s)"
proof -
  have "cpu_inv T (upd_sem p (\<lambda>k. k\<lparr>sem_cnt := f k\<rparr>) s)"
    using kstatic_cpu [OF assms] by (rule cpu_inv_cong) auto
  then show ?thesis using assms by (auto simp: kstatic_def ticks_ok_def)
qed

lemma upd_sem_set_hdr:
  "upd_sem p (\<lambda>k. k\<lparr>sem_wait_list := l\<rparr>) (s\<lparr>nodes := h\<rparr>) = set_hdr (LSem p) l (s\<lparr>nodes := h\<rparr>)"
  by (simp add: upd_sem_def)

lemma sem_wait_take:
  assumes "kinv T q s" and "0 < sint (sem_cnt (sems s p))"
  shows "kinv T q (sem_wait p s)"
    and "sems (sem_wait p s) = (sems s)(p := (sems s p)\<lparr>sem_cnt := sem_cnt (sems s p) - 1\<rparr>)"
    and "mutexes (sem_wait p s) = mutexes s"
proof -
  note e = enter_kinv [OF assms(1)]
  have "kinv T q (leave_protected (upd_sem p (\<lambda>k. k\<lparr>sem_cnt := sem_cnt k - 1\<rparr>) (enter_protected s)))"
    using kstatic_upd_sem_cnt [OF e(1)] e(2) assms(1) by (intro leave_kinv) (auto simp: kinv_def)
  then show "kinv T q (sem_wait p s)" using assms(2) by (simp add: sem_wait_def Let_def)
  show "sems (sem_wait p s) = (sems s)(p := (sems s p)\<lparr>sem_cnt := sem_cnt (sems s p) - 1\<rparr>)"
    "mutexes (sem_wait p s) = mutexes s"
    using assms(2) by (simp_all add: sem_wait_def Let_def)
qed

lemma sem_wait_block:
  assumes inv: "kinv T q s" and R: "ready q \<noteq> []" and p: "q (LSem p) = Some ws"
    and c: "\<not> 0 < sint (sem_cnt (sems s p))"
  shows "kinv T (q_block (LSem p) q) (sem_wait p s)"
    and "sem_cnt (sems (sem_wait p s) r) = sem_cnt (sems s r)"
    and "mutexes (sem_wait p s) = mutexes s"
proof -
  obtain t rs where tr: "ready q = t # rs" using R by (cases "ready q") auto
  have curr: "curr_task s = t" using inv tr by (simp add: kinv_def)
  let ?s1 = "task_set_block t (enter_protected s)"
  obtain l h where ins: "list_insert_last (hdr (LSem p) ?s1) (wait_node t) (nodes ?s1) = (l, h)"
    by (cases "list_insert_last (hdr (LSem p) ?s1) (wait_node t) (nodes ?s1)") auto
  have eq: "sem_wait p s = leave_protected (task_dispatch (set_hdr (LSem p) l (?s1\<lparr>nodes := h\<rparr>)))"
    using ins c curr by (simp add: sem_wait_def task_current_def upd_sem_set_hdr [simplified] Let_def)
  show "kinv T (q_block (LSem p) q) (sem_wait p s)"
    unfolding eq by (rule block_on [OF inv tr p _ refl ins]) simp
  show "sem_cnt (sems (sem_wait p s) r) = sem_cnt (sems s r)"
    "mutexes (sem_wait p s) = mutexes s"
    unfolding eq by simp_all
qed

lemma sem_notify_wake:
  assumes inv: "kinv T q s" and p: "q (LSem p) = Some (t # ws)"
  shows "kinv T (q_wake (LSem p) q) (sem_notify p s)"
    and "sem_cnt (sems (sem_notify p s) r) = sem_cnt (sems s r)"
    and "mutexes (sem_notify p s) = mutexes s"
proof -
  let ?s = "enter_protected s"
  note e = enter_kinv [OF inv]
  have loc: "located q" using inv by (simp add: kinv_def)
  obtain n l h where pop: "list_pop_first (hdr (LSem p) ?s) (nodes ?s) = (n, l, h)"
    by (cases "list_pop_first (hdr (LSem p) ?s) (nodes ?s)") auto
  note w = wake_from [OF e(1) loc p _ pop]
  have c: "list_count (sem_wait_list (sems s p)) \<noteq> 0"
    using dll_count_zero [OF qrel_dll [OF kstatic_qrel [OF e(1)] p]] by (simp add: list_count_def)
  have eq: "sem_notify p s =
      leave_protected (task_dispatch (task_set_ready t (set_hdr (LSem p) l (?s\<lparr>nodes := h\<rparr>))))"
    using pop c w(1) by (simp add: sem_notify_def upd_sem_set_hdr [simplified] Let_def)
  show "kinv T (q_wake (LSem p) q) (sem_notify p s)"
    unfolding eq using w e(2) by (intro dispatch_kinv) (auto simp del: set_hdr.simps)
  show "sem_cnt (sems (sem_notify p s) r) = sem_cnt (sems s r)"
    "mutexes (sem_notify p s) = mutexes s"
    unfolding eq by simp_all
qed

lemma sem_notify_count:
  assumes inv: "kinv T q s" and p: "q (LSem p) = Some []"
  shows "kinv T q (sem_notify p s)"
    and "sems (sem_notify p s) = (sems s)(p := (sems s p)\<lparr>sem_cnt := sem_cnt (sems s p) + 1\<rparr>)"
    and "mutexes (sem_notify p s) = mutexes s"
proof -
  note e = enter_kinv [OF inv]
  have c: "list_count (sem_wait_list (sems s p)) = 0"
    using dll_count_zero [OF qrel_dll [OF kstatic_qrel [OF e(1)] p]] by (simp add: list_count_def)
  have "kinv T q (leave_protected (upd_sem p (\<lambda>k. k\<lparr>sem_cnt := sem_cnt k + 1\<rparr>) (enter_protected s)))"
    using kstatic_upd_sem_cnt [OF e(1)] e(2) inv by (intro leave_kinv) (auto simp: kinv_def)
  then show "kinv T q (sem_notify p s)" using c by (simp add: sem_notify_def Let_def)
  show "sems (sem_notify p s) = (sems s)(p := (sems s p)\<lparr>sem_cnt := sem_cnt (sems s p) + 1\<rparr>)"
    "mutexes (sem_notify p s) = mutexes s"
    using c by (simp_all add: sem_notify_def Let_def)
qed

section \<open>The mutex operations on the queues\<close>

lemma upd_mutex_frame [frame, simp]:
  "tasks (upd_mutex p f s) = tasks s" "gdt_table (upd_mutex p f s) = gdt_table s"
  "curr_task (upd_mutex p f s) = curr_task s" "symaddr (upd_mutex p f s) = symaddr s"
  "tr (upd_mutex p f s) = tr s" "kstk (upd_mutex p f s) = kstk s" "eflags (upd_mutex p f s) = eflags s"
  "saved_kstk (upd_mutex p f s) = saved_kstk s" "fault (upd_mutex p f s) = fault s"
  "idle_task (upd_mutex p f s) = idle_task s" "sems (upd_mutex p f s) = sems s"
  "in_region (upd_mutex p f s) = in_region s" "nodes (upd_mutex p f s) = nodes s"
  "mutexes (upd_mutex p f s) = (mutexes s)(p := f (mutexes s p))"
  by (simp_all add: upd_mutex_def idle_task_def in_region_def)

lemma kstatic_upd_mutex:
  assumes "kstatic T q s" and "\<And>k. mutex_wait_list (f k) = mutex_wait_list k"
  shows "kstatic T q (upd_mutex p f s)"
proof -
  have "hdr i (upd_mutex p f s) = hdr i s" for i
    using assms(2) by (cases i) (auto simp: upd_mutex_def)
  then have "qrel T q (upd_mutex p f s)"
    using kstatic_qrel [OF assms(1)] qrel_cong [of "upd_mutex p f s" s] by simp
  moreover have "cpu_inv T (upd_mutex p f s)"
    using kstatic_cpu [OF assms(1)] by (rule cpu_inv_cong) auto
  ultimately show ?thesis using assms(1) by (auto simp: kstatic_def ticks_ok_def)
qed

lemma upd_mutex_set_hdr:
  "upd_mutex p (\<lambda>k. k\<lparr>mutex_wait_list := l\<rparr>) (s\<lparr>nodes := h\<rparr>) = set_hdr (LMutex p) l (s\<lparr>nodes := h\<rparr>)"
  by (simp add: upd_mutex_def)

lemma mutex_lock_take:
  assumes inv: "kinv T q s" and m: "locker (mutexes s p) = 0 \<or> owner (mutexes s p) = curr_task s"
  shows "kinv T q (rein_mutex_lock p s)"
    and "mutexes (rein_mutex_lock p s) = (mutexes s)(p := (mutexes s p)
          \<lparr>locker := locker (mutexes s p) + 1, owner := curr_task s\<rparr>)"
    and "sems (rein_mutex_lock p s) = sems s"
proof -
  let ?f = "\<lambda>k. k\<lparr>locker := locker k + 1, owner := curr_task s\<rparr>" and ?s = "enter_protected s"
  note e = enter_kinv [OF inv]
  have "upd_mutex p (\<lambda>k. k\<lparr>locker := locker k + 1\<rparr>) ?s = upd_mutex p ?f ?s"
    if "owner (mutexes s p) = curr_task s"
    using that by (cases "mutexes s p") (simp add: upd_mutex_def)
  then have eq: "rein_mutex_lock p s = leave_protected (upd_mutex p ?f ?s)"
    using m by (auto simp: rein_mutex_lock_def task_current_def Let_def)
  show "kinv T q (rein_mutex_lock p s)"
    unfolding eq using kstatic_upd_mutex [OF e(1)] e(2) inv by (intro leave_kinv) (auto simp: kinv_def)
  show "mutexes (rein_mutex_lock p s) = (mutexes s)(p := (mutexes s p)
          \<lparr>locker := locker (mutexes s p) + 1, owner := curr_task s\<rparr>)"
    "sems (rein_mutex_lock p s) = sems s"
    unfolding eq by simp_all
qed

lemma mutex_lock_block:
  assumes inv: "kinv T q s" and R: "ready q \<noteq> []" and p: "q (LMutex p) = Some ws"
    and m: "locker (mutexes s p) \<noteq> 0" "owner (mutexes s p) \<noteq> curr_task s"
  shows "kinv T (q_block (LMutex p) q) (rein_mutex_lock p s)"
    and "locker (mutexes (rein_mutex_lock p s) r) = locker (mutexes s r)"
    and "owner (mutexes (rein_mutex_lock p s) r) = owner (mutexes s r)"
    and "sems (rein_mutex_lock p s) = sems s"
proof -
  obtain t rs where tr: "ready q = t # rs" using R by (cases "ready q") auto
  have curr: "curr_task s = t" using inv tr by (simp add: kinv_def)
  let ?s1 = "task_set_block t (enter_protected s)"
  obtain l h where ins: "list_insert_last (hdr (LMutex p) ?s1) (wait_node t) (nodes ?s1) = (l, h)"
    by (cases "list_insert_last (hdr (LMutex p) ?s1) (wait_node t) (nodes ?s1)") auto
  have eq: "rein_mutex_lock p s =
      leave_protected (task_dispatch (set_hdr (LMutex p) l (?s1\<lparr>nodes := h\<rparr>)))"
    using ins m curr
    by (simp add: rein_mutex_lock_def task_current_def upd_mutex_set_hdr [simplified] Let_def)
  show "kinv T (q_block (LMutex p) q) (rein_mutex_lock p s)"
    unfolding eq by (rule block_on [OF inv tr p _ refl ins]) simp
  show "locker (mutexes (rein_mutex_lock p s) r) = locker (mutexes s r)"
    "owner (mutexes (rein_mutex_lock p s) r) = owner (mutexes s r)"
    "sems (rein_mutex_lock p s) = sems s"
    unfolding eq by simp_all
qed

lemma mutex_unlock_panic:
  "locker (mutexes s p) = 0 \<Longrightarrow>
     rein_mutex_unlock p s = Inl (Panic ''rein_mutex_unlock'' ''lock->locker != 0'')"
  "locker (mutexes s p) \<noteq> 0 \<Longrightarrow> owner (mutexes s p) \<noteq> curr_task s \<Longrightarrow>
     rein_mutex_unlock p s = Inl (Panic ''rein_mutex_unlock'' ''lock->owner == curr_task'')"
  by (simp_all add: rein_mutex_unlock_def task_current_def Let_def)

lemma mutex_unlock_nested:
  assumes inv: "kinv T q s" and m: "owner (mutexes s p) = curr_task s" "locker (mutexes s p) \<noteq> 0"
    "locker (mutexes s p) \<noteq> 1"
  shows "\<exists>s'. rein_mutex_unlock p s = Inr s' \<and> kinv T q s' \<and>
    mutexes s' = (mutexes s)(p := (mutexes s p)\<lparr>locker := locker (mutexes s p) - 1\<rparr>) \<and> sems s' = sems s"
proof -
  let ?s1 = "upd_mutex p (\<lambda>k. k\<lparr>locker := locker k - 1\<rparr>) (enter_protected s)"
  note e = enter_kinv [OF inv]
  have "rein_mutex_unlock p s = Inr (leave_protected ?s1)"
    using m by (simp add: rein_mutex_unlock_def task_current_def Let_def)
  moreover have "kinv T q (leave_protected ?s1)"
    using kstatic_upd_mutex [OF e(1)] e(2) inv by (intro leave_kinv) (auto simp: kinv_def)
  ultimately show ?thesis by simp
qed

lemma mutex_unlock_free:
  assumes inv: "kinv T q s" and p: "q (LMutex p) = Some []"
    and m: "owner (mutexes s p) = curr_task s" "locker (mutexes s p) = 1"
  shows "\<exists>s'. rein_mutex_unlock p s = Inr s' \<and> kinv T q s' \<and>
    mutexes s' = (mutexes s)(p := (mutexes s p)\<lparr>locker := 0, owner := 0\<rparr>) \<and> sems s' = sems s"
proof -
  let ?s1 = "upd_mutex p (\<lambda>k. k\<lparr>owner := 0\<rparr>)
    (upd_mutex p (\<lambda>k. k\<lparr>locker := locker k - 1\<rparr>) (enter_protected s))"
  note e = enter_kinv [OF inv]
  have c: "list_count (mutex_wait_list (mutexes s p)) = 0"
    using dll_count_zero [OF qrel_dll [OF kstatic_qrel [OF e(1)] p]] by (simp add: list_count_def)
  have "rein_mutex_unlock p s = Inr (leave_protected ?s1)"
    using m c by (simp add: rein_mutex_unlock_def mutex_handoff_def task_current_def Let_def)
  moreover have "kstatic T q ?s1"
    by (rule kstatic_upd_mutex [OF kstatic_upd_mutex [OF e(1)]]) simp_all
  then have "kinv T q (leave_protected ?s1)"
    using e(2) inv by (intro leave_kinv) (auto simp: kinv_def)
  ultimately show ?thesis using m by simp
qed

lemma mutex_unlock_handoff:
  assumes inv: "kinv T q s" and p: "q (LMutex p) = Some (t # ws)" and R: "ready q \<noteq> []"
    and m: "owner (mutexes s p) = curr_task s" "locker (mutexes s p) = 1"
  shows "\<exists>s'. rein_mutex_unlock p s = Inr s' \<and> kinv T (q_wake (LMutex p) q) s' \<and>
    owner (mutexes s' p) = t \<and> locker (mutexes s' p) = 1 \<and>
    (\<forall>r. r \<noteq> p \<longrightarrow> mutexes s' r = mutexes s r) \<and> sems s' = sems s"
proof -
  let ?s1 = "upd_mutex p (\<lambda>k. k\<lparr>owner := 0\<rparr>)
    (upd_mutex p (\<lambda>k. k\<lparr>locker := locker k - 1\<rparr>) (enter_protected s))"
  note e = enter_kinv [OF inv]
  have loc: "located q" using inv by (simp add: kinv_def)
  have k: "kstatic T q ?s1"
    by (rule kstatic_upd_mutex [OF kstatic_upd_mutex [OF e(1)]]) simp_all
  have c: "list_count (mutex_wait_list (mutexes s p)) \<noteq> 0"
    using dll_count_zero [OF qrel_dll [OF kstatic_qrel [OF e(1)] p]] by (simp add: list_count_def)
  obtain n l h where pop: "list_pop_first (hdr (LMutex p) ?s1) (nodes ?s1) = (n, l, h)"
    by (cases "list_pop_first (hdr (LMutex p) ?s1) (nodes ?s1)") auto
  note w = wake_from [OF k loc p _ pop]
  let ?s2 = "task_set_ready t (set_hdr (LMutex p) l (?s1\<lparr>nodes := h\<rparr>))"
  let ?s3 = "upd_mutex p (\<lambda>k. k\<lparr>owner := t, locker := locker k + 1\<rparr>) ?s2"
  have eq: "rein_mutex_unlock p s = Inr (leave_protected ?s3)"
    using m c pop w(1) unfolding rein_mutex_unlock_def mutex_handoff_def task_current_def Let_def
    by (simp add: upd_mutex_set_hdr del: set_hdr.simps)
  have "ready (q_wake (LMutex p) q) = ready q @ [t]" using p by (simp add: q_wake_def ready_def)
  then have "kinv T (q_wake (LMutex p) q) (leave_protected ?s3)"
    using kstatic_upd_mutex [OF w(2)] w(3) e(2) inv R
    by (intro leave_kinv) (auto simp: kinv_def hd_or_hd simp del: set_hdr.simps)
  then show ?thesis using eq m by simp
qed

end
