(* ===== verification/Irq.thy ===== *)
theory Irq
  imports Machine
begin

text \<open>
  Interrupt set-up: the interrupt descriptor table and the two 8259 controllers of
  \<^verbatim>\<open>src/source/kernel/cpu/irq.c\<close>. A gate is a record of its four fields; the table is a list,
  and a write outside it is recorded as a fault, since it would corrupt other kernel data. Port
  writes are appended to the history \<open>io\<close>; \<open>imr\<close> reads back from that history what was last
  written to the mask register of a controller.
\<close>

section \<open>Gates\<close>

definition KERNEL_SELECTOR_CODE :: uint16_t where "KERNEL_SELECTOR_CODE = 1 * 8"
definition KERNEL_SELECTOR_DATA :: uint16_t where "KERNEL_SELECTOR_DATA = 2 * 8"
definition GATE_TYPE_INT :: uint16_t where "GATE_TYPE_INT = push_bit 8 0xE"
definition GATE_P_PRESENT :: uint16_t where "GATE_P_PRESENT = push_bit 15 1"
definition GATE_DPL0 :: uint16_t where "GATE_DPL0 = push_bit 13 0"
definition IDT_TABLE_NR :: nat where "IDT_TABLE_NR = 128"

definition gate_desc_set :: "uint16_t \<Rightarrow> uint32_t \<Rightarrow> uint16_t \<Rightarrow> gate_desc_t" where
  "gate_desc_set sel offset at =
    \<lparr>offset15_0 = ucast (offset AND 0xFFFF), selector = sel, gattr = at,
     offset31_16 = ucast (drop_bit 16 offset AND 0xFFFF)\<rparr>"

definition idt_write :: "cint \<Rightarrow> gate_desc_t \<Rightarrow> kernel \<Rightarrow> kernel" where
  "idt_write i g s =
    (if 0 \<le> sint i \<and> nat (sint i) < length (idt_table s)
     then s\<lparr>idt_table := (idt_table s)[nat (sint i) := g]\<rparr>
     else s\<lparr>fault := True\<rparr>)"

definition irq_install :: "cint \<Rightarrow> uint32_t \<Rightarrow> kernel \<Rightarrow> kernel" where
  "irq_install irq_num pointer_as_handler s =
    idt_write irq_num (gate_desc_set KERNEL_SELECTOR_CODE pointer_as_handler
      (GATE_P_PRESENT OR GATE_DPL0 OR GATE_TYPE_INT)) s"

section \<open>The 8259 controllers\<close>

definition PIC0_ICW1 :: uint16_t where "PIC0_ICW1 = 0x20"
definition PIC0_ICW2 :: uint16_t where "PIC0_ICW2 = 0x21"
definition PIC0_ICW3 :: uint16_t where "PIC0_ICW3 = 0x21"
definition PIC0_ICW4 :: uint16_t where "PIC0_ICW4 = 0x21"
definition PIC0_OCW2 :: uint16_t where "PIC0_OCW2 = 0x20"
definition PIC0_IMR :: uint16_t where "PIC0_IMR = 0x21"
definition PIC1_ICW1 :: uint16_t where "PIC1_ICW1 = 0xa0"
definition PIC1_ICW2 :: uint16_t where "PIC1_ICW2 = 0xa1"
definition PIC1_ICW3 :: uint16_t where "PIC1_ICW3 = 0xa1"
definition PIC1_ICW4 :: uint16_t where "PIC1_ICW4 = 0xa1"
definition PIC1_OCW2 :: uint16_t where "PIC1_OCW2 = 0xa0"
definition PIC1_IMR :: uint16_t where "PIC1_IMR = 0xa1"
definition PIC_OCW2_EOI :: uint8_t where "PIC_OCW2_EOI = push_bit 5 1"
definition IRQ_PIC_START :: cint where "IRQ_PIC_START = 0x20"
definition IRQ0_TIMER :: cint where "IRQ0_TIMER = 0x20"

lemmas pic_ports = PIC0_ICW1_def PIC0_ICW2_def PIC0_ICW3_def PIC0_ICW4_def PIC0_OCW2_def
  PIC0_IMR_def PIC1_ICW1_def PIC1_ICW2_def PIC1_ICW3_def PIC1_ICW4_def PIC1_OCW2_def PIC1_IMR_def

definition pic_send_eoi :: "cint \<Rightarrow> kernel \<Rightarrow> kernel" where
  "pic_send_eoi irq_num s =
    (let n = irq_num - IRQ_PIC_START;
         s1 = (if 8 \<le> sint n then outb PIC1_OCW2 PIC_OCW2_EOI s else s)
     in outb PIC0_OCW2 PIC_OCW2_EOI s1)"

definition irq_enable :: "cint \<Rightarrow> kernel \<Rightarrow> kernel" where
  "irq_enable irq_num s =
    (if sint irq_num < sint IRQ_PIC_START \<or> sint irq_num > sint (IRQ_PIC_START + 15) then s
     else
       let n = irq_num - IRQ_PIC_START
       in if sint n < 8 then
            (let (v, s1) = inb PIC0_IMR s;
                 mask = v AND ucast (NOT (push_bit (nat (sint n)) (1 :: cint)))
             in outb PIC0_IMR mask s1)
          else
            (let n' = n - 8;
                 (v, s1) = inb PIC1_IMR s;
                 mask = v AND ucast (NOT (push_bit (nat (sint n')) (1 :: cint)))
             in outb PIC1_IMR mask s1))"

definition irq_disable :: "cint \<Rightarrow> kernel \<Rightarrow> kernel" where
  "irq_disable irq_num s =
    (if sint irq_num < sint IRQ_PIC_START \<or> sint irq_num > sint (IRQ_PIC_START + 15) then s
     else
       let n = irq_num - IRQ_PIC_START
       in if sint n < 8 then
            (let (v, s1) = inb PIC0_IMR s;
                 mask = v OR ucast (push_bit (nat (sint n)) (1 :: cint))
             in outb PIC0_IMR mask s1)
          else
            (let n' = n - 8;
                 (v, s1) = inb PIC1_IMR s;
                 mask = v OR ucast (push_bit (nat (sint n')) (1 :: cint))
             in outb PIC1_IMR mask s1))"

definition pic_init :: "kernel \<Rightarrow> kernel" where
  "pic_init s0 =
    (let s1 = outb PIC0_ICW1 0x11 s0;
         s2 = outb PIC1_ICW1 0x11 s1;
         s3 = outb PIC0_ICW2 (ucast IRQ_PIC_START) s2;
         s4 = outb PIC1_ICW2 (ucast (IRQ_PIC_START + 8)) s3;
         s5 = outb PIC0_ICW3 (push_bit 2 1) s4;
         s6 = outb PIC1_ICW3 2 s5;
         s7 = outb PIC0_ICW4 0x01 s6;
         s8 = outb PIC1_ICW4 0x01 s7;
         s9 = outb PIC0_IMR (0xFF AND NOT (push_bit 2 1)) s8
     in outb PIC1_IMR 0xFF s9)"

section \<open>The interrupt table\<close>

text \<open>The loop that points every gate at the default handler, and the handlers installed over it,
  in the order of the code.\<close>

fun idt_fill :: "nat \<Rightarrow> gate_desc_t \<Rightarrow> kernel \<Rightarrow> kernel" where
  "idt_fill 0 g s = s"
| "idt_fill (Suc k) g s = idt_fill k g (idt_write (of_nat (IDT_TABLE_NR - Suc k)) g s)"

text \<open>The numbers of the exception vectors.\<close>

definition IRQ0_DE :: cint where "IRQ0_DE = 0"
definition IRQ1_DB :: cint where "IRQ1_DB = 1"
definition IRQ2_NMI :: cint where "IRQ2_NMI = 2"
definition IRQ3_BP :: cint where "IRQ3_BP = 3"
definition IRQ4_OF :: cint where "IRQ4_OF = 4"
definition IRQ5_BR :: cint where "IRQ5_BR = 5"
definition IRQ6_UD :: cint where "IRQ6_UD = 6"
definition IRQ7_NM :: cint where "IRQ7_NM = 7"
definition IRQ8_DF :: cint where "IRQ8_DF = 8"
definition IRQ9_CSO :: cint where "IRQ9_CSO = 9"
definition IRQ10_TS :: cint where "IRQ10_TS = 10"
definition IRQ11_NP :: cint where "IRQ11_NP = 11"
definition IRQ12_SS :: cint where "IRQ12_SS = 12"
definition IRQ13_GP :: cint where "IRQ13_GP = 13"
definition IRQ14_PF :: cint where "IRQ14_PF = 14"
definition IRQ16_MF :: cint where "IRQ16_MF = 16"
definition IRQ17_AC :: cint where "IRQ17_AC = 17"
definition IRQ18_MC :: cint where "IRQ18_MC = 18"
definition IRQ19_XM :: cint where "IRQ19_XM = 19"
definition IRQ20_VE :: cint where "IRQ20_VE = 20"
definition IRQ21_CPE :: cint where "IRQ21_CPE = 21"

lemmas exception_numbers = IRQ0_DE_def IRQ1_DB_def IRQ2_NMI_def IRQ3_BP_def IRQ4_OF_def IRQ5_BR_def
  IRQ6_UD_def IRQ7_NM_def IRQ8_DF_def IRQ9_CSO_def IRQ10_TS_def IRQ11_NP_def IRQ12_SS_def IRQ13_GP_def
  IRQ14_PF_def IRQ16_MF_def IRQ17_AC_def IRQ18_MC_def IRQ19_XM_def IRQ20_VE_def IRQ21_CPE_def

definition exception_handlers :: "(cint \<times> string) list" where
  "exception_handlers =
    [(IRQ0_DE, ''exception_handler_divider''), (IRQ1_DB, ''exception_handler_Debug''),
     (IRQ2_NMI, ''exception_handler_NMI''), (IRQ3_BP, ''exception_handler_breakpoint''),
     (IRQ4_OF, ''exception_handler_overflow''), (IRQ5_BR, ''exception_handler_bound_range''),
     (IRQ6_UD, ''exception_handler_invalid_opcode''), (IRQ7_NM, ''exception_handler_device_unavailable''),
     (IRQ8_DF, ''exception_handler_double_fault''),
     (IRQ9_CSO, ''exception_handler_coprocessor_segment_overrun''),
     (IRQ10_TS, ''exception_handler_invalid_tss''), (IRQ11_NP, ''exception_handler_segment_not_present''),
     (IRQ12_SS, ''exception_handler_stack_segment_fault''),
     (IRQ13_GP, ''exception_handler_general_protection''), (IRQ14_PF, ''exception_handler_page_fault''),
     (IRQ16_MF, ''exception_handler_fpu_error''), (IRQ17_AC, ''exception_handler_alignment_check''),
     (IRQ18_MC, ''exception_handler_machine_check''), (IRQ19_XM, ''exception_handler_smd_exception''),
     (IRQ20_VE, ''exception_handler_virtual_exception''),
     (IRQ21_CPE, ''exception_handler_control_protection_exception'')]"

lemma exception_handlers_eq:
  "exception_handlers =
    [(0, ''exception_handler_divider''), (1, ''exception_handler_Debug''),
     (2, ''exception_handler_NMI''), (3, ''exception_handler_breakpoint''),
     (4, ''exception_handler_overflow''), (5, ''exception_handler_bound_range''),
     (6, ''exception_handler_invalid_opcode''), (7, ''exception_handler_device_unavailable''),
     (8, ''exception_handler_double_fault''),
     (9, ''exception_handler_coprocessor_segment_overrun''),
     (10, ''exception_handler_invalid_tss''), (11, ''exception_handler_segment_not_present''),
     (12, ''exception_handler_stack_segment_fault''),
     (13, ''exception_handler_general_protection''), (14, ''exception_handler_page_fault''),
     (16, ''exception_handler_fpu_error''), (17, ''exception_handler_alignment_check''),
     (18, ''exception_handler_machine_check''), (19, ''exception_handler_smd_exception''),
     (20, ''exception_handler_virtual_exception''),
     (21, ''exception_handler_control_protection_exception'')]"
  by (simp add: exception_handlers_def exception_numbers)

fun install_all :: "(cint \<times> string) list \<Rightarrow> kernel \<Rightarrow> kernel" where
  "install_all [] s = s"
| "install_all ((n, h) # hs) s = install_all hs (irq_install n (symaddr s h) s)"

definition SIZEOF_gate_desc_t :: uint32_t where "SIZEOF_gate_desc_t = 8"

definition irq_init :: "kernel \<Rightarrow> kernel" where
  "irq_init s0 =
    (let dflt = gate_desc_set KERNEL_SELECTOR_CODE (symaddr s0 ''exception_handler_unknown'')
                  (GATE_P_PRESENT OR GATE_DPL0 OR GATE_TYPE_INT);
         s1 = idt_fill IDT_TABLE_NR dflt s0;
         s2 = install_all exception_handlers s1;
         s3 = lidt (symaddr s2 ''idt_table'') (of_nat IDT_TABLE_NR * SIZEOF_gate_desc_t) s2
     in pic_init s3)"


section \<open>Facts on gates and the table\<close>

definition gate_offset :: "gate_desc_t \<Rightarrow> uint32_t" where
  "gate_offset g = ucast (offset15_0 g) OR push_bit 16 (ucast (offset31_16 g))"

lemma gate_offset_set [simp]: "gate_offset (gate_desc_set sel off at) = off"
  by (rule bit_word_eqI) (auto simp: gate_offset_def gate_desc_set_def bit_simps)

lemma gate_fields [simp]:
  "selector (gate_desc_set sel off at) = sel" "gattr (gate_desc_set sel off at) = at"
  by (simp_all add: gate_desc_set_def)

lemma idt_write_in:
  "i < length (idt_table s) \<Longrightarrow> i < 2 ^ 31 \<Longrightarrow>
     idt_write (of_nat i) g s = s\<lparr>idt_table := (idt_table s)[i := g]\<rparr>"
  by (simp add: idt_write_def signed_of_nat signed_take_bit_int_eq_self)

lemma idt_fill_table:
  assumes "length (idt_table s) = 128" and "k \<le> 128"
  shows "idt_fill k g s = s\<lparr>idt_table := take (128 - k) (idt_table s) @ replicate k g\<rparr>"
  using assms
proof (induction k arbitrary: s)
  case (Suc k)
  let ?i = "128 - Suc k"
  have "idt_write (of_nat ?i) g s = s\<lparr>idt_table := (idt_table s)[?i := g]\<rparr>"
    using Suc.prems by (intro idt_write_in) simp_all
  moreover have "take (128 - k) ((idt_table s)[?i := g]) = take ?i (idt_table s) @ [g]"
  proof -
    have "128 - k = Suc ?i" using Suc.prems by simp
    then show ?thesis using Suc.prems by (simp add: take_Suc_conv_app_nth del: Suc_diff_le)
  qed
  ultimately show ?case
    using Suc by (simp add: IDT_TABLE_NR_def replicate_append_same)
qed simp

definition int_gate :: "uint32_t \<Rightarrow> gate_desc_t" where
  "int_gate h = gate_desc_set KERNEL_SELECTOR_CODE h (GATE_P_PRESENT OR GATE_DPL0 OR GATE_TYPE_INT)"

definition vector_map :: "(cint \<times> string) list \<Rightarrow> nat \<Rightarrow> string option" where
  "vector_map hs = map_of (map (\<lambda>(n, h). (unat n, h)) (rev hs))"

lemma vector_map_Cons:
  "vector_map ((n, h) # hs) i = (case vector_map hs i of None \<Rightarrow> if i = unat n then Some h else None
     | Some k \<Rightarrow> Some k)"
  by (simp add: vector_map_def map_add_def split: option.split)

lemma install_all_table:
  assumes "\<forall>(n, h)\<in>set hs. unat n < length (idt_table s)" and "length (idt_table s) < 2 ^ 31"
  shows "\<exists>tb. install_all hs s = s\<lparr>idt_table := tb\<rparr> \<and> length tb = length (idt_table s) \<and>
    (\<forall>i<length tb. tb ! i = (case vector_map hs i of None \<Rightarrow> idt_table s ! i
       | Some h \<Rightarrow> int_gate (symaddr s h)))"
  using assms
proof (induction hs s rule: install_all.induct)
  case (1 s)
  then show ?case by (intro exI [of _ "idt_table s"]) (simp add: vector_map_def)
next
  case (2 n h hs s)
  let ?s = "irq_install n (symaddr s h) s"
  have s: "?s = s\<lparr>idt_table := (idt_table s)[unat n := int_gate (symaddr s h)]\<rparr>"
    using idt_write_in [of "unat n" s "int_gate (symaddr s h)"] 2(2,3)
    by (simp add: irq_install_def int_gate_def)
  have len: "length (idt_table ?s) = length (idt_table s)" "symaddr ?s = symaddr s" by (simp_all add: s)
  have "\<exists>tb. install_all hs ?s = ?s\<lparr>idt_table := tb\<rparr> \<and> length tb = length (idt_table ?s) \<and>
    (\<forall>i<length tb. tb ! i = (case vector_map hs i of None \<Rightarrow> idt_table ?s ! i
       | Some h \<Rightarrow> int_gate (symaddr ?s h)))"
    by (rule 2(1)) (use 2(2,3) len in auto)
  then obtain tb where "install_all hs ?s = ?s\<lparr>idt_table := tb\<rparr>" "length tb = length (idt_table s)"
    "\<forall>i<length tb. tb ! i = (case vector_map hs i of None \<Rightarrow> idt_table ?s ! i
       | Some h \<Rightarrow> int_gate (symaddr s h))"
    unfolding len by blast
  then show ?case
    by (intro exI [of _ tb]) (auto simp: s vector_map_Cons split: option.split)
qed

section \<open>The mask registers\<close>

text \<open>\<open>last_out\<close> is the byte last written to a port; a controller returns it when its mask
  register is read.\<close>

lemma last_out_snoc [simp]:
  "last_out p (es @ [Out q v]) = (if q = p then v else last_out p es)"
  "last_out p (es @ [In q]) = last_out p es"
  by (simp_all add: last_out_def)

lemma last_out_in_out: "last_out p (es @ [In q, Out q v]) = (if q = p then v else last_out p es)"
  by (simp add: last_out_def)

definition imr_device :: "kernel \<Rightarrow> bool" where
  "imr_device s \<longleftrightarrow> (\<forall>es. dev s es 0x21 = last_out 0x21 es \<and> dev s es 0xa1 = last_out 0xa1 es)"

definition masked :: "nat \<Rightarrow> kernel \<Rightarrow> bool" where
  "masked k s \<longleftrightarrow> (if k < 8 then bit (last_out 0x21 (io s)) k else bit (last_out 0xa1 (io s)) (k - 8))"

lemma sint_irq: "k < 2 ^ 30 \<Longrightarrow> sint (of_nat k :: cint) = int k"
  by (simp add: signed_of_nat signed_take_bit_int_eq_self)

lemma of_nat_irq:
  assumes "k < 16"
  shows "sint (of_nat (32 + k) :: cint) = int (32 + k)"
    and "(of_nat (32 + k) :: cint) - IRQ_PIC_START = of_nat k"
  using assms sint_irq [of "32 + k"] by (simp_all add: IRQ_PIC_START_def)

lemma pic_range: "sint IRQ_PIC_START = 32" "sint (IRQ_PIC_START + 15) = 47"
  by (simp_all add: IRQ_PIC_START_def)

definition rewrite_port :: "uint16_t \<Rightarrow> (uint8_t \<Rightarrow> uint8_t) \<Rightarrow> kernel \<Rightarrow> kernel" where
  "rewrite_port p f s = (let (v, s1) = inb p s in outb p (f v) s1)"

definition pic_port :: "nat \<Rightarrow> uint16_t" where
  "pic_port k = (if k < 8 then 0x21 else 0xa1)"

lemma slave_line: "8 \<le> k \<Longrightarrow> (of_nat k :: cint) - 8 = of_nat (k - 8)"
  by (simp add: of_nat_diff)

lemma line_mod: "k < 8 \<Longrightarrow> k mod 8 = k" "8 \<le> k \<Longrightarrow> k < 16 \<Longrightarrow> k mod 8 = k - (8 :: nat)"
  by (simp_all add: le_mod_geq)

definition clear_line :: "nat \<Rightarrow> uint8_t \<Rightarrow> uint8_t" where
  "clear_line k v = v AND ucast (NOT (push_bit k (1 :: cint)))"

definition set_line :: "nat \<Rightarrow> uint8_t \<Rightarrow> uint8_t" where
  "set_line k v = v OR ucast (push_bit k (1 :: cint))"

lemma irq_enable_alt:
  assumes "k < 16"
  shows "irq_enable (of_nat (32 + k)) s = rewrite_port (pic_port k) (clear_line (k mod 8)) s"
proof (cases "k < 8")
  case True
  then show ?thesis unfolding irq_enable_def of_nat_irq [OF assms] pic_range clear_line_def [symmetric]
    by (simp add: sint_irq line_mod rewrite_port_def pic_port_def pic_ports Let_def)
next
  case False
  then show ?thesis
    using assms unfolding irq_enable_def of_nat_irq [OF assms] pic_range clear_line_def [symmetric]
    by (simp add: sint_irq line_mod slave_line rewrite_port_def pic_port_def pic_ports Let_def
        del: of_nat_diff)
qed

lemma irq_disable_alt:
  assumes "k < 16"
  shows "irq_disable (of_nat (32 + k)) s = rewrite_port (pic_port k) (set_line (k mod 8)) s"
proof (cases "k < 8")
  case True
  then show ?thesis unfolding irq_disable_def of_nat_irq [OF assms] pic_range set_line_def [symmetric]
    by (simp add: sint_irq line_mod rewrite_port_def pic_port_def pic_ports Let_def)
next
  case False
  then show ?thesis
    using assms unfolding irq_disable_def of_nat_irq [OF assms] pic_range set_line_def [symmetric]
    by (simp add: sint_irq line_mod slave_line rewrite_port_def pic_port_def pic_ports Let_def
        del: of_nat_diff)
qed

lemma bit_line:
  assumes "n < 8"
  shows "bit (clear_line k v) n \<longleftrightarrow> bit v n \<and> n \<noteq> k" "bit (set_line k v) n \<longleftrightarrow> bit v n \<or> n = k"
  using assms by (auto simp: clear_line_def set_line_def bit_simps)

lemma masked_alt: "k < 16 \<Longrightarrow> masked k s \<longleftrightarrow> bit (last_out (pic_port k) (io s)) (k mod 8)"
  by (simp add: masked_def pic_port_def line_mod)

lemma last_out_rewrite:
  "imr_device s \<Longrightarrow> p = 0x21 \<or> p = 0xa1 \<Longrightarrow>
     last_out r (io (rewrite_port p f s)) = (if r = p then f (last_out p (io s)) else last_out r (io s))"
  by (auto simp: rewrite_port_def inb_def outb_def imr_device_def last_out_in_out)

lemma pic_port_line:
  "k < 16 \<Longrightarrow> n < 16 \<Longrightarrow> pic_port n = pic_port k \<and> n mod 8 = k mod 8 \<longleftrightarrow> n = k"
  by (cases "k < 8"; cases "n < 8") (auto simp: pic_port_def line_mod)

lemma masked_enable:
  assumes "imr_device s" and "k < 16" and "n < 16"
  shows "masked n (irq_enable (of_nat (32 + k)) s) \<longleftrightarrow> masked n s \<and> n \<noteq> k"
  unfolding irq_enable_alt [OF assms(2)] masked_alt [OF assms(3)]
  using assms pic_port_line [OF assms(2,3)]
  by (auto simp: last_out_rewrite bit_line pic_port_def)

lemma masked_disable:
  assumes "imr_device s" and "k < 16" and "n < 16"
  shows "masked n (irq_disable (of_nat (32 + k)) s) \<longleftrightarrow> masked n s \<or> n = k"
  unfolding irq_disable_alt [OF assms(2)] masked_alt [OF assms(3)]
  using assms pic_port_line [OF assms(2,3)]
  by (auto simp: last_out_rewrite bit_line pic_port_def)

lemma pic_init_simp: "pic_init s = s\<lparr>io := io (pic_init s)\<rparr>"
  by (simp add: pic_init_def outb_def Let_def)

lemma irq_init_state:
  assumes "length (idt_table s) = 128"
  shows "\<exists>tb es. irq_init s = s\<lparr>idt_table := tb, idtr := (symaddr s ''idt_table'', 1023), io := es\<rparr> \<and>
    length tb = 128 \<and> (\<forall>i<128. tb ! i = int_gate (symaddr s (case vector_map exception_handlers i of
      None \<Rightarrow> ''exception_handler_unknown'' | Some h \<Rightarrow> h)))"
proof -
  let ?d = "int_gate (symaddr s ''exception_handler_unknown'')"
  let ?s1 = "s\<lparr>idt_table := replicate 128 ?d\<rparr>"
  have fill: "idt_fill 128 ?d s = ?s1" using idt_fill_table [OF assms, of 128] by simp
  have "\<forall>(n, h)\<in>set exception_handlers. unat n < 128"
    by (simp add: exception_handlers_eq)
  moreover have len: "length (idt_table ?s1) = 128" by simp
  moreover have lt: "(128 :: nat) < 2 ^ 31" by simp
  ultimately obtain tb where
    tb: "install_all exception_handlers ?s1 = ?s1\<lparr>idt_table := tb\<rparr>" "length tb = 128"
    and nth: "\<forall>i<128. tb ! i = (case vector_map exception_handlers i of
       None \<Rightarrow> idt_table ?s1 ! i | Some h \<Rightarrow> int_gate (symaddr ?s1 h))"
    using install_all_table [of exception_handlers ?s1, unfolded len] lt by metis
  have "pseudo_desc a 1024 = (a, 1023)" for a
    by (simp add: pseudo_desc_def) (rule bit_word_eqI, auto simp: bit_simps)
  then have eq: "irq_init s = pic_init (s\<lparr>idt_table := tb, idtr := (symaddr s ''idt_table'', 1023)\<rparr>)"
    using tb(1) fill
    by (simp add: irq_init_def int_gate_def [symmetric] IDT_TABLE_NR_def SIZEOF_gate_desc_t_def
        lidt_def Let_def)
  have "tb ! i = int_gate (symaddr s (case vector_map exception_handlers i of
      None \<Rightarrow> ''exception_handler_unknown'' | Some h \<Rightarrow> h))" if "i < 128" for i
    using nth that by (simp split: option.split)
  then show ?thesis
    using eq tb(2) pic_init_simp [of "s\<lparr>idt_table := tb, idtr := (symaddr s ''idt_table'', 1023)\<rparr>"]
    by (intro exI [of _ tb] exI [of _ "io (irq_init s)"]) simp
qed

section \<open>Properties\<close>

text \<open>Interrupt set-up: after \<^verbatim>\<open>irq_init\<close> every one of the 128 gates is a present
  ring-0 interrupt gate in the kernel code segment; each vector listed in the code leads to its own
  handler and every other vector to the default one. The table register covers the table, and
  nothing was written outside it.\<close>

lemma irq_init_table:
  assumes "length (idt_table s) = 128"
  shows "fault (irq_init s) = fault s \<and> idtr (irq_init s) = (symaddr s ''idt_table'', 1023) \<and>
    length (idt_table (irq_init s)) = 128 \<and>
    (\<forall>i<128. let g = idt_table (irq_init s) ! i in
       selector g = 8 \<and> gattr g = 0x8E00 \<and>
       gate_offset g = symaddr s (case vector_map exception_handlers i of
         None \<Rightarrow> ''exception_handler_unknown'' | Some h \<Rightarrow> h))"
proof -
  from irq_init_state [OF assms] obtain tb es where
    eq: "irq_init s = s\<lparr>idt_table := tb, idtr := (symaddr s ''idt_table'', 1023), io := es\<rparr>" "length tb = 128"
    and nth: "\<forall>i<128. tb ! i = int_gate (symaddr s (case vector_map exception_handlers i of
      None \<Rightarrow> ''exception_handler_unknown'' | Some h \<Rightarrow> h))"
    by blast
  have "selector (int_gate h) = 8 \<and> gattr (int_gate h) = 0x8E00 \<and> gate_offset (int_gate h) = h" for h
    by (simp add: int_gate_def KERNEL_SELECTOR_CODE_def GATE_TYPE_INT_def GATE_P_PRESENT_def GATE_DPL0_def)
  then show ?thesis using eq nth by (simp add: Let_def)
qed

lemma irq_init_table_example:
  "gate_offset (idt_table (irq_init blank_kernel) ! 14) = 0x15000"
proof -
  have v: "vector_map exception_handlers 14 = Some ''exception_handler_page_fault''"
    by (simp add: vector_map_def exception_handlers_eq)
  have "length (idt_table blank_kernel) = 128" by (simp add: blank_kernel_def)
  from irq_init_table [OF this]
  have "gate_offset (idt_table (irq_init blank_kernel) ! 14) =
      symaddr blank_kernel ''exception_handler_page_fault''"
    by (auto simp: v Let_def dest!: spec [of _ 14])
  then show ?thesis by (simp add: blank_kernel_def sample_symbols_def)
qed

text \<open>Masking: with controllers that return their mask register as last written,
  \<^verbatim>\<open>irq_enable\<close> unmasks exactly the given line and \<^verbatim>\<open>irq_disable\<close> masks exactly that
  line, on the first or the second controller; every other line keeps its mask.\<close>

lemma irq_mask_exact:
  assumes "imr_device s" and "k < 16" and "n < 16"
  shows "(masked n (irq_enable (of_nat (32 + k)) s) \<longleftrightarrow> masked n s \<and> n \<noteq> k) \<and>
    (masked n (irq_disable (of_nat (32 + k)) s) \<longleftrightarrow> masked n s \<or> n = k)"
  using masked_enable [OF assms] masked_disable [OF assms] by simp

lemma irq_mask_exact_example:
  "\<not> masked 0 (irq_enable (of_nat (32 + 0)) (pic_init blank_kernel)) \<and>
    masked 1 (irq_enable (of_nat (32 + 0)) (pic_init blank_kernel))"
proof -
  have d: "imr_device (pic_init blank_kernel)"
    by (simp add: imr_device_def pic_init_def outb_def Let_def blank_kernel_def)
  have "masked 1 (pic_init blank_kernel)"
    by (simp add: masked_def pic_init_def outb_def Let_def blank_kernel_def pic_ports last_out_def bit_simps)
  then show ?thesis
    using irq_mask_exact [OF d, of 0 0] irq_mask_exact [OF d, of 0 1] by simp
qed

text \<open>End of interrupt: a line of the second controller is acknowledged at both controllers,
  second one first; a line of the first controller at the first only.\<close>

lemma pic_send_eoi_ports:
  assumes "k < 16"
  shows "io (pic_send_eoi (of_nat (32 + k)) s) =
    io s @ (if k < 8 then [] else [Out 0xa0 0x20]) @ [Out 0x20 0x20]"
  using assms unfolding pic_send_eoi_def of_nat_irq [OF assms]
  by (simp add: sint_irq outb_def pic_ports PIC_OCW2_EOI_def Let_def)

lemma pic_send_eoi_ports_example:
  "io (pic_send_eoi (of_nat (32 + 9)) blank_kernel) = [Out 0xa0 0x20, Out 0x20 0x20]"
  using pic_send_eoi_ports [of 9 blank_kernel] by (simp add: blank_kernel_def)

end
