(* ===== verification/Gdt.thy ===== *)
theory Gdt
  imports Ipc Irq
begin

text \<open>
  The segment descriptor table of \<^verbatim>\<open>src/source/kernel/cpu/cpu.c\<close>. The table is a list of
  descriptors; a write outside it is recorded as a fault. \<^verbatim>\<open>get_alloc_desc\<close> takes a mutex and
  may suspend its caller: an \<open>outcome\<close> says whether a call completed, suspended the calling task
  inside the lock operation (the rest of the function runs when the task is resumed, as the owner
  of the mutex), ended in a failed assertion, halted the processor for good, reached an empty endless loop, or does not
  return for another reason.
\<close>

section \<open>Outcomes of calls\<close>

datatype 'a outcome = Done 'a kernel | Suspended kernel | Panicked panic_info | Halted kernel | Looping kernel | Hang

fun and_then :: "'a outcome \<Rightarrow> ('a \<Rightarrow> kernel \<Rightarrow> 'b outcome) \<Rightarrow> 'b outcome" where
  "and_then (Done x s) f = f x s"
| "and_then (Suspended s) f = Suspended s"
| "and_then (Panicked e) f = Panicked e"
| "and_then (Halted s) f = Halted s"
| "and_then (Looping s) f = Looping s"
| "and_then Hang f = Hang"

definition lock_call :: "addr \<Rightarrow> kernel \<Rightarrow> unit outcome" where
  "lock_call p s = (let s' = rein_mutex_lock p s
     in if curr_task s' = curr_task s then Done () s' else Suspended s')"

definition unlock_call :: "addr \<Rightarrow> kernel \<Rightarrow> unit outcome" where
  "unlock_call p s = (case rein_mutex_unlock p s of Inl e \<Rightarrow> Panicked e | Inr s' \<Rightarrow> Done () s')"

section \<open>Descriptors\<close>

definition SEG_G_GRANULARITY_4K :: uint16_t where "SEG_G_GRANULARITY_4K = push_bit 15 1"
definition SEG_DB_DOUBLE_BYTE :: uint16_t where "SEG_DB_DOUBLE_BYTE = push_bit 14 1"
definition SEG_P_PRESENT :: uint16_t where "SEG_P_PRESENT = push_bit 7 1"
definition SEG_DPL_0 :: uint16_t where "SEG_DPL_0 = push_bit 5 0"
definition SEG_S_NORMAL :: uint16_t where "SEG_S_NORMAL = push_bit 4 1"
definition SEG_TYPE_CODE :: uint16_t where "SEG_TYPE_CODE = push_bit 3 1"
definition SEG_TYPE_DATA :: uint16_t where "SEG_TYPE_DATA = push_bit 3 0"
definition SEG_TYPE_TSS :: uint16_t where "SEG_TYPE_TSS = push_bit 0 9"
definition SEG_TYPE_RW :: uint16_t where "SEG_TYPE_RW = push_bit 1 1"
definition GDT_TABLE_SIZE :: nat where "GDT_TABLE_SIZE = 256"
definition SIZEOF_segment_desc_t :: uint32_t where "SIZEOF_segment_desc_t = 8"

lemmas seg_flags = SEG_G_GRANULARITY_4K_def SEG_DB_DOUBLE_BYTE_def SEG_P_PRESENT_def SEG_DPL_0_def
  SEG_S_NORMAL_def SEG_TYPE_CODE_def SEG_TYPE_DATA_def SEG_TYPE_TSS_def SEG_TYPE_RW_def

definition make_desc :: "uint32_t \<Rightarrow> uint32_t \<Rightarrow> uint16_t \<Rightarrow> segment_desc_t" where
  "make_desc base limit0 attr0 =
    (let (at, limit) = (if limit0 > 0xFFFFF then (attr0 OR SEG_G_GRANULARITY_4K, limit0 div 0x1000)
                        else (attr0, limit0))
     in \<lparr>limit15_0 = ucast (limit AND 0xFFFF),
         base15_0 = ucast (base AND 0xFFFF),
         base23_16 = ucast (drop_bit 16 base AND 0xFF),
         attr = ucast (ucast at OR push_bit 8 (drop_bit 16 limit AND 0xF)),
         base31_24 = ucast (drop_bit 24 base AND 0xFF)\<rparr>)"

definition segment_desc_set :: "cint \<Rightarrow> uint32_t \<Rightarrow> uint32_t \<Rightarrow> uint16_t \<Rightarrow> kernel \<Rightarrow> kernel" where
  "segment_desc_set sel base limit at s =
    (let i = unat (sel div SIZEOF_segment_desc_t)
     in if i < length (gdt_table s)
        then s\<lparr>gdt_table := (gdt_table s)[i := make_desc base limit at]\<rparr>
        else s\<lparr>fault := True\<rparr>)"

fun gdt_clear :: "nat \<Rightarrow> kernel \<Rightarrow> kernel" where
  "gdt_clear 0 s = s"
| "gdt_clear (Suc k) s =
     gdt_clear k (segment_desc_set (of_nat (GDT_TABLE_SIZE - Suc k) * SIZEOF_segment_desc_t) 0 0 0 s)"

definition gdt_init :: "kernel \<Rightarrow> kernel" where
  "gdt_init s0 =
    (let s1 = gdt_clear GDT_TABLE_SIZE s0;
         s2 = segment_desc_set (ucast KERNEL_SELECTOR_CODE) 0 0xFFFFFFFF
                (SEG_P_PRESENT OR SEG_DPL_0 OR SEG_S_NORMAL OR SEG_TYPE_CODE OR SEG_DB_DOUBLE_BYTE) s1;
         s3 = segment_desc_set (ucast KERNEL_SELECTOR_DATA) 0 0xFFFFFFFF
                (SEG_P_PRESENT OR SEG_DPL_0 OR SEG_S_NORMAL OR SEG_TYPE_DATA OR SEG_TYPE_RW
                 OR SEG_DB_DOUBLE_BYTE) s2
     in lgdt (symaddr s3 ''gdt_table'') (of_nat GDT_TABLE_SIZE * SIZEOF_segment_desc_t) s3)"

text \<open>The search for a free entry: \<open>find_free k gdt\<close> scans the last \<open>k\<close> entries.\<close>

fun find_free :: "nat \<Rightarrow> segment_desc_t list \<Rightarrow> nat option" where
  "find_free 0 gdt = None"
| "find_free (Suc k) gdt =
     (let i = GDT_TABLE_SIZE - Suc k
      in if attr (gdt ! i) = 0 then Some i else find_free k gdt)"

definition cpu_mutex :: "kernel \<Rightarrow> addr" where
  "cpu_mutex s = symaddr s ''cpu.mutex''"

definition get_alloc_desc :: "kernel \<Rightarrow> cint outcome" where
  "get_alloc_desc s0 =
    and_then (lock_call (cpu_mutex s0) s0) (\<lambda>_ s.
      case find_free (GDT_TABLE_SIZE - 1) (gdt_table s) of
        Some i \<Rightarrow>
          (let s1 = s\<lparr>gdt_table := (gdt_table s)[i := (gdt_table s ! i)\<lparr>attr := SEG_P_PRESENT\<rparr>]\<rparr>
           in and_then (unlock_call (cpu_mutex s1) s1) (\<lambda>_ s2.
                Done (of_nat i * SIZEOF_segment_desc_t) s2))
      | None \<Rightarrow> and_then (unlock_call (cpu_mutex s) s) (\<lambda>_ s2. Done (-1) s2))"

definition cpu_init :: "kernel \<Rightarrow> kernel" where
  "cpu_init s = irq_init (gdt_init (rein_mutex_init (cpu_mutex s) s))"

section \<open>Reading a descriptor back\<close>

definition desc_limit :: "segment_desc_t \<Rightarrow> uint32_t" where
  "desc_limit d = ucast (limit15_0 d) OR push_bit 16 (ucast (drop_bit 8 (attr d) AND 0xF))"

definition desc_gran :: "segment_desc_t \<Rightarrow> bool" where
  "desc_gran d \<longleftrightarrow> bit (attr d) 15"

text \<open>The offset of the last byte a segment covers.\<close>

definition desc_last :: "segment_desc_t \<Rightarrow> uint32_t" where
  "desc_last d = (if desc_gran d then push_bit 12 (desc_limit d) OR 0xFFF else desc_limit d)"

lemma desc_base_make [simp]: "desc_base (make_desc base limit at) = base"
proof (rule bit_word_eqI)
  fix n :: nat assume n: "n < LENGTH(32)"
  consider "n < 16" | "16 \<le> n" "n < 24" | "24 \<le> n" by linarith
  then show "bit (desc_base (make_desc base limit at)) n = bit base n"
    using n by cases (auto simp: desc_base_def make_desc_def Let_def bit_simps)
qed

text \<open>Attribute bits 8 to 11 belong to the limit and bit 15 to the granularity; no caller sets them.\<close>

definition attr_plain :: "uint16_t \<Rightarrow> bool" where
  "attr_plain at \<longleftrightarrow> at AND 0x8F00 = 0"

lemma attr_plain_bit:
  assumes "attr_plain at" and "n \<in> {8, 9, 10, 11, 15}"
  shows "\<not> bit at n"
proof -
  have "bit (0x8F00 :: uint16_t) n" using assms(2) by (auto simp: bit_simps)
  then show ?thesis using assms(1) bit_and_iff [of at "0x8F00" n] by (simp add: attr_plain_def)
qed

lemma and_F16 [simp]: "(w :: uint16_t) AND 0xF = take_bit 4 w"
  by (simp add: take_bit_eq_mask mask_eq_exp_minus_1)

lemma limit_bit:
  assumes "l \<le> (0xFFFFF :: uint32_t)" and "20 \<le> n"
  shows "\<not> bit l n"
proof -
  have "unat l < 2 ^ 20" using assms(1) by (simp add: word_le_nat_alt)
  then have "take_bit 20 (unat l) = unat l" by (intro take_bit_nat_eq_self)
  then have "unat (take_bit 20 l) = unat l" by (simp add: unsigned_take_bit_eq)
  then have "take_bit 20 l = l" by (simp only: word_unat_eq_iff)
  then have "bit l n = bit (take_bit 20 l) n" by simp
  then show ?thesis using assms(2) by (simp add: bit_take_bit_iff)
qed

lemma desc_limit_make:
  assumes at: "attr_plain at" and l: "l \<le> 0xFFFFF"
    and d: "limit15_0 d = ucast (l AND 0xFFFF)"
      "attr d = ucast (ucast (at OR g) OR push_bit 8 (drop_bit 16 l AND 0xF))" "g AND 0x7FFF = 0"
  shows "desc_limit d = l"
proof (rule bit_word_eqI)
  fix n :: nat assume n: "n < LENGTH(32)"
  have g: "\<not> bit g k" if "k \<in> {8, 9, 10, 11}" for k
  proof -
    have "bit (0x7FFF :: uint16_t) k" using that by (auto simp: bit_simps)
    then show ?thesis using d(3) bit_and_iff [of g "0x7FFF" k] by simp
  qed
  have no: "\<not> bit at (8 + (n - 16)) \<and> \<not> bit g (8 + (n - 16))" if "16 \<le> n" "n < 20"
  proof -
    have "8 + (n - 16) \<in> {8, 9, 10, 11}" using that by auto
    then show ?thesis using attr_plain_bit [OF at] g by blast
  qed
  consider "n < 16" | "16 \<le> n" "n < 20" | "20 \<le> n" by linarith
  then show "bit (desc_limit d) n = bit l n"
    using n no limit_bit [OF l, of n] by cases (auto simp: desc_limit_def d bit_simps)
qed


lemma desc_gran_make: "attr_plain at \<Longrightarrow> desc_gran (make_desc base limit at) \<longleftrightarrow> limit > 0xFFFFF"
  using attr_plain_bit [of at 15] by (auto simp: desc_gran_def make_desc_def seg_flags bit_simps)

lemma desc_last_make:
  assumes "attr_plain at"
  shows "desc_last (make_desc base limit at) = (if limit > 0xFFFFF then limit OR 0xFFF else limit)"
proof (cases "limit > 0xFFFFF")
  case True
  let ?d = "make_desc base limit at" and ?l = "limit div 0x1000"
  have l: "?l = drop_bit 12 limit" by (simp add: drop_bit_eq_div)
  have "unat limit < 2 ^ 32" using unsigned_less [of limit, where ?'a = nat] by simp
  then have "?l \<le> 0xFFFFF" by (simp add: word_le_nat_alt unat_div)
  then have "desc_limit ?d = ?l"
    using True by (intro desc_limit_make [OF assms, where g = SEG_G_GRANULARITY_4K])
      (simp_all add: make_desc_def seg_flags)
  moreover have "desc_gran ?d" using True by (simp add: desc_gran_make [OF assms])
  moreover have "push_bit 12 (drop_bit 12 limit) OR 0xFFF = limit OR 0xFFF"
  proof (rule bit_word_eqI)
    fix n :: nat assume "n < LENGTH(32)"
    have m: "(0xFFF :: uint32_t) = mask 12" by (simp add: mask_eq_exp_minus_1)
    show "bit (push_bit 12 (drop_bit 12 limit) OR 0xFFF) n = bit (limit OR 0xFFF) n"
      unfolding m using \<open>n < LENGTH(32)\<close> by (auto simp: bit_simps)
  qed
  ultimately show ?thesis using True l by (simp add: desc_last_def)
next
  case False
  let ?d = "make_desc base limit at"
  have "desc_limit ?d = limit"
    using False by (intro desc_limit_make [OF assms, where g = 0]) (simp_all add: make_desc_def)
  moreover have "\<not> desc_gran ?d" using False by (simp add: desc_gran_make [OF assms])
  ultimately show ?thesis using False by (simp add: desc_last_def)
qed

text \<open>The remaining attribute bits are those that were given.\<close>

lemma attr_make_bit:
  assumes "n < 8 \<or> 12 \<le> n \<and> n < 15"
  shows "bit (attr (make_desc base limit at)) n \<longleftrightarrow> bit at n"
proof -
  define g where "g = (if limit > 0xFFFFF then push_bit 15 1 else 0 :: uint16_t)"
  define l where "l = drop_bit 16 (if limit > 0xFFFFF then limit div 0x1000 else limit)"
  have "attr (make_desc base limit at) = ucast (ucast (at OR g) OR push_bit 8 (l AND 0xF))"
    by (simp add: make_desc_def g_def l_def SEG_G_GRANULARITY_4K_def)
  moreover have "(0xF :: uint32_t) = mask 4" by (simp add: mask_eq_exp_minus_1)
  then have "l AND 0xF = take_bit 4 l" by (simp only: take_bit_eq_mask)
  moreover have "n \<noteq> 15" using assms by auto
  then have "\<not> bit g n" by (simp add: g_def bit_push_bit_iff bit_1_iff del: push_bit_numeral push_bit_of_1)
  ultimately have "bit (attr (make_desc base limit at)) n \<longleftrightarrow> n < 16 \<and> (bit at n \<or> 8 \<le> n \<and> n - 8 < 4 \<and> bit l (n - 8))"
    by (simp only: bit_unsigned_iff bit_or_iff bit_push_bit_iff bit_take_bit_iff) (use assms in auto)
  then show ?thesis using assms by linarith
qed

lemma attr_make:
  assumes "attr_plain at"
  shows "attr (make_desc base limit at) AND 0x70FF = at"
proof (rule bit_word_eqI)
  fix n :: nat assume n: "n < LENGTH(16)"
  then have "n \<in> {0, 1, 2, 3, 4, 5, 6, 7, 8, 9, 10, 11, 12, 13, 14, 15}"
    unfolding insert_iff empty_iff by simp arith
  then have m: "bit (0x70FF :: uint16_t) n \<longleftrightarrow> n \<notin> {8, 9, 10, 11, 15}"
    unfolding insert_iff empty_iff by (elim disjE) simp_all
  show "bit (attr (make_desc base limit at) AND 0x70FF) n = bit at n"
  proof (cases "n \<in> {8, 9, 10, 11, 15}")
    case True
    then show ?thesis using m attr_plain_bit [OF assms True] by (simp only: bit_and_iff simp_thms)
  next
    case False
    then have "n < 8 \<or> 12 \<le> n \<and> n < 15" using n by auto
    then show ?thesis using False m by (simp only: bit_and_iff attr_make_bit simp_thms)
  qed
qed

section \<open>The table after initialisation\<close>

definition zero_desc :: segment_desc_t where
  "zero_desc = \<lparr>limit15_0 = 0, base15_0 = 0, base23_16 = 0, attr = 0, base31_24 = 0\<rparr>"

definition code_desc :: segment_desc_t where
  "code_desc = \<lparr>limit15_0 = 0xFFFF, base15_0 = 0, base23_16 = 0, attr = 0xCF98, base31_24 = 0\<rparr>"

definition data_desc :: segment_desc_t where
  "data_desc = \<lparr>limit15_0 = 0xFFFF, base15_0 = 0, base23_16 = 0, attr = 0xCF92, base31_24 = 0\<rparr>"

lemma make_desc_zero: "make_desc 0 0 0 = zero_desc"
  by (simp add: make_desc_def zero_desc_def)

lemma segment_desc_set_in:
  assumes "i < length (gdt_table s)" and "i < 2 ^ 29"
  shows "segment_desc_set (of_nat i * SIZEOF_segment_desc_t) base limit at s =
    s\<lparr>gdt_table := (gdt_table s)[i := make_desc base limit at]\<rparr>"
proof -
  have "unat (of_nat i * SIZEOF_segment_desc_t) = i * 8"
    using assms(2) by (simp add: SIZEOF_segment_desc_t_def unat_word_ariths unat_of_nat)
  then have "unat (of_nat i * SIZEOF_segment_desc_t div SIZEOF_segment_desc_t) = i"
    by (simp add: unat_div SIZEOF_segment_desc_t_def)
  then show ?thesis using assms(1) by (simp add: segment_desc_set_def)
qed

lemma gdt_clear_table:
  assumes "length (gdt_table s) = 256" and "k \<le> 256"
  shows "gdt_clear k s = s\<lparr>gdt_table := take (256 - k) (gdt_table s) @ replicate k zero_desc\<rparr>"
  using assms
proof (induction k arbitrary: s)
  case (Suc k)
  let ?i = "256 - Suc k"
  have "segment_desc_set (of_nat ?i * SIZEOF_segment_desc_t) 0 0 0 s =
      s\<lparr>gdt_table := (gdt_table s)[?i := zero_desc]\<rparr>"
    using segment_desc_set_in [of ?i s 0 0 0] Suc.prems by (simp add: make_desc_zero)
  moreover have "take (256 - k) ((gdt_table s)[?i := zero_desc]) = take ?i (gdt_table s) @ [zero_desc]"
  proof -
    have "256 - k = Suc ?i" using Suc.prems by simp
    then show ?thesis using Suc.prems by (simp add: take_Suc_conv_app_nth del: Suc_diff_le)
  qed
  ultimately show ?case using Suc by (simp add: GDT_TABLE_SIZE_def replicate_append_same)
qed simp

lemma pseudo_desc_simp: "pseudo_desc a n = (a, ucast (n - 1))"
  by (simp add: pseudo_desc_def Let_def) (rule bit_word_eqI, auto simp: bit_simps)

lemma gdt_init_table:
  assumes "length (gdt_table s) = 256"
  shows "gdt_init s = s\<lparr>gdt_table := [zero_desc, code_desc, data_desc] @ replicate 253 zero_desc,
    gdtr := (symaddr s ''gdt_table'', 2047)\<rparr>"
proof -
  let ?z = "replicate 256 zero_desc"
  have cl: "gdt_clear 256 s = s\<lparr>gdt_table := ?z\<rparr>" using gdt_clear_table [OF assms, of 256] by simp
  have code: "make_desc 0 0xFFFFFFFF
      (SEG_P_PRESENT OR SEG_DPL_0 OR SEG_S_NORMAL OR SEG_TYPE_CODE OR SEG_DB_DOUBLE_BYTE) = code_desc"
    by (simp add: make_desc_def seg_flags code_desc_def)
  have data: "make_desc 0 0xFFFFFFFF (SEG_P_PRESENT OR SEG_DPL_0 OR SEG_S_NORMAL OR SEG_TYPE_DATA
      OR SEG_TYPE_RW OR SEG_DB_DOUBLE_BYTE) = data_desc"
    by (simp add: make_desc_def seg_flags data_desc_def)
  have r: "?z = [zero_desc, zero_desc, zero_desc] @ replicate 253 zero_desc"
    by (simp add: numeral_eq_Suc)
  have upd: "([a, b, c] @ xs)[1 := d, 2 := e] = [a, d, e] @ xs" for a b c d e :: segment_desc_t and xs
    by (simp add: numeral_2_eq_2)
  have "?z[1 := code_desc, 2 := data_desc] = [zero_desc, code_desc, data_desc] @ replicate 253 zero_desc"
    unfolding r upd ..
  then show ?thesis
    unfolding gdt_init_def GDT_TABLE_SIZE_def
    by (simp add: cl segment_desc_set_def KERNEL_SELECTOR_CODE_def KERNEL_SELECTOR_DATA_def
        SIZEOF_segment_desc_t_def lgdt_def pseudo_desc_simp code data Let_def del: replicate.simps)
qed

section \<open>Allocation\<close>

lemma scan_range: "Suc k \<le> 256 \<Longrightarrow> 256 - Suc k \<le> j \<longleftrightarrow> j = 256 - Suc k \<or> 256 - k \<le> j" for j k :: nat
  by auto

lemma find_free_step:
  "find_free (Suc k) gdt = (if attr (gdt ! (256 - Suc k)) = 0 then Some (256 - Suc k) else find_free k gdt)"
  by (simp add: GDT_TABLE_SIZE_def)

lemma find_free_None:
  assumes "k \<le> 256"
  shows "find_free k gdt = None \<longleftrightarrow> (\<forall>j. 256 - k \<le> j \<and> j < 256 \<longrightarrow> attr (gdt ! j) \<noteq> 0)"
  using assms
proof (induction k)
  case (Suc k)
  have "256 - Suc k < 256" by simp
  then show ?case
    unfolding find_free_step scan_range [OF Suc.prems] using Suc by auto
qed auto

lemma find_free_Some:
  assumes "k \<le> 256" and "find_free k gdt = Some i"
  shows "256 - k \<le> i \<and> i < 256 \<and> attr (gdt ! i) = 0 \<and>
    (\<forall>j. 256 - k \<le> j \<and> j < i \<longrightarrow> attr (gdt ! j) \<noteq> 0)"
  using assms
proof (induction k)
  case (Suc k)
  show ?case
  proof (cases "attr (gdt ! (256 - Suc k)) = 0")
    case True
    then have "i = 256 - Suc k" using Suc.prems(2) unfolding find_free_step by simp
    then show ?thesis using True by auto
  next
    case False
    then have "find_free k gdt = Some i" using Suc.prems(2) unfolding find_free_step by simp
    with Suc show ?thesis unfolding scan_range [OF Suc.prems(1)] using False by auto
  qed
qed simp

text \<open>Taking and releasing a mutex nobody holds or waits for.\<close>

lemma leave_upd_enter [simp]: "leave_protected (upd_mutex p f (enter_protected s)) = upd_mutex p f s"
  by (simp add: protection_defs upd_mutex_def Let_def)

lemma lock_call_free:
  "locker (mutexes s p) = 0 \<Longrightarrow>
     lock_call p s = Done () (upd_mutex p (\<lambda>k. k\<lparr>locker := 1, owner := curr_task s\<rparr>) s)"
proof -
  assume l: "locker (mutexes s p) = 0"
  then have "rein_mutex_lock p s = upd_mutex p (\<lambda>k. k\<lparr>locker := locker k + 1, owner := curr_task s\<rparr>) s"
    by (simp add: rein_mutex_lock_def task_current_def Let_def)
  then show ?thesis using l by (simp add: lock_call_def) (simp add: upd_mutex_def)
qed

lemma unlock_call_free:
  assumes "locker (mutexes s p) = 1" and "owner (mutexes s p) = curr_task s"
    and "count (mutex_wait_list (mutexes s p)) = 0"
  shows "unlock_call p s = Done () (upd_mutex p (\<lambda>k. k\<lparr>locker := 0, owner := 0\<rparr>) s)"
proof -
  have "rein_mutex_unlock p s = Inr (leave_protected (upd_mutex p (\<lambda>k. k\<lparr>owner := 0\<rparr>)
      (upd_mutex p (\<lambda>k. k\<lparr>locker := locker k - 1\<rparr>) (enter_protected s))))"
    using assms by (simp add: rein_mutex_unlock_def mutex_handoff_def task_current_def list_count_def Let_def)
  also have "\<dots> = Inr (upd_mutex p (\<lambda>k. k\<lparr>locker := 0, owner := 0\<rparr>) s)"
    using assms(1) by (simp add: protection_defs upd_mutex_def Let_def)
  finally show ?thesis by (simp add: unlock_call_def)
qed

definition mutex_idle :: "addr \<Rightarrow> kernel \<Rightarrow> bool" where
  "mutex_idle p s \<longleftrightarrow> locker (mutexes s p) = 0 \<and> count (mutex_wait_list (mutexes s p)) = 0"

definition mutex_released :: "addr \<Rightarrow> kernel \<Rightarrow> kernel" where
  "mutex_released p s = upd_mutex p (\<lambda>k. k\<lparr>locker := 0, owner := 0\<rparr>) s"

lemma get_alloc_desc_free:
  assumes "mutex_idle (cpu_mutex s) s"
  shows "get_alloc_desc s = (case find_free 255 (gdt_table s) of
      Some i \<Rightarrow> Done (of_nat i * 8) (mutex_released (cpu_mutex s)
        (s\<lparr>gdt_table := (gdt_table s)[i := (gdt_table s ! i)\<lparr>attr := SEG_P_PRESENT\<rparr>]\<rparr>))
    | None \<Rightarrow> Done (-1) (mutex_released (cpu_mutex s) s))"
proof -
  let ?p = "cpu_mutex s" and ?l = "\<lambda>s'. upd_mutex (cpu_mutex s) (\<lambda>k. k\<lparr>locker := 1, owner := curr_task s\<rparr>) s'"
  have lock: "lock_call ?p s = Done () (?l s)" using assms by (intro lock_call_free) (simp add: mutex_idle_def)
  have un: "unlock_call (cpu_mutex s) (?l s\<lparr>gdt_table := g\<rparr>) =
      Done () (mutex_released ?p (s\<lparr>gdt_table := g\<rparr>))" for g
  proof -
    have "unlock_call ?p (?l s\<lparr>gdt_table := g\<rparr>) =
        Done () (upd_mutex ?p (\<lambda>k. k\<lparr>locker := 0, owner := 0\<rparr>) (?l s\<lparr>gdt_table := g\<rparr>))"
      using assms by (intro unlock_call_free) (simp_all add: mutex_idle_def)
    then show ?thesis by (simp add: mutex_released_def upd_mutex_def)
  qed
  have m: "cpu_mutex (?l s) = ?p" "cpu_mutex (?l s\<lparr>gdt_table := g\<rparr>) = ?p" "gdt_table (?l s) = gdt_table s" for g
    by (simp_all add: cpu_mutex_def)
  have e: "?l s\<lparr>gdt_table := gdt_table s\<rparr> = ?l s" by (simp add: upd_mutex_def)
  have un0: "unlock_call ?p (?l s) = Done () (mutex_released ?p s)"
    using un [of "gdt_table s"] unfolding e by simp
  show ?thesis
    unfolding get_alloc_desc_def lock and_then.simps m
    by (simp add: GDT_TABLE_SIZE_def un un0 m SIZEOF_segment_desc_t_def Let_def split: option.split)
qed

section \<open>Properties\<close>

text \<open>C34. Segment descriptors. For attributes that leave the bits of the limit and of the granularity clear (as every caller
  in the code passes them), the entry a selector names, written by \<^verbatim>\<open>segment_desc_set\<close>, reads back with the given base
  and the given attributes; its granularity is 4 KB exactly when the limit needs more than 20 bits, and the segment it
  describes ends at the given limit, or with that granularity at the end of the page the limit is in. Nothing else
  of the kernel's state changes: no other entry and nothing outside the table.\<close>

theorem segment_desc_set_readback:
  assumes "length (gdt_table s) = 256" and "i < 256" and "attr_plain at"
    and s': "s' = segment_desc_set (of_nat i * SIZEOF_segment_desc_t) base limit at s"
  shows "desc_base (gdt_table s' ! i) = base \<and> attr (gdt_table s' ! i) AND 0x70FF = at \<and>
    (desc_gran (gdt_table s' ! i) \<longleftrightarrow> limit > 0xFFFFF) \<and>
    desc_last (gdt_table s' ! i) = (if limit > 0xFFFFF then limit OR 0xFFF else limit) \<and>
    s' = s\<lparr>gdt_table := (gdt_table s)[i := gdt_table s' ! i]\<rparr>"
proof -
  have s1: "s' = s\<lparr>gdt_table := (gdt_table s)[i := make_desc base limit at]\<rparr>"
    unfolding s' using assms(1,2) by (intro segment_desc_set_in) simp_all
  then have e: "gdt_table s' ! i = make_desc base limit at" using assms(1,2) by simp
  show ?thesis
    unfolding e using s1 assms(3) by (simp add: desc_last_make attr_make desc_gran_make)
qed

theorem segment_desc_set_readback_witness:
  "desc_last (gdt_table (segment_desc_set (of_nat 2 * SIZEOF_segment_desc_t) 0 0xFFFFFFFE 0x4092
     blank_kernel) ! 2) = 0xFFFFFFFF \<and>
   attr (gdt_table (segment_desc_set (of_nat 2 * SIZEOF_segment_desc_t) 0 0xFFFFFFFE 0x4092 blank_kernel) ! 2) AND 0x70FF = 0x4092"
proof -
  have "length (gdt_table blank_kernel) = 256" "attr_plain 0x4092"
    by (simp_all add: blank_kernel_def attr_plain_def)
  from segment_desc_set_readback [OF this(1) _ this(2) refl, of 2 0 "0xFFFFFFFE"] show ?thesis by simp
qed

text \<open>C40. Descriptor allocation. With the table's mutex free, \<^verbatim>\<open>get_alloc_desc\<close> completes: it returns the selector
  of the first unused entry above 0 and marks that entry present, or \<open>-1\<close> with the table unchanged exactly when no entry
  is unused. In both cases the mutex is free again with no owner, and the rest of the kernel's state is as before.\<close>

theorem get_alloc_desc_first_free:
  assumes "mutex_idle (cpu_mutex s) s"
  shows "\<exists>r s'. get_alloc_desc s = Done r s' \<and> mutex_idle (cpu_mutex s') s' \<and> owner (mutexes s' (cpu_mutex s)) = 0 \<and>
    s' = s\<lparr>gdt_table := gdt_table s', mutexes := (mutexes s)(cpu_mutex s := mutexes s' (cpu_mutex s))\<rparr> \<and>
    (if \<forall>j. 1 \<le> j \<and> j < 256 \<longrightarrow> attr (gdt_table s ! j) \<noteq> 0
     then r = -1 \<and> gdt_table s' = gdt_table s
     else \<exists>i. 1 \<le> i \<and> i < 256 \<and> r = of_nat (8 * i) \<and> attr (gdt_table s ! i) = 0 \<and>
       (\<forall>j. 1 \<le> j \<and> j < i \<longrightarrow> attr (gdt_table s ! j) \<noteq> 0) \<and>
       gdt_table s' = (gdt_table s)[i := (gdt_table s ! i)\<lparr>attr := 0x80\<rparr>])"
proof -
  have idle: "mutex_idle (cpu_mutex (mutex_released (cpu_mutex s) (s\<lparr>gdt_table := g\<rparr>)))
      (mutex_released (cpu_mutex s) (s\<lparr>gdt_table := g\<rparr>))" for g
    using assms by (simp add: mutex_idle_def mutex_released_def cpu_mutex_def)
  have gt: "gdt_table (mutex_released p (s\<lparr>gdt_table := g\<rparr>)) = g" for p g
    by (simp add: mutex_released_def)
  have rest: "owner (mutexes (mutex_released p (s\<lparr>gdt_table := g\<rparr>)) p) = 0 \<and> mutex_released p (s\<lparr>gdt_table := g\<rparr>) =
      s\<lparr>gdt_table := gdt_table (mutex_released p (s\<lparr>gdt_table := g\<rparr>)),
        mutexes := (mutexes s)(p := mutexes (mutex_released p (s\<lparr>gdt_table := g\<rparr>)) p)\<rparr>" for p g
    by (simp add: mutex_released_def upd_mutex_def)
  show ?thesis
  proof (cases "find_free 255 (gdt_table s)")
    case None
    then have "\<forall>j. 1 \<le> j \<and> j < 256 \<longrightarrow> attr (gdt_table s ! j) \<noteq> 0"
      using find_free_None [of 255 "gdt_table s"] by simp
    then show ?thesis
      using get_alloc_desc_free [OF assms] idle [of "gdt_table s"] gt [of _ "gdt_table s"] rest [of _ "gdt_table s"]
      by (simp add: None)
  next
    case (Some i)
    note i = find_free_Some [OF _ Some]
    have "\<not> (\<forall>j. 1 \<le> j \<and> j < 256 \<longrightarrow> attr (gdt_table s ! j) \<noteq> 0)"
      using find_free_None [of 255 "gdt_table s"] by (simp add: Some)
    then show ?thesis
      using get_alloc_desc_free [OF assms] idle i gt rest
      by (simp add: Some mult.commute seg_flags) (metis One_nat_def)
  qed
qed

theorem get_alloc_desc_first_free_witness:
  "\<exists>s'. get_alloc_desc (gdt_init blank_kernel) = Done 24 s'"
proof -
  let ?s = "gdt_init blank_kernel"
  have "length (gdt_table blank_kernel) = 256" by (simp add: blank_kernel_def)
  then have g: "mutex_idle (cpu_mutex ?s) ?s"
    "gdt_table ?s = [zero_desc, code_desc, data_desc] @ replicate 253 zero_desc"
    by (simp_all add: gdt_init_table mutex_idle_def cpu_mutex_def blank_kernel_def list_init_def)
  then have at: "attr (gdt_table ?s ! 1) \<noteq> 0" "attr (gdt_table ?s ! 2) \<noteq> 0" "attr (gdt_table ?s ! 3) = 0"
    by (simp_all add: nth_append code_desc_def data_desc_def zero_desc_def)
  have "(\<forall>j. 1 \<le> j \<and> j < 256 \<longrightarrow> attr (gdt_table ?s ! j) \<noteq> 0) = False"
    using at(3) by (auto intro!: exI [of _ 3])
  from get_alloc_desc_first_free [OF g(1), unfolded this] obtain i s' where i: "get_alloc_desc ?s = Done (of_nat (8 * i)) s'"
    "1 \<le> i" "attr (gdt_table ?s ! i) = 0" "\<forall>j. 1 \<le> j \<and> j < i \<longrightarrow> attr (gdt_table ?s ! j) \<noteq> 0"
    by (auto simp only: if_False)
  have "i \<noteq> 1" "i \<noteq> 2" "\<not> 3 < i" using i at by auto
  then have "i = 3" using i(2) by simp
  then show ?thesis using i(1) by auto
qed

end
