(* ===== verification/Klib.thy ===== *)
theory Klib
  imports OS_Prelude "HOL-Library.Signed_Division"
begin

text \<open>
  The string, memory and formatting routines of \<^verbatim>\<open>src/source/kernel/tools/klib.c\<close>, over a
  byte memory indexed by 32-bit addresses. A loop that ends only when it meets a terminating zero
  byte is a partial function, \<open>None\<close> when it runs forever; so is a call that ends in one of the
  code's own \<^verbatim>\<open>for(;;)\<close>. A \<^verbatim>\<open>va_list\<close> is the sequence of 32-bit stack slots that
  \<^verbatim>\<open>va_arg\<close> reads. \<open>stored\<close> and \<open>cstr\<close> say what bytes a region of memory holds.
\<close>

type_synonym memory = "addr \<Rightarrow> uint8_t"

text \<open>Reading little-endian words.\<close>

definition mem_half :: "memory \<Rightarrow> addr \<Rightarrow> uint16_t" where
  "mem_half m a = ucast (m a) OR push_bit 8 (ucast (m (a + 1)))"

definition mem_word :: "memory \<Rightarrow> addr \<Rightarrow> uint32_t" where
  "mem_word m a = ucast (m a) OR push_bit 8 (ucast (m (a + 1))) OR push_bit 16 (ucast (m (a + 2)))
     OR push_bit 24 (ucast (m (a + 3)))"

text \<open>The four bytes of a word make up the word.\<close>

lemma word_bytes:
  "ucast (ucast w :: uint8_t) OR push_bit 8 (ucast (ucast (drop_bit 8 w) :: uint8_t)) OR
     push_bit 16 (ucast (ucast (drop_bit 16 w) :: uint8_t)) OR
     push_bit 24 (ucast (ucast (drop_bit 24 w) :: uint8_t)) = w" for w :: uint32_t
proof (rule bit_word_eqI)
  fix n :: nat assume n: "n < LENGTH(32)"
  consider "n < 8" | "8 \<le> n" "n < 16" | "16 \<le> n" "n < 24" | "24 \<le> n" by linarith
  then show "bit (ucast (ucast w :: uint8_t) OR push_bit 8 (ucast (ucast (drop_bit 8 w) :: uint8_t)) OR
     push_bit 16 (ucast (ucast (drop_bit 16 w) :: uint8_t)) OR
     push_bit 24 (ucast (ucast (drop_bit 24 w) :: uint8_t)) :: uint32_t) n = bit w n"
    using n by cases (auto simp: bit_simps)
qed

section \<open>Strings and memory blocks\<close>

partial_function (option) strlen_loop :: "memory \<Rightarrow> addr \<Rightarrow> uint32_t \<Rightarrow> uint32_t option" where
  "strlen_loop m s cnt = (if m (s + cnt) \<noteq> 0 then strlen_loop m s (cnt + 1) else Some cnt)"

definition kernel_strlen :: "memory \<Rightarrow> addr \<Rightarrow> uint32_t option" where
  "kernel_strlen m s = strlen_loop m s 0"

partial_function (option) kernel_strcpy :: "addr \<Rightarrow> addr \<Rightarrow> memory \<Rightarrow> memory option" where
  "kernel_strcpy dest src m =
    (if m src \<noteq> 0 then kernel_strcpy (dest + 1) (src + 1) (m(dest := m src))
     else Some (m(dest := 0)))"

partial_function (option) str_equal_loop :: "memory \<Rightarrow> uint32_t \<Rightarrow> addr \<Rightarrow> addr \<Rightarrow> cint option" where
  "str_equal_loop m i s1 s2 =
    Option.bind (kernel_strlen m s1) (\<lambda>n.
      if i < n then
        (if m s1 \<noteq> m s2 then Some 0 else str_equal_loop m (i + 1) (s1 + 1) (s2 + 1))
      else Some 1)"

definition kernel_str_equal :: "memory \<Rightarrow> addr \<Rightarrow> addr \<Rightarrow> cint option" where
  "kernel_str_equal m s1 s2 =
    Option.bind (kernel_strlen m s1) (\<lambda>n1.
    Option.bind (kernel_strlen m s2) (\<lambda>n2.
      if n1 \<noteq> n2 then Some 0 else str_equal_loop m 0 s1 s2))"

primrec memcpy_loop :: "nat \<Rightarrow> addr \<Rightarrow> addr \<Rightarrow> memory \<Rightarrow> memory" where
  "memcpy_loop 0 dest src m = m"
| "memcpy_loop (Suc k) dest src m = memcpy_loop k (dest + 1) (src + 1) (m(dest := m src))"

definition kernel_memcpy :: "addr \<Rightarrow> addr \<Rightarrow> uint32_t \<Rightarrow> memory \<Rightarrow> memory" where
  "kernel_memcpy dest src sz m = (if sz = 0 then m else memcpy_loop (unat sz) dest src m)"

primrec mem_equal_loop :: "nat \<Rightarrow> addr \<Rightarrow> addr \<Rightarrow> memory \<Rightarrow> cint" where
  "mem_equal_loop 0 p1 p2 m = 1"
| "mem_equal_loop (Suc k) p1 p2 m =
     (if m p1 \<noteq> m p2 then 0 else mem_equal_loop k (p1 + 1) (p2 + 1) m)"

definition kernel_mem_equal :: "addr \<Rightarrow> addr \<Rightarrow> uint32_t \<Rightarrow> memory \<Rightarrow> cint" where
  "kernel_mem_equal d1 d2 sz m = mem_equal_loop (unat sz) d1 d2 m"

text \<open>The loop of \<^verbatim>\<open>kernel_memset\<close> does not advance its pointer.\<close>

primrec memset_loop :: "nat \<Rightarrow> addr \<Rightarrow> uint8_t \<Rightarrow> memory \<Rightarrow> memory" where
  "memset_loop 0 dest c m = m"
| "memset_loop (Suc k) dest c m = memset_loop k dest c (m(dest := c))"

definition kernel_memset :: "addr \<Rightarrow> uint8_t \<Rightarrow> uint32_t \<Rightarrow> memory \<Rightarrow> memory" where
  "kernel_memset dest c sz m = memset_loop (unat sz) dest c m"

section \<open>Numbers as text\<close>

definition num2ch :: "nat \<Rightarrow> uint8_t" where
  "num2ch d = of_nat (of_char (''0123456789ABCDEF'' ! d))"

partial_function (option) itoa_loop :: "int \<Rightarrow> int \<Rightarrow> addr \<Rightarrow> memory \<Rightarrow> (addr \<times> memory) option" where
  "itoa_loop base num p m =
    (let d = (if 0 < num then num smod base else - (num smod base));
         m1 = m(p := num2ch (nat d));
         num1 = num sdiv base
     in if num1 \<noteq> 0 then itoa_loop base num1 (p + 1) m1 else Some (p + 1, m1))"

function reverse_loop :: "addr \<Rightarrow> addr \<Rightarrow> memory \<Rightarrow> memory" where
  "reverse_loop start end' m =
    (if start < end' then
       (let ch = m start; m1 = m(start := m end'); m2 = m1(end' := ch)
        in reverse_loop (start + 1) (end' - 1) m2)
     else m)"
  by pat_completeness auto
termination
proof (relation "measure (\<lambda>(start, end', m). unat end')")
  fix start end' :: addr and m :: memory and x xa xb
  assume "start < end'"
  then have "end' \<noteq> 0" by auto
  then have "unat (end' - 1) < unat end'"
    by (metis diff_less lessI unat_1 unat_gt_0 unat_minus_one word_neq_0_conv zero_less_one)
  then show "((start + 1, end' - 1, xb), start, end', m) \<in> measure (\<lambda>(start, end', m). unat end')"
    by simp
qed simp

declare reverse_loop.simps [simp del]

text \<open>Two arguments are refused: the routine prints a message on the log and loops for ever. The error and the memory
  at that moment are the result; what becomes of them is said where the log is modelled.\<close>

datatype itoa_error = Invalid_base | Negative_base16

type_synonym 'a text_result = "((itoa_error \<times> memory) + 'a) option"

definition kernel_itoa :: "addr \<Rightarrow> cint \<Rightarrow> cint \<Rightarrow> memory \<Rightarrow> (addr \<times> memory) text_result" where
  "kernel_itoa buf num base m =
    (let n = sint num; b = sint base
     in if b \<noteq> 2 \<and> b \<noteq> 10 \<and> b \<noteq> 16 then Some (Inl (Invalid_base, m))
        else if n < 0 \<and> b = 16 then Some (Inl (Negative_base16, m))
        else
          let flag = (if n < 0 \<and> b = 10 then 1 else 0);
              (p, m1) = (if n < 0 \<and> b = 10 then (buf + 1, m(buf := of_nat (of_char CHR ''-''))) else (buf, m))
          in Option.bind (itoa_loop b n p m1) (\<lambda>(p1, m2).
               Some (Inr (p1, reverse_loop (buf + flag) (p1 - 1) m2))))"

section \<open>Formatted output\<close>

datatype fmt_state = NORMAL | READ_FMT

text \<open>One conversion after \<^verbatim>\<open>%\<close>: the new write position, the arguments left, the memory, or the error of \<^verbatim>\<open>kernel_itoa\<close>.\<close>

definition chr :: "char \<Rightarrow> uint8_t" where
  "chr c = of_nat (of_char c)"

definition va_arg :: "uint32_t list \<Rightarrow> (uint32_t \<times> uint32_t list) option" where
  "va_arg args = (case args of [] \<Rightarrow> None | a # rest \<Rightarrow> Some (a, rest))"

definition vsprintf_directive ::
  "uint8_t \<Rightarrow> addr \<Rightarrow> uint32_t list \<Rightarrow> memory \<Rightarrow> (addr \<times> uint32_t list \<times> memory) text_result" where
  "vsprintf_directive ch current args m =
    (if ch = chr (CHR ''s'') then
       Option.bind (va_arg args) (\<lambda>(str, args').
       Option.bind (kernel_strlen m str) (\<lambda>len.
         Some (Inr (current + len, args', memcpy_loop (unat len) current str m))))
     else if ch = chr (CHR ''d'') then
       Option.bind (va_arg args) (\<lambda>(num, args').
         map_option (map_sum id (\<lambda>(p, m'). (p, args', m'))) (kernel_itoa current num 10 m))
     else if ch = chr (CHR ''x'') then
       Option.bind (va_arg args) (\<lambda>(num, args').
         map_option (map_sum id (\<lambda>(p, m'). (p, args', m'))) (kernel_itoa current num 16 m))
     else if ch = chr (CHR ''c'') then
       Option.bind (va_arg args) (\<lambda>(c, args').
         Some (Inr (current + 1, args', m(current := ucast c))))
     else if ch = chr (CHR ''%'') then Some (Inr (current + 1, args, m(current := chr (CHR ''%''))))
     else Some (Inr (current + 1, args, m(current := chr (CHR ''?'')))))"

partial_function (option) vsprintf_loop ::
  "addr \<Rightarrow> fmt_state \<Rightarrow> addr \<Rightarrow> uint32_t list \<Rightarrow> memory \<Rightarrow> memory text_result" where
  "vsprintf_loop fmt st current args m =
    (let ch = m fmt
     in if ch = 0 then Some (Inr (m(current := 0)))
        else case st of
          NORMAL \<Rightarrow>
            (if ch = chr (CHR ''%'') then vsprintf_loop (fmt + 1) READ_FMT current args m
             else vsprintf_loop (fmt + 1) NORMAL (current + 1) args (m(current := ch)))
        | READ_FMT \<Rightarrow>
            Option.bind (vsprintf_directive ch current args m) (\<lambda>r. case r of
                Inl e \<Rightarrow> Some (Inl e)
              | Inr (current', args', m') \<Rightarrow> vsprintf_loop (fmt + 1) NORMAL current' args' m'))"

definition kernel_vsprintf :: "addr \<Rightarrow> addr \<Rightarrow> uint32_t list \<Rightarrow> memory \<Rightarrow> memory text_result" where
  "kernel_vsprintf buf fmt args m = vsprintf_loop fmt NORMAL buf args m"

definition kernel_sprintf :: "addr \<Rightarrow> addr \<Rightarrow> uint32_t list \<Rightarrow> memory \<Rightarrow> memory text_result" where
  "kernel_sprintf buf fmt args m = kernel_vsprintf buf fmt args m"

section \<open>What a region of memory holds\<close>

fun region :: "addr \<Rightarrow> nat \<Rightarrow> addr set" where
  "region a 0 = {}"
| "region a (Suc n) = insert a (region (a + 1) n)"

fun bytes :: "memory \<Rightarrow> addr \<Rightarrow> nat \<Rightarrow> uint8_t list" where
  "bytes m a 0 = []"
| "bytes m a (Suc n) = m a # bytes m (a + 1) n"

fun stored :: "memory \<Rightarrow> addr \<Rightarrow> uint8_t list \<Rightarrow> bool" where
  "stored m a [] = True"
| "stored m a (b # bs) = (m a = b \<and> stored m (a + 1) bs)"

definition cstr :: "memory \<Rightarrow> addr \<Rightarrow> uint8_t list \<Rightarrow> bool" where
  "cstr m a bs \<longleftrightarrow> stored m a (bs @ [0]) \<and> 0 \<notin> set bs"

lemma region_eq: "region a n = (\<lambda>i. a + of_nat i) ` {..<n}"
  by (induction n arbitrary: a)
    (simp_all add: lessThan_Suc_eq_insert_0 image_image add.assoc del: lessThan_Suc)

lemma region_append [simp]: "region a (n + k) = region a n \<union> region (a + of_nat n) k"
  by (induction n arbitrary: a) (auto simp: add.assoc)

lemma stored_append [simp]:
  "stored m a (xs @ ys) \<longleftrightarrow> stored m a xs \<and> stored m (a + of_nat (length xs)) ys"
  by (induction xs arbitrary: a) (auto simp: add.assoc)

lemma stored_cong:
  "(\<And>x. x \<in> region a (length bs) \<Longrightarrow> m' x = m x) \<Longrightarrow> stored m' a bs \<longleftrightarrow> stored m a bs"
  by (induction bs arbitrary: a) auto

lemma stored_upd [simp]:
  "x \<notin> region a (length bs) \<Longrightarrow> stored (m(x := v)) a bs \<longleftrightarrow> stored m a bs"
  by (rule stored_cong) auto

lemma stored_bytes: "stored m a bs \<longleftrightarrow> bytes m a (length bs) = bs"
  by (induction bs arbitrary: a) auto

lemma length_bytes [simp]: "length (bytes m a n) = n"
  by (induction n arbitrary: a) auto

lemma bytes_cong: "(\<And>x. x \<in> region a n \<Longrightarrow> m' x = m x) \<Longrightarrow> bytes m' a n = bytes m a n"
  by (induction n arbitrary: a) auto

lemma of_nat_addr_inj: "i < 2 ^ 32 \<Longrightarrow> j < 2 ^ 32 \<Longrightarrow> (of_nat i :: addr) = of_nat j \<longleftrightarrow> i = j"
  by (simp add: word_of_nat_eq_iff take_bit_eq_mod)

lemma past_region: "n < 2 ^ 32 \<Longrightarrow> a + of_nat n \<notin> region a n"
  by (auto simp: region_eq of_nat_addr_inj)

lemma before_region: "n < 2 ^ 32 \<Longrightarrow> a \<notin> region (a + 1) n"
proof
  assume n: "n < 2 ^ 32" and "a \<in> region (a + 1) n"
  then obtain i where i: "i < n" "a = a + 1 + of_nat i" by (auto simp: region_eq)
  then have "(of_nat (Suc i) :: addr) = 0" by (simp add: add.assoc)
  then show False using i(1) n addr_of_nat_eq_0 [of "Suc i"] by simp
qed

lemma region_disjoint:
  assumes "unat a + n \<le> unat b" and "unat b + m \<le> 2 ^ 32"
  shows "region a n \<inter> region b m = {}"
proof -
  have a: "unat (a + of_nat i) = unat a + i" if "i < n" for i
  proof -
    have "unat a + i < 2 ^ 32" using assms that by simp
    then show ?thesis by (simp add: unat_word_ariths unat_of_nat)
  qed
  have b: "unat (b + of_nat i) = unat b + i" if "i < m" for i
  proof -
    have "unat b + i < 2 ^ 32" using assms that by simp
    then show ?thesis by (simp add: unat_word_ariths unat_of_nat)
  qed
  have "a + of_nat i \<noteq> b + of_nat j" if "i < n" "j < m" for i j
  proof -
    have "unat (a + of_nat i) < unat (b + of_nat j)"
      using that assms(1) a [of i] b [of j] by simp
    then show ?thesis by auto
  qed
  then show ?thesis by (auto simp: region_eq)
qed

lemma region_apart:
  "unat a + n \<le> unat b \<and> unat b + m \<le> 2 ^ 32 \<or> unat b + m \<le> unat a \<and> unat a + n \<le> 2 ^ 32 \<Longrightarrow>
    region a n \<inter> region b m = {}"
  using region_disjoint [of a n b m] region_disjoint [of b m a n] by blast

lemma stored_snoc:
  "stored m a bs \<Longrightarrow> length bs < 2 ^ 32 \<Longrightarrow> stored (m(a + of_nat (length bs) := c)) a (bs @ [c])"
  by (simp add: past_region)

section \<open>Strings and blocks: what the routines do\<close>

lemma stored_nth: "stored m a bs \<longleftrightarrow> (\<forall>i<length bs. m (a + of_nat i) = bs ! i)"
proof (induction bs arbitrary: a)
  case (Cons b bs)
  have "(\<forall>i<Suc (length bs). m (a + of_nat i) = (b # bs) ! i) \<longleftrightarrow>
      m a = b \<and> (\<forall>i<length bs. m (a + 1 + of_nat i) = bs ! i)"
    by (auto simp: less_Suc_eq_0_disj add.assoc)
  then show ?case using Cons by simp
qed simp

lemma cstr_nth:
  assumes "cstr m a bs"
  shows "i < length bs \<Longrightarrow> m (a + of_nat i) = bs ! i" "i < length bs \<Longrightarrow> m (a + of_nat i) \<noteq> 0"
    "m (a + of_nat (length bs)) = 0"
proof -
  have s: "stored m a bs" "m (a + of_nat (length bs)) = 0" "0 \<notin> set bs"
    using assms by (auto simp: cstr_def)
  then show "m (a + of_nat (length bs)) = 0" by simp
  show i: "m (a + of_nat i) = bs ! i" if "i < length bs" using s(1) that by (simp add: stored_nth)
  show "m (a + of_nat i) \<noteq> 0" if "i < length bs" using i [OF that] s(3) that nth_mem by metis
qed

lemma cstr_Cons: "cstr m a (b # bs) \<longleftrightarrow> m a = b \<and> b \<noteq> 0 \<and> cstr m (a + 1) bs"
  by (auto simp: cstr_def)

lemma cstr_Nil: "cstr m a [] \<longleftrightarrow> m a = 0"
  by (simp add: cstr_def)

lemma cstr_drop: "cstr m a bs \<Longrightarrow> k \<le> length bs \<Longrightarrow> cstr m (a + of_nat k) (drop k bs)"
proof (induction k arbitrary: a bs)
  case (Suc k)
  then obtain b bs' where bs: "bs = b # bs'" by (cases bs) auto
  then have "cstr m (a + 1 + of_nat k) (drop k bs')" using Suc by (simp add: cstr_Cons)
  then show ?case by (simp add: bs ac_simps)
qed simp

lemma cstr_cong:
  assumes "\<And>x. x \<in> region a (Suc (length bs)) \<Longrightarrow> m' x = m x"
  shows "cstr m' a bs \<longleftrightarrow> cstr m a bs"
proof -
  have "stored m' a (bs @ [0]) \<longleftrightarrow> stored m a (bs @ [0])"
    by (rule stored_cong) (use assms in simp)
  then show ?thesis by (simp add: cstr_def)
qed

lemma strlen_loop_cstr:
  assumes "cstr m a bs" and "k \<le> length bs"
  shows "strlen_loop m a (of_nat k) = Some (of_nat (length bs))"
  using assms(2)
proof (induction "length bs - k" arbitrary: k)
  case 0
  then show ?case using cstr_nth(3) [OF assms(1)] by (subst strlen_loop.simps) simp
next
  case (Suc d)
  then have "strlen_loop m a (of_nat (Suc k)) = Some (of_nat (length bs))" by (intro Suc.hyps(1)) auto
  moreover have "m (a + of_nat k) \<noteq> 0" using cstr_nth(2) [OF assms(1)] Suc.hyps(2) by simp
  ultimately show ?case by (subst strlen_loop.simps) (simp add: add.commute)
qed

lemma strlen_cstr: "cstr m a bs \<Longrightarrow> kernel_strlen m a = Some (of_nat (length bs))"
  using strlen_loop_cstr [of m a bs 0] by (simp add: kernel_strlen_def)

lemma strcpy_cstr:
  assumes "cstr m src bs" and "region dest (Suc (length bs)) \<inter> region src (Suc (length bs)) = {}"
    and "Suc (length bs) < 2 ^ 32"
  shows "\<exists>m'. kernel_strcpy dest src m = Some m' \<and> cstr m' dest bs \<and>
    (\<forall>x. x \<notin> region dest (Suc (length bs)) \<longrightarrow> m' x = m x)"
  using assms
proof (induction bs arbitrary: dest src m)
  case Nil
  then show ?case by (subst kernel_strcpy.simps) (simp add: cstr_Nil)
next
  case (Cons b bs)
  define m1 where "m1 = m(dest := m src)"
  have b: "m src = b" "b \<noteq> 0" "cstr m (src + 1) bs" using Cons.prems(1) by (auto simp: cstr_Cons)
  have "cstr m1 (src + 1) bs \<longleftrightarrow> cstr m (src + 1) bs"
    using Cons.prems(2) by (intro cstr_cong) (auto simp: m1_def)
  moreover have "region (dest + 1) (Suc (length bs)) \<inter> region (src + 1) (Suc (length bs)) = {}"
    using Cons.prems(2) by auto
  ultimately obtain m' where m': "kernel_strcpy (dest + 1) (src + 1) m1 = Some m'" "cstr m' (dest + 1) bs"
    "\<forall>x. x \<notin> region (dest + 1) (Suc (length bs)) \<longrightarrow> m' x = m1 x"
    using Cons.IH [of m1 "src + 1" "dest + 1"] b(3) Cons.prems(3) by auto
  have "m' dest = b" using m'(3) before_region [of "Suc (length bs)" dest] Cons.prems(3) b by (simp add: m1_def)
  moreover have "kernel_strcpy dest src m = kernel_strcpy (dest + 1) (src + 1) m1"
    using b by (subst kernel_strcpy.simps) (simp add: m1_def)
  moreover have "m' x = m x" if "x \<notin> region dest (Suc (Suc (length bs)))" for x
    using m'(3) that by (auto simp: m1_def)
  ultimately show ?case using m' b by (auto simp: cstr_Cons)
qed

lemma memcpy_loop_bytes:
  assumes "region dest n \<inter> region src n = {}" and "n < 2 ^ 32"
  shows "bytes (memcpy_loop n dest src m) dest n = bytes m src n"
    and "\<forall>x. x \<notin> region dest n \<longrightarrow> memcpy_loop n dest src m x = m x"
proof -
  have "bytes (memcpy_loop n dest src m) dest n = bytes m src n \<and>
    (\<forall>x. x \<notin> region dest n \<longrightarrow> memcpy_loop n dest src m x = m x)"
    using assms
  proof (induction n arbitrary: dest src m)
    case (Suc n)
    define m1 where "m1 = m(dest := m src)"
    have m1: "m1 dest = m src" "x \<noteq> dest \<Longrightarrow> m1 x = m x" for x by (simp_all add: m1_def)
    have "bytes m1 (src + 1) n = bytes m (src + 1) n"
      using Suc.prems(1) by (intro bytes_cong) (auto simp: m1_def)
    moreover have "region (dest + 1) n \<inter> region (src + 1) n = {}" using Suc.prems(1) by auto
    moreover have "memcpy_loop (Suc n) dest src m = memcpy_loop n (dest + 1) (src + 1) m1" by (simp add: m1_def)
    ultimately show ?case
      using Suc.IH [of "dest + 1" "src + 1" m1] Suc.prems(2) before_region [of n dest] m1 by auto
  qed simp
  then show "bytes (memcpy_loop n dest src m) dest n = bytes m src n"
    and "\<forall>x. x \<notin> region dest n \<longrightarrow> memcpy_loop n dest src m x = m x" by auto
qed

lemma mem_equal_loop_bytes: "mem_equal_loop n a b m = (if bytes m a n = bytes m b n then 1 else 0)"
  by (induction n arbitrary: a b) auto

lemma memset_loop_eq: "memset_loop n dest c m = (if n = 0 then m else m(dest := c))"
  by (induction n arbitrary: m) auto

lemma str_equal_loop_cstr:
  assumes "cstr m a xs" and "cstr m b ys" and "length ys = length xs" and "length xs < 2 ^ 32"
    and "k \<le> (length xs + 1) div 2"
  shows "str_equal_loop m (of_nat k) (a + of_nat k) (b + of_nat k) =
    Some (if take ((length xs + 1) div 2 - k) (drop k xs) = take ((length xs + 1) div 2 - k) (drop k ys)
          then 1 else 0)"
  using assms(5)
proof (induction "(length xs + 1) div 2 - k" arbitrary: k)
  case 0
  have k: "k \<le> length xs" using 0 by linarith
  have "kernel_strlen m (a + of_nat k) = Some (of_nat (length xs - k))"
    using strlen_cstr [OF cstr_drop [OF assms(1) k]] by simp
  moreover have "\<not> (of_nat k :: uint32_t) < of_nat (length xs - k)"
    using 0 k assms(4) by (simp add: word_less_nat_alt unat_of_nat del: of_nat_diff)
  ultimately show ?case using 0 by (subst str_equal_loop.simps) simp
next
  case (Suc d)
  have k: "k < length xs" using Suc.hyps(2) by linarith
  have len: "kernel_strlen m (a + of_nat k) = Some (of_nat (length xs - k))"
    using strlen_cstr [OF cstr_drop [OF assms(1), of k]] k by simp
  have lt: "(of_nat k :: uint32_t) < of_nat (length xs - k)"
    using Suc.hyps(2) k assms(4) by (simp add: word_less_nat_alt unat_of_nat del: of_nat_diff)
  have ab: "m (a + of_nat k) = xs ! k" "m (b + of_nat k) = ys ! k"
    using cstr_nth(1) [OF assms(1)] cstr_nth(1) [OF assms(2)] k assms(3) by auto
  have dr: "drop k xs = xs ! k # drop (Suc k) xs" "drop k ys = ys ! k # drop (Suc k) ys"
    using k assms(3) by (simp_all add: Cons_nth_drop_Suc)
  have d: "(length xs + 1) div 2 - k = Suc d" "(length xs + 1) div 2 - Suc k = d" using Suc.hyps(2) by simp_all
  have IH: "str_equal_loop m (of_nat (Suc k)) (a + of_nat (Suc k)) (b + of_nat (Suc k)) =
    Some (if take d (drop (Suc k) xs) = take d (drop (Suc k) ys) then 1 else 0)"
    using Suc.hyps(1) [of "Suc k", unfolded d, OF refl] d(1) by simp
  then have IH': "str_equal_loop m (of_nat k + 1) (a + of_nat k + 1) (b + of_nat k + 1) =
    Some (if take d (drop (Suc k) xs) = take d (drop (Suc k) ys) then 1 else 0)"
    by (simp add: ac_simps)
  show ?case
    unfolding d dr using len lt ab IH' by (subst str_equal_loop.simps) simp
qed

section \<open>Properties\<close>

text \<open>A text of three letters at address \<open>0x100\<close> and another one at \<open>0x200\<close>, for the examples.\<close>

definition sample_mem :: memory where
  "sample_mem = (\<lambda>a. 0)(0x100 := 97, 0x101 := 98, 0x102 := 99, 0x200 := 97, 0x201 := 98, 0x202 := 120)"

lemma sample_cstr: "cstr sample_mem 0x100 [97, 98, 99]" "cstr sample_mem 0x200 [97, 98, 120]"
  by (simp_all add: cstr_def sample_mem_def)

text \<open>String copy: for a source string and a destination that do not overlap,
  \<^verbatim>\<open>kernel_strcpy\<close> returns, leaves the string with its terminator at the destination, and
  changes no other byte; \<^verbatim>\<open>kernel_strlen\<close> then returns the same length for both.\<close>

lemma string_copy_correct:
  assumes "cstr m src bs" and "region dest (Suc (length bs)) \<inter> region src (Suc (length bs)) = {}"
    and "Suc (length bs) < 2 ^ 32"
  shows "\<exists>m'. kernel_strcpy dest src m = Some m' \<and> cstr m' dest bs \<and>
    (\<forall>x. x \<notin> region dest (Suc (length bs)) \<longrightarrow> m' x = m x) \<and>
    kernel_strlen m src = Some (of_nat (length bs)) \<and> kernel_strlen m' dest = kernel_strlen m src"
  using strcpy_cstr [OF assms] strlen_cstr assms(1) by metis

lemma string_copy_correct_example:
  "\<exists>m'. kernel_strcpy 0x300 0x100 sample_mem = Some m' \<and> cstr m' 0x300 [97, 98, 99]"
proof -
  have "region 0x300 (Suc (length [97, 98, 99 :: uint8_t])) \<inter>
      region 0x100 (Suc (length [97, 98, 99 :: uint8_t])) = {}"
    by simp
  from string_copy_correct [OF sample_cstr(1) this] show ?thesis by auto
qed

text \<open>Block copy and compare: for blocks that do not overlap, \<^verbatim>\<open>kernel_memcpy\<close> makes the
  destination equal to the source, byte for byte, and changes nothing else, so that
  \<^verbatim>\<open>kernel_mem_equal\<close> answers 1 afterwards; in any memory \<^verbatim>\<open>kernel_mem_equal\<close> answers 1
  exactly for equal blocks.\<close>

lemma block_copy_equal:
  assumes "region dest (unat n) \<inter> region src (unat n) = {}"
  shows "bytes (kernel_memcpy dest src n m) dest (unat n) = bytes m src (unat n) \<and>
    (\<forall>x. x \<notin> region dest (unat n) \<longrightarrow> kernel_memcpy dest src n m x = m x) \<and>
    kernel_mem_equal dest src n (kernel_memcpy dest src n m) = 1 \<and>
    (\<forall>a b. kernel_mem_equal a b n m = 1 \<longleftrightarrow> bytes m a (unat n) = bytes m b (unat n))"
proof -
  let ?m = "memcpy_loop (unat n) dest src m"
  have lim: "unat n < 2 ^ 32" using unsigned_less [of n, where ?'a = nat] by simp
  have eq: "kernel_memcpy dest src n m = ?m" by (simp add: kernel_memcpy_def)
  note c = memcpy_loop_bytes [OF assms lim, of m]
  have "bytes ?m src (unat n) = bytes m src (unat n)" using c(2) assms by (intro bytes_cong) auto
  then show ?thesis using c by (simp add: eq kernel_mem_equal_def mem_equal_loop_bytes)
qed

lemma block_copy_equal_example:
  "kernel_mem_equal 0x300 0x100 3 (kernel_memcpy 0x300 0x100 3 sample_mem) = 1"
proof -
  have "unat (3 :: uint32_t) = Suc (Suc (Suc 0))" by simp
  then have "region 0x300 (unat (3 :: uint32_t)) \<inter> region 0x100 (unat (3 :: uint32_t)) = {}"
    by (simp only: region.simps) simp
  from block_copy_equal [OF this, of sample_mem] show ?thesis by blast
qed

text \<open>\<^verbatim>\<open>kernel_memset\<close> stores the byte at the first address only, whatever the size: its
  pointer is never advanced.\<close>

lemma memset_first_byte_only:
  "kernel_memset dest c n m = (if n = 0 then m else m(dest := c))"
  by (simp add: kernel_memset_def memset_loop_eq unat_eq_zero)

text \<open>C39. \<^verbatim>\<open>kernel_str_equal\<close> compares the lengths and only the first half of the bytes (rounded
  up): it answers 1 for two strings of equal length that differ in the second half only.\<close>

theorem str_equal_compares_half:
  assumes "cstr m a xs" and "cstr m b ys" and "length xs < 2 ^ 32" and "length ys < 2 ^ 32"
  shows "kernel_str_equal m a b = Some (if length xs = length ys \<and>
    take ((length xs + 1) div 2) xs = take ((length xs + 1) div 2) ys then 1 else 0)"
proof -
  have "(of_nat (length xs) :: uint32_t) = of_nat (length ys) \<longleftrightarrow> length xs = length ys"
    using assms(3,4) by (rule of_nat_addr_inj)
  then show ?thesis
    using strlen_cstr [OF assms(1)] strlen_cstr [OF assms(2)]
      str_equal_loop_cstr [OF assms(1,2) _ assms(3), of 0]
    by (simp add: kernel_str_equal_def)
qed

theorem str_equal_compares_half_witness: "kernel_str_equal sample_mem 0x100 0x200 = Some 1"
  using str_equal_compares_half [OF sample_cstr] by simp

end
