(* ===== verification/Tasks.thy ===== *)
theory Tasks
  imports Gdt Klib
begin

text \<open>
  Task creation, the rest of \<^verbatim>\<open>src/source/kernel/core/task.c\<close>: the task state segment, the
  fields and list nodes of a new task, and the start of the task manager. The segment is a record of
  its 26 words; \<^verbatim>\<open>kernel_memset\<close> works on bytes, so the record is laid out in memory for that
  call and read back.
\<close>

section \<open>The bytes of a task state segment\<close>

definition tss_words :: "tss_t \<Rightarrow> uint32_t list" where
  "tss_words t = [t_pre_link t, t_esp0 t, t_ss0 t, t_esp1 t, t_ss1 t, t_esp2 t, t_ss2 t, t_cr3 t,
    t_eip t, t_eflags t, t_eax t, t_ecx t, t_edx t, t_ebx t, t_esp t, t_ebp t, t_esi t, t_edi t,
    t_es t, t_cs t, t_ss t, t_ds t, t_fs t, t_gs t, t_ldt t, t_iomap t]"

definition tss_mem :: "tss_t \<Rightarrow> memory" where
  "tss_mem t a = (if unat a < 104
     then ucast (drop_bit (8 * (unat a mod 4)) (tss_words t ! (unat a div 4))) else 0)"

definition mem_tss :: "memory \<Rightarrow> tss_t" where
  "mem_tss m = \<lparr>t_pre_link = mem_word m 0, t_esp0 = mem_word m 4, t_ss0 = mem_word m 8,
    t_esp1 = mem_word m 12, t_ss1 = mem_word m 16, t_esp2 = mem_word m 20, t_ss2 = mem_word m 24,
    t_cr3 = mem_word m 28, t_eip = mem_word m 32, t_eflags = mem_word m 36, t_eax = mem_word m 40,
    t_ecx = mem_word m 44, t_edx = mem_word m 48, t_ebx = mem_word m 52, t_esp = mem_word m 56,
    t_ebp = mem_word m 60, t_esi = mem_word m 64, t_edi = mem_word m 68, t_es = mem_word m 72,
    t_cs = mem_word m 76, t_ss = mem_word m 80, t_ds = mem_word m 84, t_fs = mem_word m 88,
    t_gs = mem_word m 92, t_ldt = mem_word m 96, t_iomap = mem_word m 100\<rparr>"

definition tss_memset :: "uint8_t \<Rightarrow> uint32_t \<Rightarrow> tss_t \<Rightarrow> tss_t" where
  "tss_memset c sz t = mem_tss (kernel_memset 0 c sz (tss_mem t))"

section \<open>Operations\<close>

text \<open>Giving a task a stack pointer of its own discards whatever frames it had: it starts with an
  empty stack.\<close>

definition tss_init :: "addr \<Rightarrow> uint32_t \<Rightarrow> uint32_t \<Rightarrow> kernel \<Rightarrow> cint outcome" where
  "tss_init task entry esp s0 =
    and_then (get_alloc_desc s0) (\<lambda>sel s.
      if sint sel < 0 then Done (-1) s
      else
        let s1 = segment_desc_set sel (task + OFFSET_tss) SIZEOF_tss_t
                   (SEG_P_PRESENT OR SEG_DPL_0 OR SEG_TYPE_TSS) s;
            s2 = upd_task task (\<lambda>k. k\<lparr>tss := tss_memset 0 SIZEOF_tss_t (tss k)\<rparr>) s1;
            s3 = upd_task task (\<lambda>k. k\<lparr>tss := (tss k)\<lparr>t_eip := entry,
                   t_esp0 := esp, t_esp := esp,
                   t_ss0 := ucast KERNEL_SELECTOR_DATA, t_ss := ucast KERNEL_SELECTOR_DATA,
                   t_gs := ucast KERNEL_SELECTOR_DATA, t_fs := ucast KERNEL_SELECTOR_DATA,
                   t_ds := ucast KERNEL_SELECTOR_DATA, t_es := ucast KERNEL_SELECTOR_DATA,
                   t_cs := ucast KERNEL_SELECTOR_CODE,
                   t_eflags := EFLAGS_IF OR EFLAGS_DEFAULT\<rparr>\<rparr>)
                   (s2\<lparr>saved_kstk := (saved_kstk s2)(task := [])\<rparr>)
        in Done 0 (upd_task task (\<lambda>k. k\<lparr>tss_sel := sel\<rparr>) s3))"

definition TASK_NAME_MAX_IN_SIZE :: int where "TASK_NAME_MAX_IN_SIZE = 32"
definition TASK_TIME_SLICE_DEFAULT :: cint where "TASK_TIME_SLICE_DEFAULT = 10"

text \<open>The part of \<^verbatim>\<open>task_init\<close> after the name is accepted. The result of \<^verbatim>\<open>tss_init\<close> is
  ignored by the code.\<close>

definition task_setup :: "addr \<Rightarrow> kernel \<Rightarrow> kernel" where
  "task_setup task s =
    (let s1 = upd_task task (\<lambda>k. k\<lparr>state := TASK_CREATED, sleep_ticks := 0,
                time_ticks := TASK_TIME_SLICE_DEFAULT\<rparr>) s;
         s2 = upd_task task (\<lambda>k. k\<lparr>slice_ticks := time_ticks k\<rparr>) s1;
         h = list_node_init (wait_node task)
               (list_node_init (run_node task) (list_node_init (all_node task) (nodes s2)));
         s3 = s2\<lparr>nodes := h\<rparr>
     in if task \<noteq> idle_task s3 then
          (let s4 = enter_protected s3;
               s5 = task_set_ready task s4;
               (l, h') = list_insert_last (task_list s5) (all_node task) (nodes s5)
           in leave_protected (s5\<lparr>nodes := h', task_list := l\<rparr>))
        else s3)"

definition task_init :: "addr \<Rightarrow> addr \<Rightarrow> uint32_t \<Rightarrow> uint32_t \<Rightarrow> kernel \<Rightarrow> cint outcome" where
  "task_init task task_name entry esp s0 =
    and_then (tss_init task entry esp s0) (\<lambda>_ s.
      case kernel_strlen (mem s) task_name of
        None \<Rightarrow> Hang
      | Some task_name_length \<Rightarrow>
          if task_name_length = 0 \<or> sint task_name_length > TASK_NAME_MAX_IN_SIZE then Done (-1) s
          else (case kernel_strcpy task task_name (mem s) of
              None \<Rightarrow> Hang
            | Some m \<Rightarrow> Done 0 (task_setup task (s\<lparr>mem := m\<rparr>))))"

definition IDLE_TASK_STACK_SIZE :: uint32_t where "IDLE_TASK_STACK_SIZE = 1024"

text \<open>String literals and functions are reached through the symbol table.\<close>

definition task_manager_init :: "kernel \<Rightarrow> unit outcome" where
  "task_manager_init s0 =
    (let s1 = s0\<lparr>ready_list := list_init, task_list := list_init, sleep_list := list_init, curr_task := 0\<rparr>
     in and_then (task_init (idle_task s1) (symaddr s1 ''str_idle_task'') (symaddr s1 ''idle_task_entry'')
          (symaddr s1 ''idle_task_stack'' + IDLE_TASK_STACK_SIZE) s1) (\<lambda>_ s. Done () s))"

definition task_main_init :: "kernel \<Rightarrow> unit outcome" where
  "task_main_init s0 =
    and_then (task_init (main_task s0) (symaddr s0 ''str_main'') 0 0 s0) (\<lambda>_ s.
      let s1 = write_tr (ucast (tss_sel (tasks s (main_task s)))) s
      in Done () (s1\<lparr>curr_task := main_task s1\<rparr>))"

section \<open>What the clearing of the segment does\<close>

lemma unat_addr_small: "n < 200 \<Longrightarrow> unat (of_nat n :: addr) = n"
  by (simp add: unat_of_nat)

lemma mem_word_tss:
  assumes "i < 26"
  shows "mem_word (tss_mem t) (of_nat (4 * i)) = tss_words t ! i"
proof -
  have a: "(of_nat (4 * i) :: addr) + 1 = of_nat (4 * i + 1)" "(of_nat (4 * i) :: addr) + 2 = of_nat (4 * i + 2)"
    "(of_nat (4 * i) :: addr) + 3 = of_nat (4 * i + 3)" by simp_all
  have d: "(4 * i + k) div 4 = i" "(4 * i + k) mod 4 = k" if "k < 4" for k using that by simp_all
  have b: "tss_mem t (of_nat (4 * i + k)) = ucast (drop_bit (8 * k) (tss_words t ! i))" if "k < 4" for k
    using assms that unat_addr_small [of "4 * i + k"] d [OF that] by (simp add: tss_mem_def del: of_nat_add of_nat_mult)
  show ?thesis
    unfolding mem_word_def a using b [of 0] b [of 1] b [of 2] b [of 3] word_bytes [of "tss_words t ! i"]
    by (simp del: of_nat_add of_nat_mult)
qed

lemma tss_memset_effect:
  "tss_memset 0 SIZEOF_tss_t t = t\<lparr>t_pre_link := t_pre_link t AND NOT 0xFF\<rparr>"
proof -
  let ?m = "(tss_mem t)(0 := 0)"
  have m: "kernel_memset 0 0 SIZEOF_tss_t (tss_mem t) = ?m"
    by (simp add: kernel_memset_def memset_loop_eq SIZEOF_tss_t_def)
  have w: "mem_word ?m (of_nat (4 * i)) = tss_words t ! i" if "1 \<le> i" "i < 26" for i
  proof -
    have nz: "(of_nat (4 * i + k) :: addr) \<noteq> 0" if "k < 4" for k
      using that \<open>1 \<le> i\<close> \<open>i < 26\<close> unat_addr_small [of "4 * i + k"] by (auto simp del: of_nat_add of_nat_mult)
    have "mem_word ?m (of_nat (4 * i)) = mem_word (tss_mem t) (of_nat (4 * i))"
      using nz [of 0] nz [of 1] nz [of 2] nz [of 3] by (simp add: mem_word_def add.commute)
    then show ?thesis using mem_word_tss [OF that(2)] by simp
  qed
  have "mem_word ?m 0 = t_pre_link t AND NOT 0xFF"
  proof (rule bit_word_eqI)
    fix n :: nat assume n: "n < LENGTH(32)"
    have u: "unat (1 :: addr) = 1" "unat (2 :: addr) = 2" "unat (3 :: addr) = 3" by simp_all
    have b: "tss_mem t 1 = ucast (drop_bit 8 (t_pre_link t))" "tss_mem t 2 = ucast (drop_bit 16 (t_pre_link t))"
      "tss_mem t 3 = ucast (drop_bit 24 (t_pre_link t))"
      unfolding tss_mem_def u by (simp_all add: tss_words_def)
    have ff: "(0xFF :: uint32_t) = mask 8" by (simp add: mask_eq_exp_minus_1)
    consider "n < 8" | "8 \<le> n" "n < 16" | "16 \<le> n" "n < 24" | "24 \<le> n" by linarith
    then show "bit (mem_word ?m 0) n = bit (t_pre_link t AND NOT 0xFF) n"
      using n unfolding ff by cases (auto simp: mem_word_def b bit_simps)
  qed
  then show ?thesis
    unfolding tss_memset_def m mem_tss_def using w [of 1] w [of 2] w [of 3] w [of 4] w [of 5] w [of 6] w [of 7] w [of 8] w [of 9] w [of 10] w [of 11] w [of 12] w [of 13] w [of 14] w [of 15] w [of 16] w [of 17] w [of 18] w [of 19] w [of 20] w [of 21] w [of 22] w [of 23] w [of 24] w [of 25]
    by (simp add: tss_words_def)
qed

section \<open>The state after a successful creation\<close>

definition new_tss :: "uint32_t \<Rightarrow> uint32_t \<Rightarrow> tss_t \<Rightarrow> tss_t" where
  "new_tss entry esp t = t\<lparr>t_pre_link := t_pre_link t AND NOT 0xFF, t_eip := entry, t_esp0 := esp, t_esp := esp,
     t_ss0 := 16, t_ss := 16, t_gs := 16, t_fs := 16, t_ds := 16, t_es := 16, t_cs := 8, t_eflags := 0x202\<rparr>"

definition tss_ready :: "addr \<Rightarrow> nat \<Rightarrow> uint32_t \<Rightarrow> uint32_t \<Rightarrow> kernel \<Rightarrow> kernel" where
  "tss_ready task i entry esp s = s\<lparr>
     gdt_table := (gdt_table s)[i := make_desc (task + OFFSET_tss) 104 0x89],
     mutexes := (mutexes s)(cpu_mutex s := (mutexes s (cpu_mutex s))\<lparr>locker := 0, owner := 0\<rparr>),
     tasks := (tasks s)(task := (tasks s task)\<lparr>tss := new_tss entry esp (tss (tasks s task)), tss_sel := of_nat i * 8\<rparr>),
     saved_kstk := (saved_kstk s)(task := [])\<rparr>"

lemma tss_init_ready:
  assumes "mutex_idle (cpu_mutex s) s" and "length (gdt_table s) = 256" and "find_free 255 (gdt_table s) = Some i"
  shows "tss_init task entry esp s = Done 0 (tss_ready task i entry esp s)"
proof -
  have i: "i < 256" using find_free_Some [OF _ assms(3)] by simp
  have "unat (of_nat i * 8 :: cint) = i * 8" using i by (simp add: unat_word_ariths unat_of_nat)
  then have "sint (of_nat i * 8 :: cint) = int (i * 8)" using i by (subst sint_small) auto
  then have pos: "\<not> sint (of_nat i * 8 :: cint) < 0" by simp
  let ?s = "mutex_released (cpu_mutex s) (s\<lparr>gdt_table := (gdt_table s)[i := (gdt_table s ! i)\<lparr>attr := SEG_P_PRESENT\<rparr>]\<rparr>)"
  have al: "get_alloc_desc s = Done (of_nat i * 8) ?s"
    using get_alloc_desc_free [OF assms(1)] assms(3) by simp
  have sd: "segment_desc_set (of_nat i * 8) b l at ?s = ?s\<lparr>gdt_table := (gdt_table s)[i := make_desc b l at]\<rparr>" for b l at
    using segment_desc_set_in [of i ?s b l at] i assms(2)
    by (simp add: SIZEOF_segment_desc_t_def mutex_released_def upd_mutex_def)
  have fl: "EFLAGS_IF OR EFLAGS_DEFAULT = 0x202" "SEG_P_PRESENT OR SEG_DPL_0 OR SEG_TYPE_TSS = 0x89"
    "ucast KERNEL_SELECTOR_DATA = (16 :: uint32_t)" "ucast KERNEL_SELECTOR_CODE = (8 :: uint32_t)"
    by (simp_all add: EFLAGS_IF_def EFLAGS_DEFAULT_def seg_flags KERNEL_SELECTOR_DATA_def KERNEL_SELECTOR_CODE_def)
  show ?thesis
    unfolding tss_init_def al and_then.simps tss_memset_effect sd fl
    using pos by (simp add: tss_ready_def new_tss_def mutex_released_def upd_mutex_def upd_task_def SIZEOF_tss_t_def Let_def)
qed

lemma task_init_ready:
  assumes "mutex_idle (cpu_mutex s) s" and "length (gdt_table s) = 256" and "find_free 255 (gdt_table s) = Some i"
    and "cstr (mem s) name bs" and "bs \<noteq> []" and "length bs \<le> 32"
    and "region task (Suc (length bs)) \<inter> region name (Suc (length bs)) = {}"
  shows "\<exists>m. task_init task name entry esp s = Done 0 (task_setup task (tss_ready task i entry esp s\<lparr>mem := m\<rparr>)) \<and>
    cstr m task bs \<and> (\<forall>x. x \<notin> region task (Suc (length bs)) \<longrightarrow> m x = mem s x)"
proof -
  let ?s = "tss_ready task i entry esp s"
  have m: "mem ?s = mem s" by (simp add: tss_ready_def)
  have len: "kernel_strlen (mem s) name = Some (of_nat (length bs))" using assms(4) by (rule strlen_cstr)
  have "unat (of_nat (length bs) :: cint) = length bs" using assms(6) by (intro unat_addr_small) simp
  then have n: "sint (of_nat (length bs) :: cint) = int (length bs)" "(of_nat (length bs) :: cint) \<noteq> 0"
    using assms(5,6) sint_small [of "of_nat (length bs)"] addr_of_nat_eq_0 [of "length bs"] by auto
  obtain m' where "kernel_strcpy task name (mem s) = Some m'" "cstr m' task bs"
    "\<forall>x. x \<notin> region task (Suc (length bs)) \<longrightarrow> m' x = mem s x"
    using strcpy_cstr [OF assms(4,7)] assms(6) by auto
  then show ?thesis
    unfolding task_init_def tss_init_ready [OF assms(1-3)] and_then.simps m
    using len n assms(6) by (intro exI [of _ m']) (simp add: TASK_NAME_MAX_IN_SIZE_def)
qed

section \<open>Creation and the queues\<close>

lemma qrel_more_tasks: "qrel T q s \<Longrightarrow> T \<subseteq> T' \<Longrightarrow> tasks_sep T' \<Longrightarrow> qrel T' q s"
  unfolding qrel_def by blast

text \<open>Initialising the nodes of a task that is on no list.\<close>

definition init_nodes :: "addr \<Rightarrow> node_heap \<Rightarrow> node_heap" where
  "init_nodes t h = list_node_init (wait_node t) (list_node_init (run_node t) (list_node_init (all_node t) h))"

lemma init_nodes_other:
  "n \<noteq> run_node t \<Longrightarrow> n \<noteq> all_node t \<Longrightarrow> n \<noteq> wait_node t \<Longrightarrow> init_nodes t h n = h n"
  by (simp add: init_nodes_def list_node_init_def)

lemma qrel_init_nodes:
  assumes q: "qrel T q s" and t: "t \<in> T" "\<And>i. t \<notin> qset q i"
  shows "qrel T q (s\<lparr>nodes := init_nodes t (nodes s)\<rparr>)"
proof -
  have "dll (hdr i s) (init_nodes t (nodes s)) (map (node_of i) xs) \<longleftrightarrow> dll (hdr i s) (nodes s) (map (node_of i) xs)"
    if i: "q i = Some xs" for i xs
  proof (rule dll_cong)
    fix n assume "n \<in> set (map (node_of i) xs)"
    then obtain u where u: "u \<in> set xs" "n = node_of i u" by auto
    have T: "tasks_sep T" "u \<in> T" using q qrel_sub [OF q i] u(1) qrel_sep by auto
    have "u \<noteq> t" using t(2) [of i] i u(1) by (auto simp: qset_Some)
    then have "n \<noteq> run_node t \<and> n \<noteq> all_node t \<and> n \<noteq> wait_node t"
      using u(2) node_kinds_differ [OF T t(1)] node_kinds_differ [OF T(1) t(1) T(2)] by (cases i) auto
    then show "init_nodes t (nodes s) n = nodes s n" by (simp add: init_nodes_other)
  qed
  then show ?thesis using q unfolding qrel_def by simp
qed

section \<open>Creation and the invariant\<close>

text \<open>The part of the invariant that holds from the first task on, before any task runs.\<close>

definition tasks_inv :: "addr set \<Rightarrow> queues \<Rightarrow> kernel \<Rightarrow> bool" where
  "tasks_inv T q s \<longleftrightarrow> qrel T q s \<and> ticks_ok q s \<and> \<not> fault s \<and> length (gdt_table s) = 256 \<and>
     (\<forall>u\<in>T. sel_ok s u) \<and> (\<forall>u\<in>T. is_busy s u \<longleftrightarrow> u = curr_task s) \<and>
     (\<forall>u\<in>T. u \<noteq> curr_task s \<longrightarrow> susp_ok s u)"

definition sel_free :: "nat \<Rightarrow> kernel \<Rightarrow> bool" where
  "sel_free i s \<longleftrightarrow> i < 256 \<and> attr (gdt_table s ! i) = 0"

lemma sel_index_desc:
  assumes "i < 256"
  shows "sel_index (ucast (of_nat i * 8 :: cint)) = i"
proof -
  have "unat (of_nat i * 8 :: cint) = i * 8" using assms by (simp add: unat_word_ariths unat_of_nat)
  moreover have "unat (ucast (w :: cint) :: uint16_t) = unat w" if "unat w < 2 ^ 16" for w
    using that by (simp add: unsigned_ucast_eq take_bit_nat_eq_self)
  ultimately have "unat (ucast (of_nat i * 8 :: cint) :: uint16_t) = i * 8" using assms by simp
  then show ?thesis by (simp add: sel_index_def drop_bit_eq_div unat_div)
qed

lemma new_desc: "is_tss_desc (make_desc a 104 0x89)" "\<not> tss_busy (make_desc a 104 0x89)"
  by (simp_all add: is_tss_desc_def tss_busy_def make_desc_def)

lemma sel_ok_ready:
  assumes "length (gdt_table s) = 256" and "sel_free i s"
  shows "sel_ok (tss_ready t i e p s) t"
    and "\<not> is_busy (tss_ready t i e p s) t"
    and "u \<noteq> t \<Longrightarrow> sel_ok s u \<Longrightarrow> sel_ok (tss_ready t i e p s) u \<and> is_busy (tss_ready t i e p s) u = is_busy s u"
proof -
  have i: "i < 256" using assms(2) by (simp add: sel_free_def)
  show "sel_ok (tss_ready t i e p s) t"
    using assms i by (simp add: sel_ok_def tss_ready_def sel_index_desc new_desc)
  show "\<not> is_busy (tss_ready t i e p s) t"
    using assms i by (simp add: is_busy_def tss_ready_def sel_index_desc new_desc)
  show "sel_ok (tss_ready t i e p s) u \<and> is_busy (tss_ready t i e p s) u = is_busy s u" if u: "u \<noteq> t" "sel_ok s u"
  proof -
    have "sel_index (ucast (tss_sel (tasks s u))) \<noteq> i"
      using u(2) assms(2) by (auto simp: sel_ok_def sel_free_def is_tss_desc_def)
    then show ?thesis using u by (simp add: sel_ok_def is_busy_def tss_ready_def)
  qed
qed

text \<open>The state after \<^verbatim>\<open>task_setup\<close>, field by field.\<close>

definition setup_task :: "task_t \<Rightarrow> task_t" where
  "setup_task k = k\<lparr>state := TASK_CREATED, sleep_ticks := 0, time_ticks := 10, slice_ticks := 10\<rparr>"

lemma task_setup_idle:
  "task_setup (idle_task s) s = (upd_task (idle_task s) setup_task s)\<lparr>nodes := init_nodes (idle_task s) (nodes s)\<rparr>"
  by (simp add: task_setup_def setup_task_def init_nodes_def upd_task_def idle_task_def TASK_TIME_SLICE_DEFAULT_def Let_def)

lemma task_setup_other:
  assumes "t \<noteq> idle_task s"
  shows "task_setup t s = (let s1 = (upd_task t setup_task s)\<lparr>nodes := init_nodes t (nodes s)\<rparr>;
      s2 = task_set_ready t (enter_protected s1);
      (l, h) = list_insert_last (task_list s2) (all_node t) (nodes s2)
    in leave_protected (s2\<lparr>nodes := h, task_list := l\<rparr>))"
proof -
  have "upd_task t (\<lambda>k. k\<lparr>slice_ticks := time_ticks k\<rparr>)
      (upd_task t (\<lambda>k. k\<lparr>state := TASK_CREATED, sleep_ticks := 0, time_ticks := TASK_TIME_SLICE_DEFAULT\<rparr>) s) =
      upd_task t setup_task s"
    by (simp add: upd_task_def setup_task_def TASK_TIME_SLICE_DEFAULT_def)
  then show ?thesis
    using assms by (simp add: task_setup_def init_nodes_def Let_def upd_task_def idle_task_def)
qed

lemma task_setup_frame:
  "u \<noteq> t \<Longrightarrow> tasks (task_setup t s) u = tasks s u"
  "tss (tasks (task_setup t s) t) = tss (tasks s t)" "tss_sel (tasks (task_setup t s) t) = tss_sel (tasks s t)"
  "slice_ticks (tasks (task_setup t s) t) = 10" "time_ticks (tasks (task_setup t s) t) = 10"
  "gdt_table (task_setup t s) = gdt_table s" "saved_kstk (task_setup t s) = saved_kstk s"
  "fault (task_setup t s) = fault s" "curr_task (task_setup t s) = curr_task s" "symaddr (task_setup t s) = symaddr s"
  "tr (task_setup t s) = tr s" "sems (task_setup t s) = sems s" "mutexes (task_setup t s) = mutexes s"
  "sleep_list (task_setup t s) = sleep_list s" "mem (task_setup t s) = mem s"
  by (cases "t = idle_task s"; simp add: task_setup_idle task_setup_other Let_def setup_task_def split: prod.split;
    simp add: upd_task_def)+

lemma task_setup_cpu:
  "kstk (task_setup t s) = kstk s" "eflags (task_setup t s) = eflags s"
proof -
  have e: "kstk (leave_protected s') = tl (kstk s')" "eflags (leave_protected s') = (case kstk s' of [] \<Rightarrow> eflags s' | e # es \<Rightarrow> e)"
    for s' by (simp_all add: protection_defs split: list.split)
  show "kstk (task_setup t s) = kstk s" "eflags (task_setup t s) = eflags s"
    by (cases "t = idle_task s"; simp add: task_setup_idle task_setup_other e Let_def split: prod.split;
      simp add: upd_task_def)+
qed

lemma task_setup_qrel:
  assumes q: "qrel T q s" and t: "t \<in> T" "\<And>i. t \<notin> qset q i" "t \<noteq> idle_task s"
    and R: "q LReady = Some R" and A: "q LAll = Some A"
  shows "qrel T (q(LReady \<mapsto> R @ [t], LAll \<mapsto> A @ [t])) (task_setup t s)"
proof -
  let ?s1 = "(upd_task t setup_task s)\<lparr>nodes := init_nodes t (nodes s)\<rparr>"
  let ?s2 = "task_set_ready t (enter_protected ?s1)" and ?q = "q(LReady \<mapsto> R @ [t])"
  obtain l h where lh: "list_insert_last (task_list ?s2) (all_node t) (nodes ?s2) = (l, h)" by fastforce
  have "qrel T q (upd_task t setup_task s)" using q by simp
  from qrel_init_nodes [OF this t(1,2)] have "qrel T q ?s1" by (simp add: upd_task_def)
  then have "qrel T ?q ?s2"
    using R t(1,2) by (intro task_set_ready_qrel) (auto simp: qfree_def)
  then have "qrel T (?q(LAll \<mapsto> A @ [t])) (set_hdr LAll l (?s2\<lparr>nodes := h\<rparr>))"
    using A t lh by (intro qrel_insert_last) (auto simp: qfree_def)
  then show ?thesis
    using lh t(3) by (simp add: task_setup_other Let_def)
qed

lemma task_setup_idle_qrel:
  assumes q: "qrel T q s" and t: "idle_task s \<in> T" "\<And>i. idle_task s \<notin> qset q i"
  shows "qrel T q (task_setup (idle_task s) s)"
proof -
  have "qrel T q (upd_task (idle_task s) setup_task s)" using q by simp
  from qrel_init_nodes [OF this t] show ?thesis by (simp add: task_setup_idle upd_task_def)
qed

text \<open>Everything a creation needs: a descriptor, the descriptor mutex, a proper name.\<close>

definition can_create :: "addr \<Rightarrow> addr \<Rightarrow> uint8_t list \<Rightarrow> kernel \<Rightarrow> bool" where
  "can_create t name bs s \<longleftrightarrow> mutex_idle (cpu_mutex s) s \<and> find_free 255 (gdt_table s) \<noteq> None \<and>
     cstr (mem s) name bs \<and> bs \<noteq> [] \<and> length bs \<le> 32 \<and>
     region t (Suc (length bs)) \<inter> region name (Suc (length bs)) = {}"

definition q_create :: "addr \<Rightarrow> kernel \<Rightarrow> queues \<Rightarrow> queues" where
  "q_create t s q = (if t = idle_task s then q
     else q(LReady \<mapsto> the (q LReady) @ [t], LAll \<mapsto> the (q LAll) @ [t]))"

text \<open>What a creation leaves alone, apart from the new task, its descriptor and its name.\<close>

definition create_frame :: "addr \<Rightarrow> nat \<Rightarrow> kernel \<Rightarrow> kernel \<Rightarrow> bool" where
  "create_frame t n s s' \<longleftrightarrow> curr_task s' = curr_task s \<and> symaddr s' = symaddr s \<and> tr s' = tr s \<and>
     kstk s' = kstk s \<and> eflags s' = eflags s \<and> sems s' = sems s \<and> sleep_list s' = sleep_list s \<and>
     (\<forall>p. p \<noteq> cpu_mutex s \<longrightarrow> mutexes s' p = mutexes s p) \<and> mutex_idle (cpu_mutex s) s' \<and>
     mutex_wait_list (mutexes s' (cpu_mutex s)) = mutex_wait_list (mutexes s (cpu_mutex s)) \<and>
     (\<forall>u. u \<noteq> t \<longrightarrow> tasks s' u = tasks s u) \<and> (\<forall>x. x \<notin> region t n \<longrightarrow> mem s' x = mem s x) \<and>
     (\<exists>i. find_free 255 (gdt_table s) = Some i \<and> tss_sel (tasks s' t) = of_nat (8 * i) \<and>
        gdt_table s' = (gdt_table s)[i := make_desc (t + OFFSET_tss) 104 0x89])"

lemma idle_task_sym: "symaddr s' = symaddr s \<Longrightarrow> idle_task s' = idle_task s"
  by (simp add: idle_task_def)

lemma tss_ready_frame:
  "symaddr (tss_ready t i e p s) = symaddr s" "curr_task (tss_ready t i e p s) = curr_task s"
  "fault (tss_ready t i e p s) = fault s" "tr (tss_ready t i e p s) = tr s" "sems (tss_ready t i e p s) = sems s"
  "kstk (tss_ready t i e p s) = kstk s" "eflags (tss_ready t i e p s) = eflags s"
  "sleep_list (tss_ready t i e p s) = sleep_list s" "u \<noteq> t \<Longrightarrow> tasks (tss_ready t i e p s) u = tasks s u"
  by (simp_all add: tss_ready_def)

lemma qrel_tss_ready: "qrel T q (tss_ready t i e p s) \<longleftrightarrow> qrel T q s"
proof -
  have "hdr j (tss_ready t i e p s) = hdr j s" for j by (cases j) (auto simp: tss_ready_def)
  then show ?thesis by (intro qrel_cong) (simp_all add: tss_ready_def)
qed

lemma create_frame_holds:
  assumes "find_free 255 (gdt_table s) = Some i" and "mutex_idle (cpu_mutex s) s"
    and "\<forall>x. x \<notin> region t n \<longrightarrow> m x = mem s x"
  shows "create_frame t n s (task_setup t (tss_ready t i e p s\<lparr>mem := m\<rparr>))"
proof -
  have "(of_nat i * 8 :: cint) = of_nat (8 * i)" by simp
  then show ?thesis
    using assms
    by (auto simp: create_frame_def task_setup_frame task_setup_cpu tss_ready_frame mutex_idle_def)
      (simp_all add: tss_ready_def mutex_idle_def)
qed

lemma ticks_create:
  assumes "ticks_ok q s" and "\<And>i. t \<notin> qset q i" and "create_frame t n s s'"
    and "slice_ticks (tasks s' t) = 10" "time_ticks (tasks s' t) = 10" and "q LAll \<noteq> None"
  shows "ticks_ok (q_create t s q) s'"
proof -
  have o: "tasks s' u = tasks s u" if "u \<noteq> t" for u using assms(3) that by (simp add: create_frame_def)
  have ten: "sint (10 :: cint) = 10" by simp
  have S: "qset (q_create t s q) LSleep = qset q LSleep" by (simp add: q_create_def)
  have A: "u \<in> qset (q_create t s q) LAll \<Longrightarrow> u = t \<or> u \<in> qset q LAll" for u
    using assms(6) by (auto simp: q_create_def qset_Some split: if_splits)
  have "u \<noteq> t" if "u \<in> qset q i" for u i using assms(2) that by auto
  then show ?thesis
    using assms(1,4,5) o A unfolding ticks_ok_def S
    by (fastforce simp: ten)
qed

lemma create_tasks_inv:
  assumes inv: "tasks_inv T q s" and t: "t \<notin> T" "tasks_sep (insert t T)" "t \<noteq> curr_task s"
    and can: "can_create t name bs s" and q: "q LReady \<noteq> None" "q LAll \<noteq> None"
  shows "\<exists>s'. task_init t name e p s = Done 0 s' \<and> tasks_inv (insert t T) (q_create t s q) s' \<and>
    create_frame t (Suc (length bs)) s s' \<and> cstr (mem s') t bs \<and>
    slice_ticks (tasks s' t) = 10 \<and> time_ticks (tasks s' t) = 10 \<and> tss (tasks s' t) = new_tss e p (tss (tasks s t))"
proof -
  obtain i where i: "find_free 255 (gdt_table s) = Some i" using can by (auto simp: can_create_def)
  have gdt: "length (gdt_table s) = 256" using inv by (simp add: tasks_inv_def)
  have free: "sel_free i s" using find_free_Some [OF _ i] by (simp add: sel_free_def)
  from task_init_ready [OF _ gdt i, of name bs t e p] can obtain m where
    m: "task_init t name e p s = Done 0 (task_setup t (tss_ready t i e p s\<lparr>mem := m\<rparr>))" "cstr m t bs"
    "\<forall>x. x \<notin> region t (Suc (length bs)) \<longrightarrow> m x = mem s x"
    unfolding can_create_def by auto
  let ?s1 = "tss_ready t i e p s\<lparr>mem := m\<rparr>"
  let ?s' = "task_setup t ?s1"
  have idle: "idle_task ?s1 = idle_task s" by (rule idle_task_sym) (simp add: tss_ready_frame)
  have fr: "create_frame t (Suc (length bs)) s ?s'"
    using create_frame_holds [OF i _ m(3)] can by (simp add: can_create_def)
  have qs: "t \<notin> qset q j" for j using inv t(1) qrel_qset_sub by (fastforce simp: tasks_inv_def)
  have rel: "qrel (insert t T) q ?s1"
    using inv t(2) qrel_more_tasks [of T q s] by (auto simp: tasks_inv_def qrel_tss_ready)
  have "qrel (insert t T) (q_create t s q) ?s'"
    using task_setup_qrel [OF rel _ qs] task_setup_idle_qrel [OF rel] idle qs q
    by (cases "t = idle_task s") (auto simp: q_create_def)
  moreover have "sel_ok ?s' u \<and> (is_busy ?s' u \<longleftrightarrow> u = curr_task ?s')" if "u \<in> insert t T" for u
  proof -
    have "sel_ok ?s' u \<longleftrightarrow> sel_ok (tss_ready t i e p s) u" "is_busy ?s' u \<longleftrightarrow> is_busy (tss_ready t i e p s) u"
      by (cases "u = t"; simp add: sel_ok_def is_busy_def task_setup_frame)+
    moreover have "curr_task ?s' = curr_task s" by (simp add: task_setup_frame tss_ready_frame)
    ultimately show ?thesis using that sel_ok_ready [OF gdt free] inv t(3) by (cases "u = t") (auto simp: tasks_inv_def)
  qed
  moreover have "susp_ok ?s' u" if "u \<in> insert t T" "u \<noteq> curr_task ?s'" for u
  proof (cases "u = t")
    case True
    have "saved_kstk ?s' t = []" "t_eflags (tss (tasks ?s' t)) = 0x202"
      by (simp_all add: task_setup_frame) (simp_all add: tss_ready_def new_tss_def)
    then show ?thesis using True by (simp add: susp_ok_def if_set_def bit_simps)
  next
    case False
    then have "susp_ok s u" using inv that by (simp add: tasks_inv_def task_setup_frame tss_ready_frame)
    moreover have "saved_kstk ?s' u = saved_kstk s u" "tasks ?s' u = tasks s u"
      using False by (simp_all add: task_setup_frame tss_ready_frame) (simp add: tss_ready_def)
    ultimately show ?thesis by (simp only: susp_ok_def)
  qed
  moreover have "slice_ticks (tasks ?s' t) = 10" "time_ticks (tasks ?s' t) = 10" by (simp_all add: task_setup_frame)
  moreover have "ticks_ok (q_create t s q) ?s'"
    using inv qs fr q(2) calculation(4,5) by (intro ticks_create) (auto simp: tasks_inv_def)
  moreover have "\<not> fault ?s'" "length (gdt_table ?s') = 256"
    using inv gdt by (simp_all add: tasks_inv_def task_setup_frame tss_ready_frame) (simp add: tss_ready_def)
  moreover have "tss (tasks ?s' t) = new_tss e p (tss (tasks s t))"
    by (simp add: task_setup_frame) (simp add: tss_ready_def)
  ultimately show ?thesis using m fr by (simp add: tasks_inv_def task_setup_frame)
qed

section \<open>Creation by a running task\<close>

lemma kinv_tasks_inv: "kinv T q s \<Longrightarrow> length (gdt_table s) = 256 \<Longrightarrow> tasks_inv T q s"
  by (auto simp: kinv_def kstatic_def cpu_inv_def tasks_inv_def)

lemma located_create:
  assumes "located q" and "q LReady = Some R" and "q LAll = Some A"
  shows "located (q(LReady \<mapsto> R @ [t], LAll \<mapsto> A @ [t]))"
proof -
  let ?q = "q(LReady \<mapsto> R @ [t], LAll \<mapsto> A @ [t])"
  have qs: "qset ?q LAll = insert t (qset q LAll)" "qset ?q LReady = insert t (qset q LReady)"
    "i \<noteq> LAll \<Longrightarrow> i \<noteq> LReady \<Longrightarrow> qset ?q i = qset q i" for i
    using assms(2,3) by (auto simp: qset_Some)
  have "(\<exists>i. i \<noteq> LAll \<and> u \<in> qset ?q i) \<longleftrightarrow> u = t \<or> (\<exists>i. i \<noteq> LAll \<and> u \<in> qset q i)" for u
    using qs by (metis insert_iff lid.distinct(3))
  then show ?thesis using assms(1) qs(1) by (auto simp: located_def)
qed

text \<open>From the tasks to the running system: some task of the ready list's head runs.\<close>

lemma tasks_inv_kinv:
  assumes "tasks_inv T q s" and "located q" and "T = insert (idle_task s) (qset q LAll)"
    and "idle_task s \<notin> qset q LAll" and "q LReady \<noteq> None" "q LSleep \<noteq> None" "q LAll \<noteq> None"
    and "ready q \<noteq> []" "curr_task s = hd (ready q)" and "at_user s"
    and "tr s = ucast (tss_sel (tasks s (curr_task s)))"
  shows "kinv T q s"
proof -
  have "q LReady = Some (ready q)" using assms(5) by (auto simp: ready_def)
  then have "curr_task s \<in> T"
    using assms(1,8,9) qrel_sub [of T q s LReady "ready q"] by (auto simp: tasks_inv_def)
  then have "cpu_inv T s" using assms by (auto simp: tasks_inv_def cpu_inv_def)
  then have "kstatic T q s" using assms by (simp add: kstatic_def tasks_inv_def)
  then show ?thesis using assms by (simp add: kinv_def hd_or_hd)
qed

lemma create_kinv:
  assumes inv: "kinv T q s" and gdt: "length (gdt_table s) = 256" and t: "t \<notin> T" "tasks_sep (insert t T)"
    and can: "can_create t name bs s" and run: "ready q \<noteq> []"
  shows "\<exists>s'. task_init t name e p s = Done 0 s' \<and>
    kinv (insert t T) (q(LReady \<mapsto> ready q @ [t], LAll \<mapsto> the (q LAll) @ [t])) s' \<and>
    create_frame t (Suc (length bs)) s s' \<and> cstr (mem s') t bs \<and>
    slice_ticks (tasks s' t) = 10 \<and> time_ticks (tasks s' t) = 10 \<and> tss (tasks s' t) = new_tss e p (tss (tasks s t))"
proof -
  have ks: "kstatic T q s" "located q" "at_user s" "curr_task s = hd (ready q)"
    using inv run by (auto simp: kinv_def hd_or_hd)
  have k: "q LReady = Some (ready q)" "q LSleep \<noteq> None" "q LAll \<noteq> None" "curr_task s \<in> T"
    "idle_task s \<in> T" "idle_task s \<notin> qset q LAll" "T = insert (idle_task s) (qset q LAll)"
    "tr s = ucast (tss_sel (tasks s (curr_task s)))"
    using ks(1) kstatic_ready [OF ks(1)] unfolding kstatic_def cpu_inv_def by blast+
  have ti: "t \<noteq> curr_task s" "t \<noteq> idle_task s" using t(1) k(4,5) by auto
  let ?q = "q(LReady \<mapsto> ready q @ [t], LAll \<mapsto> the (q LAll) @ [t])"
  have qc: "q_create t s q = ?q" using ti(2) k(1) by (simp add: q_create_def)
  from create_tasks_inv [OF kinv_tasks_inv [OF inv gdt] t ti(1) can, of e p] obtain s' where
    s': "task_init t name e p s = Done 0 s'" "tasks_inv (insert t T) ?q s'"
    "create_frame t (Suc (length bs)) s s'" "cstr (mem s') t bs"
    "slice_ticks (tasks s' t) = 10" "time_ticks (tasks s' t) = 10" "tss (tasks s' t) = new_tss e p (tss (tasks s t))"
    using k(1,3) unfolding qc by auto
  have fr: "curr_task s' = curr_task s" "idle_task s' = idle_task s" "at_user s' = at_user s" "tr s' = tr s"
    "tasks s' (curr_task s) = tasks s (curr_task s)"
    using s'(3) ti(1) by (simp_all add: create_frame_def at_user_def idle_task_def)
  obtain A where A: "q LAll = Some A" using k(3) by auto
  have "kinv (insert t T) ?q s'"
  proof (rule tasks_inv_kinv [OF s'(2)])
    show "located ?q" using located_create [OF ks(2) k(1) A] A by simp
    show "insert t T = insert (idle_task s') (qset ?q LAll)" using k(7) A fr(2) by (auto simp: qset_Some)
    show "idle_task s' \<notin> qset ?q LAll" using k(6) A fr(2) ti(2) by (auto simp: qset_Some)
    show "at_user s'" "tr s' = ucast (tss_sel (tasks s' (curr_task s')))" using ks(3) fr k(8) by simp_all
    show "curr_task s' = hd (ready ?q)" using ks(4) fr(1) run by (simp add: ready_def)
  qed (use k in \<open>auto simp: ready_def\<close>)
  with s' show ?thesis by blast
qed

end
