(* ===== verification/Timer.thy ===== *)
theory Timer
  imports Irq Sched_Inv
begin

text \<open>
  The clock of \<^verbatim>\<open>src/source/kernel/dev/timer.c\<close>: programming the 8253 timer, and the
  handler of its interrupt. The interrupt enters through an interrupt gate, which saves the flags
  and clears the interrupt flag, and leaves through \<^verbatim>\<open>iret\<close>, which restores them; on the
  model's stack that is a protected region around the handler.
\<close>

section \<open>Operations\<close>

definition do_handler_timer :: "kernel \<Rightarrow> kernel option" where
  "do_handler_timer s =
    (let s1 = s\<lparr>sys_tick := sys_tick s + 1\<rparr>;
         s2 = pic_send_eoi IRQ0_TIMER s1
     in task_time_tick s2)"

definition timer_interrupt :: "kernel \<Rightarrow> kernel option" where
  "timer_interrupt s = map_option leave_protected (do_handler_timer (enter_protected s))"

definition PIT_OSC_FREQ :: uint32_t where "PIT_OSC_FREQ = 1193182"
definition PIT_CHANNEL0_DATA_PORT :: uint16_t where "PIT_CHANNEL0_DATA_PORT = 0x40"
definition PIT_COMMAND_MODE_PORT :: uint16_t where "PIT_COMMAND_MODE_PORT = 0x43"
definition PIT_CHANNLE0 :: uint8_t where "PIT_CHANNLE0 = push_bit 6 0"
definition PIT_LOAD_LOHI :: uint8_t where "PIT_LOAD_LOHI = push_bit 4 3"
definition PIT_MODE3 :: uint8_t where "PIT_MODE3 = push_bit 1 3"

definition init_pit :: "kernel \<Rightarrow> kernel" where
  "init_pit s0 =
    (let reload_count = PIT_OSC_FREQ * OS_TICKS_MS div 1000;
         s1 = outb PIT_COMMAND_MODE_PORT (PIT_CHANNLE0 OR PIT_LOAD_LOHI OR PIT_MODE3) s0;
         s2 = outb PIT_CHANNEL0_DATA_PORT (ucast (reload_count AND 0xFF)) s1;
         s3 = outb PIT_CHANNEL0_DATA_PORT (ucast (drop_bit 8 reload_count AND 0xFF)) s2;
         s4 = irq_install IRQ0_TIMER (symaddr s3 ''exception_handler_timer'') s3
     in irq_enable IRQ0_TIMER s4)"

definition timer_init :: "kernel \<Rightarrow> kernel" where
  "timer_init s = init_pit (s\<lparr>sys_tick := 0\<rparr>)"

section \<open>The tick\<close>

lemma pic_send_eoi_simp: "pic_send_eoi n s = s\<lparr>io := io (pic_send_eoi n s)\<rparr>"
  by (simp add: pic_send_eoi_def outb_def Let_def)

text \<open>The handler's own writes touch neither the queues nor the tasks.\<close>

lemma kstatic_tick_io: "kstatic T q (s\<lparr>sys_tick := n, io := es\<rparr>) \<longleftrightarrow> kstatic T q s"
proof -
  have "cpu_inv T (s\<lparr>sys_tick := n, io := es\<rparr>) \<longleftrightarrow> cpu_inv T s"
    by (auto intro: cpu_inv_cong)
  then show ?thesis by (simp add: kstatic_def ticks_ok_def idle_task_def)
qed

lemma q_tick_cong:
  "(\<And>t. sleep_ticks (tasks s' t) = sleep_ticks (tasks s t)) \<Longrightarrow>
   (\<And>t. slice_ticks (tasks s' t) = slice_ticks (tasks s t)) \<Longrightarrow> q_tick s' q = q_tick s q"
  by (simp add: q_tick_def slice_ends_def wakes_def [abs_def])

lemma timer_interrupt_kinv:
  assumes "kinv T q s"
  shows "\<exists>s'. timer_interrupt s = Some s' \<and> kinv T (q_tick s q) s' \<and> sems s' = sems s \<and>
    mutexes s' = mutexes s \<and> sys_tick s' = sys_tick s + 1 \<and>
    tick_counters q s (s'\<lparr>sys_tick := sys_tick s\<rparr>)"
proof -
  let ?e = "enter_protected s"
  let ?h = "?e\<lparr>sys_tick := sys_tick s + 1, io := io (pic_send_eoi IRQ0_TIMER (?e\<lparr>sys_tick := sys_tick s + 1\<rparr>))\<rparr>"
  note e = enter_kinv [OF assms]
  have h: "do_handler_timer ?e = task_time_tick ?h"
    using pic_send_eoi_simp [of IRQ0_TIMER "?e\<lparr>sys_tick := sys_tick s + 1\<rparr>"]
    by (simp add: do_handler_timer_def Let_def)
  have k: "kstatic T q ?h" using e(1) by (simp add: kstatic_tick_io)
  have "in_region ?h" "curr_task ?h = hd_or (idle_task ?h) (ready q)" "located q"
    using e(2) assms by (simp_all add: in_region_def kinv_def idle_task_def)
  from task_time_tick_kinv [OF k this(3,1,2)] obtain s' where
    s': "task_time_tick ?h = Some s'" "kinv T (q_tick ?h q) (leave_protected s')"
    "sems s' = sems ?h" "mutexes s' = mutexes ?h" "tick_counters q ?h s'"
    by blast
  have "q_tick ?h q = q_tick s q" by (rule q_tick_cong) simp_all
  then show ?thesis
    using s' h by (simp add: timer_interrupt_def tick_counters_def)
qed

lemma irq_enable_simp: "irq_enable n s = s\<lparr>io := io (irq_enable n s)\<rparr>"
  by (simp add: irq_enable_def inb_def outb_def Let_def)

definition pit_programmed :: "kernel \<Rightarrow> kernel" where
  "pit_programmed s = s\<lparr>sys_tick := 0, io := io s @ [Out 0x43 0x36, Out 0x40 0x9B, Out 0x40 0x2E],
     idt_table := (idt_table s)[32 := int_gate (symaddr s ''exception_handler_timer'')]\<rparr>"

lemma timer_init_eq:
  assumes "length (idt_table s) = 128"
  shows "timer_init s = irq_enable (of_nat (32 + 0)) (pit_programmed s)"
proof -
  let ?s3 = "s\<lparr>sys_tick := 0, io := io s @ [Out 0x43 0x36, Out 0x40 0x9B, Out 0x40 0x2E]\<rparr>"
  have "irq_install IRQ0_TIMER (symaddr s ''exception_handler_timer'') ?s3 = pit_programmed s"
    using idt_write_in [of 32 ?s3] assms
    by (simp add: irq_install_def IRQ0_TIMER_def int_gate_def pit_programmed_def)
  then show ?thesis
    by (simp add: timer_init_def init_pit_def outb_def PIT_OSC_FREQ_def OS_TICKS_MS_def
        PIT_CHANNEL0_DATA_PORT_def PIT_COMMAND_MODE_PORT_def PIT_CHANNLE0_def PIT_LOAD_LOHI_def
        PIT_MODE3_def IRQ0_TIMER_def Let_def)
qed

lemma timer_init_state:
  assumes "length (idt_table s) = 128"
  shows "\<exists>tb es. timer_init s = s\<lparr>sys_tick := 0, idt_table := tb, io := es\<rparr> \<and> length tb = 128"
  unfolding timer_init_eq [OF assms]
  using irq_enable_simp [of "of_nat (32 + 0)" "pit_programmed s"] assms
  by (intro exI [of _ "idt_table (pit_programmed s)"]
      exI [of _ "io (irq_enable (of_nat (32 + 0)) (pit_programmed s))"]) (simp add: pit_programmed_def)

section \<open>Properties\<close>

text \<open>The 16-bit count loaded into the timer's channel 0: the two data bytes, low byte first.\<close>

definition pit_reload :: "io_event list \<Rightarrow> nat" where
  "pit_reload es = (case es of [Out c m, Out d lo, Out d' hi] \<Rightarrow> unat lo + 256 * unat hi | _ \<Rightarrow> 0)"

text \<open>Clock set-up: \<^verbatim>\<open>timer_init\<close> programs channel 0 as a square wave with a count that is
  the oscillator frequency times 10 ms rounded down, installs the clock handler in vector 32, unmasks
  the timer line and no other, and resets the tick counter.\<close>

lemma timer_init_programs:
  assumes "length (idt_table s) = 128" and "imr_device s" and "n < 16"
  shows "sys_tick (timer_init s) = 0 \<and>
    (\<exists>lo hi. take 3 (drop (length (io s)) (io (timer_init s))) = [Out 0x43 0x36, Out 0x40 lo, Out 0x40 hi]) \<and>
    (let c = pit_reload (take 3 (drop (length (io s)) (io (timer_init s))))
     in 1000 * c \<le> 10 * unat PIT_OSC_FREQ \<and> 10 * unat PIT_OSC_FREQ < 1000 * (c + 1)) \<and>
    gate_offset (idt_table (timer_init s) ! 32) = symaddr s ''exception_handler_timer'' \<and>
    (masked n (timer_init s) \<longleftrightarrow> masked n s \<and> n \<noteq> 0)"
proof -
  let ?s4 = "pit_programmed s"
  note eq = timer_init_eq [OF assms(1)]
  have "masked n ?s4 \<longleftrightarrow> masked n s" "imr_device ?s4"
    using assms(2) by (simp_all add: pit_programmed_def masked_def imr_device_def last_out_def)
  then have m: "masked n (timer_init s) \<longleftrightarrow> masked n s \<and> n \<noteq> 0"
    unfolding eq using masked_enable [of ?s4 0 n] assms(3) by simp
  have out: "irq_enable (of_nat (32 + 0)) ?s4 =
      ?s4\<lparr>io := io ?s4 @ [In 0x21, Out 0x21 (clear_line 0 (dev s (io ?s4) 0x21))]\<rparr>"
    using irq_enable_alt [of 0 ?s4] by (simp add: pit_programmed_def rewrite_port_def pic_port_def inb_def outb_def)
  show ?thesis
    using m assms(1) unfolding eq out by (simp add: pit_programmed_def pit_reload_def PIT_OSC_FREQ_def int_gate_def)
qed

lemma timer_init_programs_example:
  "masked 3 (timer_init (pic_init blank_kernel)) \<and> \<not> masked 0 (timer_init (pic_init blank_kernel))"
proof -
  have d: "imr_device (pic_init blank_kernel)" "length (idt_table (pic_init blank_kernel)) = 128"
    by (simp_all add: imr_device_def pic_init_def outb_def Let_def blank_kernel_def)
  have "masked 3 (pic_init blank_kernel)"
    by (simp add: masked_def pic_init_def outb_def Let_def blank_kernel_def pic_ports last_out_def bit_simps)
  then show ?thesis
    using timer_init_programs [OF d(2,1), of 3] timer_init_programs [OF d(2,1), of 0] by simp
qed

end
