(* ===== verification/Klib_Text.thy ===== *)
theory Klib_Text
  imports Klib
begin

text \<open>
  Numbers and formatted output: what \<^verbatim>\<open>kernel_itoa\<close> and \<^verbatim>\<open>kernel_vsprintf\<close> of
  \<^verbatim>\<open>src/source/kernel/tools/klib.c\<close> leave in memory. \<open>digits\<close> and \<open>fmt_out\<close> say on plain
  lists what the text of a number and of a format is; the pointer routines are shown to write
  exactly that text.
\<close>

section \<open>Numbers as text: the digits the loop produces\<close>

function digits_rev :: "nat \<Rightarrow> nat \<Rightarrow> nat list" where
  "digits_rev b n = (if b < 2 \<or> n < b then [n] else n mod b # digits_rev b (n div b))"
  by pat_completeness auto
termination by (relation "measure snd") (auto intro: div_less_dividend)

declare digits_rev.simps [simp del]

definition digits :: "nat \<Rightarrow> nat \<Rightarrow> nat list" where
  "digits b n = rev (digits_rev b n)"

definition undigits :: "nat \<Rightarrow> nat list \<Rightarrow> nat" where
  "undigits b ds = foldl (\<lambda>v d. v * b + d) 0 ds"

lemma undigits_digits: "2 \<le> b \<Longrightarrow> undigits b (digits b n) = n"
proof (induction b n rule: digits_rev.induct)
  case (1 b n)
  then show ?case
    by (subst digits_def, subst digits_rev.simps) (auto simp: undigits_def digits_def)
qed

lemma digits_bound: "2 \<le> b \<Longrightarrow> d \<in> set (digits b n) \<Longrightarrow> d < b"
proof (induction b n rule: digits_rev.induct)
  case (1 b n)
  then show ?case by (subst (asm) digits_def, subst (asm) digits_rev.simps) (auto simp: digits_def split: if_splits)
qed

lemma length_digits: "2 \<le> b \<Longrightarrow> n < 2 ^ k \<Longrightarrow> 1 \<le> k \<Longrightarrow> length (digits_rev b n) \<le> k"
proof (induction b n arbitrary: k rule: digits_rev.induct)
  case (1 b n)
  show ?case
  proof (cases "n < b")
    case True
    then show ?thesis using 1 by (subst digits_rev.simps) simp
  next
    case False
    then have "2 ^ 1 < (2 :: nat) ^ k \<or> 2 = (2 :: nat) ^ k" using 1(2,3) by auto
    then have k: "2 \<le> k"
      using 1(2,3) False power_strict_increasing_iff [of "2 :: nat" 1 k] by (cases "k = 1") auto
    have "n div b \<le> n div 2" using 1(2) by (intro div_le_mono2) auto
    also have "\<dots> < 2 ^ (k - 1)" using 1(3) k by (cases k) auto
    finally have "length (digits_rev b (n div b)) \<le> k - 1" using 1 False k by simp
    then show ?thesis using False 1(2) k by (subst digits_rev.simps) simp
  qed
qed

lemma int_trunc:
  assumes "2 \<le> (b :: int)"
  shows "nat (if 0 < n then n smod b else - (n smod b)) = nat \<bar>n\<bar> mod nat b"
    and "nat \<bar>n sdiv b\<bar> = nat \<bar>n\<bar> div nat b"
    and "n sdiv b = 0 \<longleftrightarrow> nat \<bar>n\<bar> < nat b"
proof -
  have e: "n smod b = sgn n * (\<bar>n\<bar> mod b)" "n sdiv b = sgn n * (\<bar>n\<bar> div b)"
    using assms by (simp_all add: signed_modulo_int_def signed_divide_int_def)
  show "nat (if 0 < n then n smod b else - (n smod b)) = nat \<bar>n\<bar> mod nat b"
    using assms unfolding e by (cases "0 < n"; cases "n = 0") (simp_all add: nat_mod_distrib)
  have "\<bar>n sdiv b\<bar> = \<bar>n\<bar> div b"
    using assms unfolding e by (cases "n = 0") (simp_all add: abs_mult pos_imp_zdiv_nonneg_iff)
  then show "nat \<bar>n sdiv b\<bar> = nat \<bar>n\<bar> div nat b" using assms by (simp add: nat_div_distrib)
  have "n sdiv b = 0 \<longleftrightarrow> \<bar>n\<bar> div b = 0" unfolding e by (auto simp: sgn_eq_0_iff)
  also have "\<dots> \<longleftrightarrow> \<bar>n\<bar> < b" using assms by (auto simp: zdiv_eq_0_iff)
  finally show "n sdiv b = 0 \<longleftrightarrow> nat \<bar>n\<bar> < nat b" using assms by (simp add: nat_less_eq_zless)
qed

lemma itoa_loop_digits:
  assumes "2 \<le> b" and "length (digits_rev (nat b) (nat \<bar>n\<bar>)) < 2 ^ 32"
  shows "\<exists>m'. itoa_loop b n p m = Some (p + of_nat (length (digits_rev (nat b) (nat \<bar>n\<bar>))), m') \<and>
    stored m' p (map num2ch (digits_rev (nat b) (nat \<bar>n\<bar>))) \<and>
    (\<forall>x. x \<notin> region p (length (digits_rev (nat b) (nat \<bar>n\<bar>))) \<longrightarrow> m' x = m x)"
  using assms
proof (induction "nat b" "nat \<bar>n\<bar>" arbitrary: n p m rule: digits_rev.induct)
  case 1
  note tr = int_trunc [OF 1(2), of n]
  define m1 where "m1 = m(p := num2ch (nat \<bar>n\<bar> mod nat b))"
  have step: "itoa_loop b n p m =
      (if n sdiv b \<noteq> 0 then itoa_loop b (n sdiv b) (p + 1) m1 else Some (p + 1, m1))"
    by (subst itoa_loop.simps) (simp only: tr(1) m1_def Let_def)
  have b2: "\<not> nat b < 2" using 1(2) by simp
  show ?case
  proof (cases "nat \<bar>n\<bar> < nat b")
    case True
    then have "digits_rev (nat b) (nat \<bar>n\<bar>) = [nat \<bar>n\<bar>]" by (subst digits_rev.simps) simp
    then show ?thesis using True tr(3) step by (simp add: m1_def)
  next
    case False
    let ?D = "digits_rev (nat b) (nat \<bar>n sdiv b\<bar>)"
    have D: "digits_rev (nat b) (nat \<bar>n\<bar>) = nat \<bar>n\<bar> mod nat b # ?D"
      using False b2 by (subst digits_rev.simps) (simp add: tr(2))
    then have len: "length ?D < 2 ^ 32" using 1(3) by simp
    obtain m' where m': "itoa_loop b (n sdiv b) (p + 1) m1 = Some (p + 1 + of_nat (length ?D), m')"
      "stored m' (p + 1) (map num2ch ?D)" "\<forall>x. x \<notin> region (p + 1) (length ?D) \<longrightarrow> m' x = m1 x"
      using 1(1) [of "n sdiv b" "p + 1" m1] False b2 tr(2) 1(2) len by auto
    have "m' p = num2ch (nat \<bar>n\<bar> mod nat b)"
      using m'(3) before_region [of "length ?D" p] len by (simp add: m1_def)
    moreover have "m' x = m x" if "x \<notin> region p (Suc (length ?D))" for x
      using m'(3) that by (auto simp: m1_def)
    ultimately show ?thesis
      using m' step False tr(3) by (auto simp: D add.assoc)
  qed
qed

lemma unat_offset: "unat (a :: addr) + k < 2 ^ 32 \<Longrightarrow> unat (a + of_nat k) = unat a + k"
  by (simp add: unat_word_ariths unat_of_nat)

lemma reverse_loop_stored:
  assumes "stored m a bs" and "bs \<noteq> []" and "unat a + length bs \<le> 2 ^ 32"
  shows "stored (reverse_loop a (a + of_nat (length bs - 1)) m) a (rev bs) \<and>
    (\<forall>x. x \<notin> region a (length bs) \<longrightarrow> reverse_loop a (a + of_nat (length bs - 1)) m x = m x)"
  using assms
proof (induction "length bs" arbitrary: a bs m rule: less_induct)
  case less
  consider (one) x where "bs = [x]" | (more) x ys y where "bs = x # ys @ [y]"
    using less.prems(2) by (cases bs; cases "tl bs" rule: rev_cases) auto
  then show ?case
  proof cases
    case one
    then show ?thesis using less.prems(1) by (simp add: reverse_loop.simps)
  next
    case more
    let ?n = "length ys" and ?e = "a + of_nat (Suc (length ys))"
    define m2 where "m2 = m(a := m ?e, ?e := m a)"
    have lim: "unat a + Suc ?n < 2 ^ 32" using less.prems(3) more by simp
    have lt: "a < ?e" using unat_offset [OF lim] by (simp add: word_less_nat_alt del: of_nat_Suc)
    have xy: "m a = x" "m ?e = y" "stored m (a + 1) ys" using less.prems(1) more by (auto simp: add.assoc)
    have rl: "reverse_loop a ?e m = reverse_loop (a + 1) (a + of_nat ?n) m2"
      using lt by (subst reverse_loop.simps) (simp add: m2_def Let_def)
    have out: "a \<notin> region (a + 1) ?n" "?e \<notin> region (a + 1) ?n" "?e \<noteq> a"
      using before_region [of ?n a] past_region [of ?n "a + 1"] lim lt by (auto simp: add.assoc)
    have st2: "stored m2 (a + 1) ys"
      using xy(3) out stored_cong [of "a + 1" ys m2 m] by (metis (no_types, lifting) fun_upd_apply m2_def)
    have "stored (reverse_loop a ?e m) (a + 1) (rev ys) \<and>
      (\<forall>z. z \<notin> region (a + 1) ?n \<longrightarrow> reverse_loop a ?e m z = m2 z)"
    proof (cases "ys = []")
      case True
      then have "\<not> a + 1 < a + of_nat ?n" using lt by (simp add: word_less_nat_alt)
      then show ?thesis unfolding rl using True by (subst (1 2) reverse_loop.simps) simp
    next
      case False
      have ua: "unat (a + 1) = unat a + 1" using unat_offset [of a 1] lim by simp
      have e: "a + 1 + of_nat (?n - 1) = a + of_nat ?n" using False by (cases ys) (simp_all add: ac_simps)
      show ?thesis
        using less.hyps [of ys m2 "a + 1", unfolded e] st2 False more lim ua unfolding rl by auto
    qed
    moreover have "reverse_loop a ?e m a = y" "reverse_loop a ?e m ?e = x"
      using calculation out xy by (auto simp: m2_def)
    moreover have "region a (length bs) = insert a (insert ?e (region (a + 1) ?n))"
      using more region_append [of "a + 1" ?n 1] by (simp add: ac_simps insert_commute)
    ultimately show ?thesis
      unfolding more by (auto simp: m2_def add.assoc)
  qed
qed

section \<open>The text of a number\<close>

definition itoa_text :: "int \<Rightarrow> int \<Rightarrow> uint8_t list" where
  "itoa_text b n = (if n < 0 \<and> b = 10 then [chr (CHR ''-'')] else []) @
     map num2ch (digits (nat b) (nat \<bar>n\<bar>))"

definition itoa_base_ok :: "int \<Rightarrow> int \<Rightarrow> bool" where
  "itoa_base_ok b n \<longleftrightarrow> b = 2 \<or> b = 10 \<or> b = 16 \<and> 0 \<le> n"

lemma digits_rev_ne: "digits_rev b n \<noteq> []"
  by (subst digits_rev.simps) simp

lemma sint_digits_len:
  assumes "2 \<le> b"
  shows "length (digits_rev b (nat \<bar>sint (w :: cint)\<bar>)) \<le> 32"
proof -
  have "\<bar>sint w\<bar> \<le> 2 ^ 31" using sint_below [of w] sint_above [of w] by linarith
  then have "nat \<bar>sint w\<bar> < 2 ^ 32" by (simp add: nat_less_iff)
  then show ?thesis using length_digits [OF assms] by simp
qed

lemma itoa_text_len: "itoa_base_ok b (sint (w :: cint)) \<Longrightarrow> length (itoa_text b (sint w)) \<le> 33"
  using sint_digits_len [of "nat b" w] by (auto simp: itoa_text_def itoa_base_ok_def digits_def)

lemma kernel_itoa_stored:
  assumes ok: "itoa_base_ok (sint base) (sint num)" and lim: "unat buf + 33 \<le> 2 ^ 32"
  shows "\<exists>m'. kernel_itoa buf num base m = Some (Inr (buf + of_nat (length (itoa_text (sint base) (sint num))), m'))
    \<and> stored m' buf (itoa_text (sint base) (sint num))
    \<and> (\<forall>x. x \<notin> region buf (length (itoa_text (sint base) (sint num))) \<longrightarrow> m' x = m x)"
proof -
  let ?b = "sint base" and ?n = "sint num"
  let ?D = "digits_rev (nat ?b) (nat \<bar>?n\<bar>)" and ?neg = "?n < 0 \<and> ?b = 10"
  define f :: nat where "f = (if ?neg then 1 else 0)"
  define m0 where "m0 = (if ?neg then m(buf := chr (CHR ''-'')) else m)"
  have b: "2 \<le> ?b" "\<not> (?b \<noteq> 2 \<and> ?b \<noteq> 10 \<and> ?b \<noteq> 16)" "\<not> (?n < 0 \<and> ?b = 16)"
    using ok by (auto simp: itoa_base_ok_def)
  have len: "length ?D \<le> 32" "?D \<noteq> []" using sint_digits_len [of "nat ?b" num] b digits_rev_ne by auto
  then obtain m1 where m1: "itoa_loop ?b ?n (buf + of_nat f) m0 = Some (buf + of_nat f + of_nat (length ?D), m1)"
    "stored m1 (buf + of_nat f) (map num2ch ?D)"
    "\<forall>x. x \<notin> region (buf + of_nat f) (length ?D) \<longrightarrow> m1 x = m0 x"
    using itoa_loop_digits [OF b(1), of ?n "buf + of_nat f" m0] by auto
  let ?m2 = "reverse_loop (buf + of_nat f) (buf + of_nat f + of_nat (length ?D - 1)) m1"
  have e: "buf + of_nat f + of_nat (length ?D) - 1 = buf + of_nat f + of_nat (length ?D - 1)"
    using len(2) by (cases ?D) simp_all
  have it: "kernel_itoa buf num base m = Some (Inr (buf + of_nat f + of_nat (length ?D), ?m2))"
  proof -
    have "kernel_itoa buf num base m = Option.bind (itoa_loop ?b ?n (buf + of_nat f) m0)
        (\<lambda>(p1, m2). Some (Inr (p1, reverse_loop (buf + of_nat f) (p1 - 1) m2)))"
      using b(2,3) by (auto simp: kernel_itoa_def f_def m0_def chr_def Let_def)
    then show ?thesis unfolding m1(1) by (simp only: Option.bind.bind_lunit prod.case e)
  qed
  have f1: "f \<le> 1" by (simp add: f_def)
  have ua: "unat (buf + of_nat f) = unat buf + f" using lim by (intro unat_offset) (simp add: f_def)
  have rev: "stored ?m2 (buf + of_nat f) (rev (map num2ch ?D)) \<and>
    (\<forall>x. x \<notin> region (buf + of_nat f) (length ?D) \<longrightarrow> ?m2 x = m1 x)"
    using reverse_loop_stored [OF m1(2)] len lim ua f1 by simp
  have tx: "itoa_text ?b ?n = replicate f (chr (CHR ''-'')) @ rev (map num2ch ?D)"
    by (simp add: itoa_text_def f_def digits_def rev_map)
  have reg: "region buf (f + length ?D) = region buf f \<union> region (buf + of_nat f) (length ?D)" by simp
  have sep: "buf \<notin> region (buf + of_nat f) (length ?D)" if ?neg
    using before_region [of "length ?D" buf] len that by (simp add: f_def)
  have all: "\<And>x. x \<notin> region (buf + of_nat f) (length ?D) \<Longrightarrow> ?m2 x = m0 x" using rev m1(3) by simp
  have "stored ?m2 buf (replicate f (chr (CHR ''-'')))"
  proof (cases ?neg)
    case True
    then have "f = 1" "m0 buf = chr (CHR ''-'')" by (simp_all add: f_def m0_def)
    then show ?thesis using all [OF sep [OF True]] by simp
  qed (simp only: f_def if_False replicate.simps stored.simps)
  moreover have "?m2 x = m x" if "x \<notin> region buf (f + length ?D)" for x
    using all [of x] that unfolding reg by (auto simp: f_def m0_def split: if_splits)
  ultimately show ?thesis using it rev unfolding tx by (simp add: add.assoc)
qed

text \<open>Reading the text back.\<close>

definition digit_of :: "uint8_t \<Rightarrow> nat" where
  "digit_of c = (if c \<le> 57 then unat c - 48 else unat c - 55)"

definition text_value :: "nat \<Rightarrow> uint8_t list \<Rightarrow> int" where
  "text_value b bs = (case bs of [] \<Rightarrow> 0
     | c # cs \<Rightarrow> if c = chr (CHR ''-'') then - int (undigits b (map digit_of cs))
               else int (undigits b (map digit_of bs)))"

lemma num2ch_digit:
  assumes "d < 16"
  shows "digit_of (num2ch d) = d \<and> num2ch d \<noteq> chr (CHR ''-'') \<and> num2ch d \<noteq> 0"
proof -
  have "d \<in> set [0..<16]" using assms by simp
  then show ?thesis
    by (simp add: upt_rec) (elim disjE; simp add: digit_of_def num2ch_def chr_def)
qed

lemma text_value_itoa:
  assumes "itoa_base_ok b n"
  shows "text_value (nat b) (itoa_text b n) = (if b = 2 then \<bar>n\<bar> else n)"
proof -
  let ?D = "digits (nat b) (nat \<bar>n\<bar>)"
  have b: "2 \<le> nat b" "nat b \<le> 16" using assms(1) by (auto simp: itoa_base_ok_def)
  have D: "d < 16" if "d \<in> set ?D" for d using digits_bound [OF b(1) that] b(2) by simp
  have map: "map digit_of (map num2ch ?D) = ?D"
    using num2ch_digit D by (simp add: map_idI)
  have "?D \<noteq> []" by (simp add: digits_def digits_rev_ne)
  then obtain d ds where d: "?D = d # ds" by (cases ?D) auto
  then have nd: "num2ch d \<noteq> chr (CHR ''-'')" using num2ch_digit D by simp
  note u = undigits_digits [OF b(1), of "nat \<bar>n\<bar>"]
  show ?thesis
  proof (cases "n < 0 \<and> b = 10")
    case True
    then show ?thesis using map u by (simp add: itoa_text_def text_value_def)
  next
    case False
    then have "b = 2 \<or> 0 \<le> n" using assms by (auto simp: itoa_base_ok_def)
    moreover have "itoa_text b n = map num2ch (d # ds)" using False d by (simp add: itoa_text_def)
    ultimately show ?thesis using map u nd d by (auto simp: text_value_def)
  qed
qed

section \<open>Formatted output: the specification\<close>

text \<open>What a format and its arguments print, as a function on byte lists; \<open>str\<close> gives the text a
  string argument points to. \<open>None\<close>: an argument is missing or \<^verbatim>\<open>%x\<close> is given a negative
  number. A conversion character at the very end of the format is dropped.\<close>

fun fmt_out :: "(addr \<Rightarrow> uint8_t list) \<Rightarrow> uint8_t list \<Rightarrow> uint32_t list \<Rightarrow> uint8_t list option" where
  "fmt_out str [] args = Some []"
| "fmt_out str [c] args = Some (if c = chr (CHR ''%'') then [] else [c])"
| "fmt_out str (c # d # fs) args =
    (if c \<noteq> chr (CHR ''%'') then map_option ((@) [c]) (fmt_out str (d # fs) args)
     else if d = chr (CHR ''s'') then
       (case args of [] \<Rightarrow> None | a # as \<Rightarrow> map_option ((@) (str a)) (fmt_out str fs as))
     else if d = chr (CHR ''d'') then
       (case args of [] \<Rightarrow> None | a # as \<Rightarrow> map_option ((@) (itoa_text 10 (sint a))) (fmt_out str fs as))
     else if d = chr (CHR ''x'') then
       (case args of [] \<Rightarrow> None | a # as \<Rightarrow>
          if sint a < 0 then None else map_option ((@) (itoa_text 16 (sint a))) (fmt_out str fs as))
     else if d = chr (CHR ''c'') then
       (case args of [] \<Rightarrow> None | a # as \<Rightarrow> map_option ((@) [ucast a]) (fmt_out str fs as))
     else if d = chr (CHR ''%'') then map_option ((@) [chr (CHR ''%'')]) (fmt_out str fs args)
     else map_option ((@) [chr (CHR ''?'')]) (fmt_out str fs args))"

text \<open>A routine that writes exactly the bytes \<open>bs\<close> at \<open>p\<close>.\<close>

definition writes :: "memory \<Rightarrow> addr \<Rightarrow> uint8_t list \<Rightarrow> memory \<Rightarrow> bool" where
  "writes m p bs m' \<longleftrightarrow> stored m' p bs \<and> (\<forall>x. x \<notin> region p (length bs) \<longrightarrow> m' x = m x)"

lemma writes_byte [simp]: "writes m p [b] (m(p := b))"
  by (simp add: writes_def)

lemma region_step_disj:
  "n + k < 2 ^ 32 \<Longrightarrow> region p n \<inter> region (p + of_nat n) k = {}"
proof (rule ccontr)
  assume n: "n + k < 2 ^ 32" and "region p n \<inter> region (p + of_nat n) k \<noteq> {}"
  then obtain i j where "i < n" "j < k" "p + of_nat i = p + of_nat n + of_nat j"
    by (auto simp: region_eq)
  then have "(of_nat i :: addr) = of_nat (n + j)" by (simp add: add.assoc)
  then show False using \<open>i < n\<close> \<open>j < k\<close> n of_nat_addr_inj [of i "n + j"] by simp
qed

lemma writes_append:
  assumes "writes m p bs m1" and "writes m1 (p + of_nat (length bs)) cs m2" and "length bs + length cs < 2 ^ 32"
  shows "writes m p (bs @ cs) m2"
proof -
  have "stored m2 p bs \<longleftrightarrow> stored m1 p bs"
    using assms(2) region_step_disj [OF assms(3), of p] by (intro stored_cong) (auto simp: writes_def)
  then show ?thesis using assms(1,2) by (auto simp: writes_def)
qed

lemma writes_cstr:
  assumes "writes m p bs m1" and "cstr m a s" and "region a (Suc (length s)) \<inter> region p (length bs) = {}"
  shows "cstr m1 a s"
proof -
  have "cstr m1 a s \<longleftrightarrow> cstr m a s" using assms(1,3) by (intro cstr_cong) (auto simp: writes_def)
  with assms(2) show ?thesis by simp
qed

text \<open>The strings a format refers to, and the condition under which printing to \<open>cur\<close> cannot
  disturb its own inputs.\<close>

fun str_args :: "uint8_t list \<Rightarrow> uint32_t list \<Rightarrow> addr list" where
  "str_args (c # d # fs) args =
    (if c \<noteq> chr (CHR ''%'') then str_args (d # fs) args
     else if d = chr (CHR ''s'') then (case args of [] \<Rightarrow> [] | a # as \<Rightarrow> a # str_args fs as)
     else if d = chr (CHR ''d'') \<or> d = chr (CHR ''x'') \<or> d = chr (CHR ''c'') then str_args fs (tl args)
     else str_args fs args)"
| "str_args fs args = []"

definition fmt_ready :: "(addr \<Rightarrow> uint8_t list) \<Rightarrow> memory \<Rightarrow> addr \<Rightarrow> uint8_t list \<Rightarrow> uint32_t list \<Rightarrow> addr
    \<Rightarrow> nat \<Rightarrow> bool" where
  "fmt_ready str m fmt fs args cur n \<longleftrightarrow> cstr m fmt fs \<and> unat cur + n + 33 \<le> 2 ^ 32 \<and>
     region fmt (Suc (length fs)) \<inter> region cur (Suc n) = {} \<and>
     (\<forall>a\<in>set (str_args fs args). cstr m a (str a) \<and>
        region a (Suc (length (str a))) \<inter> region cur (Suc n) = {})"

text \<open>After one piece of output, the rest of the format is ready at the next position.\<close>

lemma fmt_ready_next:
  assumes r: "fmt_ready str m fmt fs args cur (length pc + n)" and w: "writes m cur pc m1"
    and k: "k \<le> length fs" and a: "set (str_args (drop k fs) args') \<subseteq> set (str_args fs args)"
  shows "fmt_ready str m1 (fmt + of_nat k) (drop k fs) args' (cur + of_nat (length pc)) n"
proof -
  have reg: "region cur (Suc (length pc + n)) = region cur (length pc) \<union> region (cur + of_nat (length pc)) (Suc n)"
    using region_append [of cur "length pc" "Suc n"] by simp
  have keep: "cstr m1 a s" if "cstr m a s" "region a (Suc (length s)) \<inter> region cur (Suc (length pc + n)) = {}"
    for a s using writes_cstr [OF w that(1)] that(2) unfolding reg by (simp add: Int_Un_distrib del: region.simps)
  have c: "cstr m1 fmt fs" "\<And>a. a \<in> set (str_args fs args) \<Longrightarrow> cstr m1 a (str a)"
    using r keep by (auto simp: fmt_ready_def simp del: region.simps)
  have "unat (cur + of_nat (length pc)) = unat cur + length pc"
    using r by (intro unat_offset) (simp add: fmt_ready_def)
  moreover have "region (fmt + of_nat k) (Suc (length (drop k fs))) \<subseteq> region fmt (Suc (length fs))"
    using region_append [of fmt k "Suc (length (drop k fs))"] k by (auto simp del: region.simps)
  ultimately show ?thesis
    using r c a cstr_drop [OF c(1) k] unfolding fmt_ready_def reg
    by (auto simp: Int_Un_distrib simp del: region.simps)
qed

lemma itoa_writes:
  assumes "itoa_base_ok (sint base) (sint num)" and "unat cur + 33 \<le> 2 ^ 32"
  shows "\<exists>m1. kernel_itoa cur num base m = Some (Inr (cur + of_nat (length (itoa_text (sint base) (sint num))), m1))
    \<and> writes m cur (itoa_text (sint base) (sint num)) m1"
  using kernel_itoa_stored [OF assms] by (auto simp: writes_def)

lemma memcpy_writes:
  assumes "cstr m a s" and "region a (Suc (length s)) \<inter> region p (length s) = {}" and "length s < 2 ^ 32"
  shows "writes m p s (memcpy_loop (length s) p a m)"
proof -
  have "region a (length s) \<subseteq> region a (Suc (length s))" using region_append [of a "length s" 1] by auto
  then have d: "region p (length s) \<inter> region a (length s) = {}" using assms(2) by blast
  have "stored m a s" using assms(1) by (simp add: cstr_def)
  then have "stored (memcpy_loop (length s) p a m) p s"
    using memcpy_loop_bytes(1) [OF d assms(3), of m] by (simp add: stored_bytes)
  then show ?thesis using memcpy_loop_bytes(2) [OF d assms(3)] by (simp add: writes_def)
qed

text \<open>What one conversion does, for each conversion character.\<close>

definition fmt_piece :: "(addr \<Rightarrow> uint8_t list) \<Rightarrow> uint8_t \<Rightarrow> uint32_t list \<Rightarrow> (uint8_t list \<times> uint32_t list) option" where
  "fmt_piece str d args =
    (if d = chr (CHR ''s'') then (case args of [] \<Rightarrow> None | a # as \<Rightarrow> Some (str a, as))
     else if d = chr (CHR ''d'') then (case args of [] \<Rightarrow> None | a # as \<Rightarrow> Some (itoa_text 10 (sint a), as))
     else if d = chr (CHR ''x'') then (case args of [] \<Rightarrow> None
       | a # as \<Rightarrow> if sint a < 0 then None else Some (itoa_text 16 (sint a), as))
     else if d = chr (CHR ''c'') then (case args of [] \<Rightarrow> None | a # as \<Rightarrow> Some ([ucast a], as))
     else if d = chr (CHR ''%'') then Some ([chr (CHR ''%'')], args)
     else Some ([chr (CHR ''?'')], args))"

lemma fmt_out_piece:
  "fmt_out str (chr (CHR ''%'') # d # fs) args = (case fmt_piece str d args of None \<Rightarrow> None
     | Some (pc, args') \<Rightarrow> map_option ((@) pc) (fmt_out str fs args'))"
  by (simp add: fmt_piece_def split: list.split)

lemma str_args_piece:
  assumes "fmt_piece str d args = Some (pc, args')"
  shows "set (str_args fs args') \<subseteq> set (str_args (chr (CHR ''%'') # d # fs) args)"
  using assms by (auto simp: fmt_piece_def split: if_splits list.splits)

lemma directive_string:
  assumes "fmt_ready str m fmt (chr (CHR ''%'') # chr (CHR ''s'') # fs) (a # as) cur (length (str a) + n)"
  shows "\<exists>m1. vsprintf_directive (chr (CHR ''s'')) cur (a # as) m =
    Some (Inr (cur + of_nat (length (str a)), as, m1)) \<and> writes m cur (str a) m1"
proof -
  have lim: "length (str a) < 2 ^ 32" and c: "cstr m a (str a)"
    and d: "region a (Suc (length (str a))) \<inter> region cur (Suc (length (str a) + n)) = {}"
    using assms by (auto simp: fmt_ready_def simp del: region.simps)
  have "region cur (length (str a)) \<subseteq> region cur (Suc (length (str a) + n))"
    using region_append [of cur "length (str a)" "Suc n"] by (auto simp del: region.simps)
  then have "writes m cur (str a) (memcpy_loop (length (str a)) cur a m)"
    using d lim by (intro memcpy_writes [OF c]) (auto simp del: region.simps)
  then show ?thesis
    using strlen_cstr [OF c] lim
    by (auto simp: vsprintf_directive_def va_arg_def unat_of_nat)
qed

lemma directive_piece:
  assumes p: "fmt_piece str d args = Some (pc, args')"
    and r: "fmt_ready str m fmt (chr (CHR ''%'') # d # fs) args cur (length pc + n)"
  shows "\<exists>m1. vsprintf_directive d cur args m = Some (Inr (cur + of_nat (length pc), args', m1)) \<and> writes m cur pc m1"
proof -
  have lim: "unat cur + 33 \<le> 2 ^ 32" using r by (simp add: fmt_ready_def)
  consider (str) "d = chr (CHR ''s'')" | (num) "d \<noteq> chr (CHR ''s'')" "d = chr (CHR ''d'') \<or> d = chr (CHR ''x'')"
    | (other) "d \<noteq> chr (CHR ''s'')" "d \<noteq> chr (CHR ''d'')" "d \<noteq> chr (CHR ''x'')" by blast
  then show ?thesis
  proof cases
    case str
    then show ?thesis
      using p r directive_string by (fastforce simp: fmt_piece_def split: list.splits)
  next
    case num
    then obtain a where a: "args = a # args'" using p
      by (auto simp: fmt_piece_def split: list.splits if_splits)
    define base :: cint where "base = (if d = chr (CHR ''d'') then 10 else 16)"
    have ok: "itoa_base_ok (sint base) (sint a)" and pc: "pc = itoa_text (sint base) (sint a)"
      using p num a by (auto simp: fmt_piece_def base_def itoa_base_ok_def split: if_splits)
    have "vsprintf_directive d cur args m =
        map_option (map_sum id (\<lambda>(p, m'). (p, args', m'))) (kernel_itoa cur a base m)"
      using num a by (auto simp: vsprintf_directive_def va_arg_def base_def)
    then show ?thesis using itoa_writes [OF ok lim, of m] pc by auto
  next
    case other
    have "writes m cur [b] (m(cur := b))" for b by (rule writes_byte)
    then show ?thesis
      using p other by (auto simp: fmt_piece_def vsprintf_directive_def va_arg_def split: list.splits if_splits)
  qed
qed

lemma vsprintf_loop_step:
  assumes "m fmt = c" and "c \<noteq> 0"
  shows "c \<noteq> chr (CHR ''%'') \<Longrightarrow> vsprintf_loop fmt NORMAL cur args m = vsprintf_loop (fmt + 1) NORMAL (cur + 1) args (m(cur := c))"
    and "c = chr (CHR ''%'') \<Longrightarrow> vsprintf_loop fmt NORMAL cur args m = vsprintf_loop (fmt + 1) READ_FMT cur args m"
    and "vsprintf_loop fmt READ_FMT cur args m = Option.bind (vsprintf_directive c cur args m)
      (\<lambda>r. case r of Inl e \<Rightarrow> Some (Inl e) | Inr (cur', args', m') \<Rightarrow> vsprintf_loop (fmt + 1) NORMAL cur' args' m')"
  using assms by (subst vsprintf_loop.simps; simp)+

lemma vsprintf_loop_end: "m fmt = 0 \<Longrightarrow> vsprintf_loop fmt st cur args m = Some (Inr (m(cur := 0)))"
  by (subst vsprintf_loop.simps) simp

lemma vsprintf_loop_writes:
  assumes "fmt_out str fs args = Some out" and "fmt_ready str m fmt fs args cur (length out)"
  shows "\<exists>m'. vsprintf_loop fmt NORMAL cur args m = Some (Inr m') \<and> writes m cur (out @ [0]) m'"
  using assms
proof (induction "length fs" arbitrary: fs args out m fmt cur rule: less_induct)
  case less
  note out = less.prems(1) and ready = less.prems(2)
  have lim: "length out + 1 < 2 ^ 32" using ready by (simp add: fmt_ready_def)
  consider (nil) "fs = []" | (percent) "fs = [chr (CHR ''%'')]"
    | (plain) c gs where "fs = c # gs" "c \<noteq> chr (CHR ''%'')"
    | (conv) d gs where "fs = chr (CHR ''%'') # d # gs"
    by (cases fs; cases "tl fs") auto
  then show ?case
  proof cases
    case nil
    then show ?thesis using out ready by (simp add: fmt_ready_def cstr_Nil vsprintf_loop_end)
  next
    case percent
    then have m: "m fmt = chr (CHR ''%'')" "chr (CHR ''%'') \<noteq> 0" "m (fmt + 1) = 0" "out = []"
      using out ready by (auto simp: fmt_ready_def cstr_Cons cstr_Nil)
    then show ?thesis
      using vsprintf_loop_step(2) [of m fmt, OF m(1,2)] by (simp add: vsprintf_loop_end)
  next
    case plain
    then obtain out' where o: "out = [c] @ out'" "fmt_out str gs args = Some out'"
      using out by (cases gs) auto
    have m: "m fmt = c" "c \<noteq> 0" using ready plain by (auto simp: fmt_ready_def cstr_Cons)
    have w: "writes m cur [c] (m(cur := c))" by (rule writes_byte)
    have "set (str_args (drop 1 fs) args) \<subseteq> set (str_args fs args)" using plain by (cases gs) auto
    then have "fmt_ready str (m(cur := c)) (fmt + 1) gs args (cur + 1) (length out')"
      using fmt_ready_next [of str m fmt fs args cur "[c]" "length out'" _ 1 args] ready o(1) w plain by simp
    from less.hyps [OF _ o(2) this] obtain m' where
      "vsprintf_loop (fmt + 1) NORMAL (cur + 1) args (m(cur := c)) = Some (Inr m')"
      "writes (m(cur := c)) (cur + 1) (out' @ [0]) m'"
      using plain(1) by auto
    then show ?thesis
      using vsprintf_loop_step(1) [of m fmt c, OF m plain(2)] writes_append [OF w, of "out' @ [0]" m'] o lim
      by simp
  next
    case conv
    have m: "m fmt = chr (CHR ''%'')" "chr (CHR ''%'') \<noteq> 0" "m (fmt + 1) = d" "d \<noteq> 0"
      using ready conv by (auto simp: fmt_ready_def cstr_Cons)
    obtain pc args' out' where o: "fmt_piece str d args = Some (pc, args')" "fmt_out str gs args' = Some out'"
      "out = pc @ out'"
      using out unfolding conv fmt_out_piece by (auto split: option.splits)
    have r: "fmt_ready str m fmt (chr (CHR ''%'') # d # gs) args cur (length pc + length out')"
      using ready conv o(3) by simp
    from directive_piece [OF o(1) r] obtain m1 where
      m1: "vsprintf_directive d cur args m = Some (Inr (cur + of_nat (length pc), args', m1))" "writes m cur pc m1"
      by blast
    have "fmt_ready str m1 (fmt + of_nat 2) (drop 2 (chr (CHR ''%'') # d # gs)) args'
        (cur + of_nat (length pc)) (length out')"
      using str_args_piece [OF o(1)] by (intro fmt_ready_next [OF r m1(2)]) simp_all
    then have "fmt_ready str m1 (fmt + 2) gs args' (cur + of_nat (length pc)) (length out')" by simp
    from less.hyps [OF _ o(2) this] obtain m' where
      "vsprintf_loop (fmt + 2) NORMAL (cur + of_nat (length pc)) args' m1 = Some (Inr m')"
      "writes m1 (cur + of_nat (length pc)) (out' @ [0]) m'"
      using conv by auto
    moreover have "vsprintf_loop fmt NORMAL cur args m =
        vsprintf_loop (fmt + 2) NORMAL (cur + of_nat (length pc)) args' m1"
      using vsprintf_loop_step(2) [of m fmt, OF m(1,2)] vsprintf_loop_step(3) [of m "fmt + 1" d, OF m(3,4)] m1(1)
      by (simp add: add.assoc)
    ultimately show ?thesis using writes_append [OF m1(2), of "out' @ [0]" m'] o(3) lim by simp
  qed
qed

text \<open>Where a format stops: the text before the first \<^verbatim>\<open>%x\<close> that is given a negative number.\<close>

fun fmt_stop :: "(addr \<Rightarrow> uint8_t list) \<Rightarrow> uint8_t list \<Rightarrow> uint32_t list \<Rightarrow> uint8_t list option" where
  "fmt_stop str (c # d # fs) args =
    (if c \<noteq> chr (CHR ''%'') then map_option ((@) [c]) (fmt_stop str (d # fs) args)
     else if d = chr (CHR ''x'') \<and> args \<noteq> [] \<and> sint (hd args) < 0 then Some []
     else case fmt_piece str d args of None \<Rightarrow> None | Some (pc, args') \<Rightarrow> map_option ((@) pc) (fmt_stop str fs args'))"
| "fmt_stop str fs args = None"

lemma vsprintf_loop_stops:
  assumes "fmt_stop str fs args = Some out" and "fmt_ready str m fmt fs args cur (length out)"
  shows "\<exists>m'. vsprintf_loop fmt NORMAL cur args m = Some (Inl (Negative_base16, m')) \<and> writes m cur out m'"
  using assms
proof (induction "length fs" arbitrary: fs args out m fmt cur rule: less_induct)
  case less
  note out = less.prems(1) and ready = less.prems(2)
  have lim: "length out + 1 < 2 ^ 32" using ready by (simp add: fmt_ready_def)
  obtain c d gs where fs: "fs = c # d # gs" using out by (cases "(str, fs, args)" rule: fmt_stop.cases) auto
  have m: "m fmt = c" "c \<noteq> 0" "m (fmt + 1) = d" "d \<noteq> 0" using ready fs by (auto simp: fmt_ready_def cstr_Cons)
  consider (plain) "c \<noteq> chr (CHR ''%'')"
    | (stop) "c = chr (CHR ''%'')" "d = chr (CHR ''x'')" "args \<noteq> []" "sint (hd args) < 0" "out = []"
    | (conv) pc args' out' where "c = chr (CHR ''%'')" "fmt_piece str d args = Some (pc, args')"
        "fmt_stop str gs args' = Some out'" "out = pc @ out'"
    using out unfolding fs by (auto split: if_splits option.splits)
  then show ?case
  proof cases
    case plain
    then obtain out' where o: "out = [c] @ out'" "fmt_stop str (d # gs) args = Some out'" using out fs by auto
    have w: "writes m cur [c] (m(cur := c))" by (rule writes_byte)
    have "set (str_args (drop 1 fs) args) \<subseteq> set (str_args fs args)" using plain fs by auto
    then have "fmt_ready str (m(cur := c)) (fmt + 1) (d # gs) args (cur + 1) (length out')"
      using fmt_ready_next [of str m fmt fs args cur "[c]" "length out'" _ 1 args] ready o(1) w fs by simp
    from less.hyps [OF _ o(2) this] obtain m' where
      "vsprintf_loop (fmt + 1) NORMAL (cur + 1) args (m(cur := c)) = Some (Inl (Negative_base16, m'))"
      "writes (m(cur := c)) (cur + 1) out' m'" using fs by auto
    then show ?thesis
      using vsprintf_loop_step(1) [of m fmt c, OF m(1,2) plain] writes_append [OF w, of out' m'] o lim by simp
  next
    case stop
    then obtain a as where a: "args = a # as" "sint a < 0" by (cases args) auto
    have "vsprintf_directive d cur args m = Some (Inl (Negative_base16, m))"
      using stop(2) a by (simp add: vsprintf_directive_def va_arg_def kernel_itoa_def chr_def Let_def)
    then show ?thesis
      using vsprintf_loop_step(2) [of m fmt c, OF m(1,2) stop(1)] vsprintf_loop_step(3) [of m "fmt + 1" d, OF m(3,4)] stop(5) by (simp add: writes_def)
  next
    case conv
    have r: "fmt_ready str m fmt (chr (CHR ''%'') # d # gs) args cur (length pc + length out')"
      using ready conv fs by simp
    from directive_piece [OF conv(2) r] obtain m1 where
      m1: "vsprintf_directive d cur args m = Some (Inr (cur + of_nat (length pc), args', m1))" "writes m cur pc m1"
      by blast
    have "fmt_ready str m1 (fmt + of_nat 2) (drop 2 (chr (CHR ''%'') # d # gs)) args'
        (cur + of_nat (length pc)) (length out')"
      using str_args_piece [OF conv(2)] by (intro fmt_ready_next [OF r m1(2)]) simp_all
    then have "fmt_ready str m1 (fmt + 2) gs args' (cur + of_nat (length pc)) (length out')" by simp
    from less.hyps [OF _ conv(3) this] obtain m' where
      "vsprintf_loop (fmt + 2) NORMAL (cur + of_nat (length pc)) args' m1 = Some (Inl (Negative_base16, m'))"
      "writes m1 (cur + of_nat (length pc)) out' m'" using fs by auto
    moreover have "vsprintf_loop fmt NORMAL cur args m =
        vsprintf_loop (fmt + 2) NORMAL (cur + of_nat (length pc)) args' m1"
      using vsprintf_loop_step(2) [of m fmt c, OF m(1,2) conv(1)] vsprintf_loop_step(3) [of m "fmt + 1" d, OF m(3,4)] m1(1) by (simp add: add.assoc)
    ultimately show ?thesis using writes_append [OF m1(2), of out' m'] conv(4) lim by simp
  qed
qed

section \<open>Properties\<close>

text \<open>C36. Number to text. \<^verbatim>\<open>kernel_itoa\<close> returns for every number in base 2 and 10 and for every number that is not
  negative in base 16. It then has written the digits most significant first, after a minus sign for a negative decimal
  number, returns the position after the text and touches nothing else. Read back in its base the text is the number in base
  10 and 16; in base 2, where the code writes no sign, it is the absolute value of the number. Any other base and a negative
  number in base 16 are refused with nothing written, each with its own error.\<close>

theorem itoa_correct:
  assumes "unat buf + 33 \<le> 2 ^ 32"
  shows "(if sint base \<notin> {2, 10, 16} then kernel_itoa buf num base m = Some (Inl (Invalid_base, m))
     else if sint base = 16 \<and> sint num < 0 then kernel_itoa buf num base m = Some (Inl (Negative_base16, m))
     else
       (\<exists>m'. kernel_itoa buf num base m = Some (Inr (buf + of_nat (length (itoa_text (sint base) (sint num))), m')) \<and>
         writes m buf (itoa_text (sint base) (sint num)) m') \<and>
       text_value (nat (sint base)) (itoa_text (sint base) (sint num)) = (if sint base = 2 then \<bar>sint num\<bar> else sint num))"
proof (cases "itoa_base_ok (sint base) (sint num)")
  case True
  then have "sint base \<in> {2, 10, 16}" "\<not> (sint base = 16 \<and> sint num < 0)" by (auto simp: itoa_base_ok_def)
  then show ?thesis using itoa_writes [OF True assms, of m] text_value_itoa [OF True] by auto
next
  case False
  then show ?thesis by (auto simp: kernel_itoa_def itoa_base_ok_def Let_def)
qed

theorem itoa_correct_witness:
  "\<exists>m'. kernel_itoa 0x1000 (- 2147483648) 10 (\<lambda>a. 0) = Some (Inr (0x100B, m')) \<and>
    stored m' 0x1000 (map chr ''-2147483648'')"
proof -
  have s: "sint (- 2147483648 :: cint) = - 2147483648" by simp
  have t: "itoa_text 10 (- 2147483648) = map chr ''-2147483648''"
    by (simp add: itoa_text_def digits_def digits_rev.simps num2ch_def chr_def)
  from itoa_correct [of "0x1000" 10 "- 2147483648" "\<lambda>a. 0"] obtain m' where
    m': "kernel_itoa 0x1000 (- 2147483648) 10 (\<lambda>a. 0) = Some (Inr (0x1000 + of_nat (length (map chr ''-2147483648'')), m'))"
    "writes (\<lambda>a. 0) 0x1000 (map chr ''-2147483648'') m'"
    by (auto simp: s t)
  then show ?thesis by (simp add: writes_def)
qed

text \<open>C37. Formatted output: \<^verbatim>\<open>kernel_vsprintf\<close> refines the list function \<open>fmt_out\<close>: when the
  format prints \<open>out\<close> and the buffer does not overlap the format or its string arguments, the call
  returns and leaves exactly \<open>out\<close> and a terminating zero at the buffer, and nothing else changes.\<close>

theorem vsprintf_refines:
  assumes "fmt_out str fs args = Some out" and "fmt_ready str m fmt fs args buf (length out)"
  shows "\<exists>m'. kernel_vsprintf buf fmt args m = Some (Inr m') \<and> writes m buf (out @ [0]) m'"
  unfolding kernel_vsprintf_def by (rule vsprintf_loop_writes [OF assms])

theorem vsprintf_refines_witness:
  "\<exists>m'. kernel_vsprintf 0x1000 0x100 [42] ((\<lambda>a. 0)(0x100 := 37, 0x101 := 100, 0x102 := 33)) = Some (Inr m') \<and>
    stored m' 0x1000 (map chr ''42!'' @ [0])"
proof -
  let ?m = "(\<lambda>a. 0)(0x100 := 37, 0x101 := 100, 0x102 := 33) :: memory"
  have out: "fmt_out (\<lambda>a. []) [37, 100, 33] [42] = Some (map chr ''42!'')"
    by (simp add: chr_def itoa_text_def digits_def digits_rev.simps num2ch_def)
  have "fmt_ready (\<lambda>a. []) ?m 0x100 [37, 100, 33] [42] 0x1000 (length (map chr ''42!''))"
    by (simp add: fmt_ready_def cstr_def chr_def)
  from vsprintf_refines [OF out this] obtain m' where
    m': "kernel_vsprintf 0x1000 0x100 [42] ?m = Some (Inr m')" "writes ?m 0x1000 (map chr ''42!'' @ [0]) m'" by blast
  then show ?thesis unfolding writes_def by blast
qed

end
