(* ===== verification/Log.thy ===== *)
theory Log
  imports Gdt Klib_Text
begin

text \<open>
  The serial log of \<^verbatim>\<open>src/source/kernel/tools/log.c\<close>. A line is printed under a mutex, byte
  by byte. The buffer \<^verbatim>\<open>str_buf\<close> of \<^verbatim>\<open>log_printfln\<close> is a local array: its address is a
  parameter.
\<close>

section \<open>Operations\<close>

definition COM1_PORT :: uint16_t where "COM1_PORT = 0x3F8"

definition log_mutex :: "kernel \<Rightarrow> addr" where
  "log_mutex s = symaddr s ''log.mutex''"

definition log_init :: "kernel \<Rightarrow> kernel" where
  "log_init s0 =
    (let s = rein_mutex_init (log_mutex s0) s0;
         s1 = outb (COM1_PORT + 1) 0x00 s;
         s2 = outb (COM1_PORT + 3) 0x80 s1;
         s3 = outb (COM1_PORT + 0) 0x3 s2;
         s4 = outb (COM1_PORT + 1) 0x00 s3;
         s5 = outb (COM1_PORT + 3) 0x03 s4;
         s6 = outb (COM1_PORT + 2) 0xc7 s5
     in outb (COM1_PORT + 4) 0x0F s6)"

text \<open>The wait for the transmitter. The comparison binds tighter than the mask, so the condition is
  the status byte masked with the truth value of \<^verbatim>\<open>(1<<6) == 0\<close>.\<close>

partial_function (option) uart_wait :: "kernel \<Rightarrow> kernel option" where
  "uart_wait s =
    (let (v, s1) = inb (COM1_PORT + 5) s;
         c = (if push_bit 6 (1 :: cint) = 0 then 1 else 0 :: cint)
     in if ucast v AND c \<noteq> 0 then uart_wait s1 else Some s1)"

partial_function (option) log_puts :: "addr \<Rightarrow> kernel \<Rightarrow> kernel option" where
  "log_puts p s =
    (if mem s p \<noteq> 0 then
       Option.bind (uart_wait s) (\<lambda>s1. log_puts (p + 1) (outb COM1_PORT (mem s1 p) s1))
     else Some s)"

definition log_line :: "addr \<Rightarrow> kernel \<Rightarrow> unit outcome" where
  "log_line p s0 =
    and_then (lock_call (log_mutex s0) s0) (\<lambda>_ s.
      case log_puts p s of
        None \<Rightarrow> Hang
      | Some s1 \<Rightarrow>
          (let s2 = outb COM1_PORT (chr (CHR 0x0D)) s1;
               s3 = outb COM1_PORT (chr (CHR 0x0A)) s2
           in unlock_call (log_mutex s3) s3))"

definition log_println :: "addr \<Rightarrow> kernel \<Rightarrow> unit outcome" where
  "log_println msg s = log_line msg s"

text \<open>The error paths of \<^verbatim>\<open>kernel_itoa\<close>: a message on the log, then an endless loop.\<close>

fun itoa_message :: "itoa_error \<Rightarrow> string" where
  "itoa_message Invalid_base = ''str_itoa_invalid_base''"
| "itoa_message Negative_base16 = ''str_itoa_negative''"

definition itoa_stop :: "itoa_error \<Rightarrow> kernel \<Rightarrow> 'a outcome" where
  "itoa_stop e s = and_then (log_println (symaddr s (itoa_message e)) s) (\<lambda>_ s1. Looping s1)"

definition log_printfln :: "addr \<Rightarrow> addr \<Rightarrow> uint32_t list \<Rightarrow> kernel \<Rightarrow> unit outcome" where
  "log_printfln str_buf fmt args s =
    (case kernel_vsprintf str_buf fmt args (mem s) of
       None \<Rightarrow> Hang
     | Some (Inl (e, m)) \<Rightarrow> itoa_stop e (s\<lparr>mem := m\<rparr>)
     | Some (Inr m) \<Rightarrow> log_line str_buf (s\<lparr>mem := m\<rparr>))"

section \<open>What is printed\<close>

definition uart_events :: "uint8_t list \<Rightarrow> io_event list" where
  "uart_events bs = concat (map (\<lambda>b. [In 0x3FD, Out 0x3F8 b]) bs)"

lemma uart_wait_once: "uart_wait s = Some (s\<lparr>io := io s @ [In 0x3FD]\<rparr>)"
  by (subst uart_wait.simps) (simp add: inb_def COM1_PORT_def)

lemma log_puts_cstr:
  "cstr (mem s) p bs \<Longrightarrow> log_puts p s = Some (s\<lparr>io := io s @ uart_events bs\<rparr>)"
proof (induction bs arbitrary: p s)
  case Nil
  then show ?case by (subst log_puts.simps) (simp add: cstr_Nil uart_events_def)
next
  case (Cons b bs)
  then have b: "mem s p = b" "b \<noteq> 0" "cstr (mem s) (p + 1) bs" by (auto simp: cstr_Cons)
  let ?s = "s\<lparr>io := io s @ [In 0x3FD, Out 0x3F8 b]\<rparr>"
  have "log_puts (p + 1) ?s = Some (?s\<lparr>io := io ?s @ uart_events bs\<rparr>)" using b(3) by (intro Cons.IH) simp
  then show ?case
    using b by (subst log_puts.simps) (simp add: uart_wait_once outb_def COM1_PORT_def uart_events_def)
qed

text \<open>The log can be used when its mutex is free or held by the task that prints: the mutex is re-entrant. Afterwards a free
  mutex is free again, and a mutex that was held has its old level.\<close>

definition mutex_open :: "addr \<Rightarrow> kernel \<Rightarrow> bool" where
  "mutex_open p s \<longleftrightarrow> mutex_idle p s \<or> owner (mutexes s p) = curr_task s \<and> locker (mutexes s p) \<noteq> 0 \<and> locker (mutexes s p) \<noteq> -1"

definition mutex_taken :: "addr \<Rightarrow> kernel \<Rightarrow> kernel" where
  "mutex_taken p s = upd_mutex p (\<lambda>k. k\<lparr>locker := locker k + 1, owner := curr_task s\<rparr>) s"

definition mutex_left :: "addr \<Rightarrow> kernel \<Rightarrow> kernel" where
  "mutex_left p s = (if locker (mutexes s p) = 0 then mutex_released p s else s)"

lemma upd_mutex_cong: "f (mutexes s p) = g (mutexes s p) \<Longrightarrow> upd_mutex p f s = upd_mutex p g s"
  by (simp add: upd_mutex_def)

lemma lock_call_open:
  assumes "mutex_open p s"
  shows "lock_call p s = Done () (mutex_taken p s)"
proof (cases "locker (mutexes s p) = 0")
  case True
  then show ?thesis unfolding lock_call_free [OF True] mutex_taken_def by (auto intro!: upd_mutex_cong)
next
  case False
  then have o: "owner (mutexes s p) = curr_task s" using assms by (simp add: mutex_open_def mutex_idle_def)
  then have "rein_mutex_lock p s = upd_mutex p (\<lambda>k. k\<lparr>locker := locker k + 1\<rparr>) s"
    using False by (simp add: rein_mutex_lock_def task_current_def Let_def)
  also have "\<dots> = mutex_taken p s" unfolding mutex_taken_def using o by (intro upd_mutex_cong) simp
  finally show ?thesis by (simp add: lock_call_def mutex_taken_def)
qed

lemma unlock_call_open:
  assumes "mutex_open p s"
  shows "unlock_call p (mutex_taken p s\<lparr>io := es\<rparr>) = Done () (mutex_left p (s\<lparr>io := es\<rparr>))"
proof (cases "locker (mutexes s p) = 0")
  case True
  have "unlock_call p (mutex_taken p s\<lparr>io := es\<rparr>) =
      Done () (upd_mutex p (\<lambda>k. k\<lparr>locker := 0, owner := 0\<rparr>) (mutex_taken p s\<lparr>io := es\<rparr>))"
    using assms True by (intro unlock_call_free) (simp_all add: mutex_open_def mutex_idle_def mutex_taken_def)
  then show ?thesis using True by (simp add: mutex_left_def mutex_released_def mutex_taken_def) (simp add: upd_mutex_def)
next
  case False
  then have o: "owner (mutexes s p) = curr_task s" "locker (mutexes s p) + 1 \<noteq> 0"
    using assms by (simp_all add: mutex_open_def mutex_idle_def eq_neg_iff_add_eq_0 [symmetric])
  let ?s = "mutex_taken p s\<lparr>io := es\<rparr>"
  have f: "owner (mutexes ?s p) = curr_task ?s" "locker (mutexes ?s p) = locker (mutexes s p) + 1"
    by (simp_all add: mutex_taken_def)
  then have "rein_mutex_unlock p ?s = Inr (leave_protected (upd_mutex p (\<lambda>k. k\<lparr>locker := locker k - 1\<rparr>) (enter_protected ?s)))"
    using o False by (simp add: rein_mutex_unlock_def task_current_def Let_def)
  also have "\<dots> = Inr (upd_mutex p (\<lambda>k. k\<lparr>locker := locker k - 1\<rparr>) ?s)" by simp
  also have "upd_mutex p (\<lambda>k. k\<lparr>locker := locker k - 1\<rparr>) ?s = s\<lparr>io := es\<rparr>"
  proof -
    have "(mutexes s p)\<lparr>owner := curr_task s\<rparr> = mutexes s p" using o(1) by (cases "mutexes s p") simp
    then show ?thesis by (simp add: mutex_taken_def upd_mutex_def)
  qed
  finally show ?thesis using False by (simp add: unlock_call_def mutex_left_def)
qed

lemma mutex_left_open:
  assumes "mutex_open p s"
  shows "mutex_open p (mutex_left p s)" "locker (mutexes (mutex_left p s) p) = locker (mutexes s p)"
  using assms by (auto simp: mutex_left_def mutex_open_def mutex_idle_def mutex_released_def)

lemma log_line_prints:
  assumes "mutex_open (log_mutex s) s" and "cstr (mem s) p bs"
  shows "log_line p s = Done () (mutex_left (log_mutex s)
    (s\<lparr>io := io s @ uart_events bs @ [Out 0x3F8 13, Out 0x3F8 10]\<rparr>))"
proof -
  let ?p = "log_mutex s"
  let ?s1 = "mutex_taken ?p s"
  have f: "mem ?s1 = mem s" "io ?s1 = io s" "log_mutex (?s1\<lparr>io := es\<rparr>) = ?p" for es
    by (simp_all add: mutex_taken_def log_mutex_def upd_mutex_def)
  have "log_puts p ?s1 = Some (?s1\<lparr>io := io s @ uart_events bs\<rparr>)"
    using assms(2) log_puts_cstr [of ?s1 p bs] by (simp add: f)
  then show ?thesis
    unfolding log_line_def lock_call_open [OF assms(1)]
    by (simp add: outb_def COM1_PORT_def chr_def f unlock_call_open [OF assms(1)] Let_def)
qed

text \<open>The effect of printing some lines: the bytes sent, and what stays as it was.\<close>

definition line_events :: "uint8_t list \<Rightarrow> io_event list" where
  "line_events bs = uart_events bs @ [Out 0x3F8 13, Out 0x3F8 10]"

definition logged :: "addr \<Rightarrow> uint8_t list list \<Rightarrow> kernel \<Rightarrow> kernel \<Rightarrow> bool" where
  "logged buf ls s s' \<longleftrightarrow> io s' = io s @ concat (map line_events ls) \<and>
     mutex_open (log_mutex s') s' \<and> locker (mutexes s' (log_mutex s')) = locker (mutexes s (log_mutex s)) \<and>
     curr_task s' = curr_task s \<and> eflags s' = eflags s \<and> symaddr s' = symaddr s \<and>
     (\<forall>x. x \<notin> region buf 128 \<longrightarrow> mem s' x = mem s x)"

lemma logged_nil: "mutex_open (log_mutex s) s \<Longrightarrow> logged buf [] s s"
  by (simp add: logged_def)

lemma logged_trans: "logged buf ls s s1 \<Longrightarrow> logged buf ls' s1 s2 \<Longrightarrow> logged buf (ls @ ls') s s2"
  by (simp add: logged_def del: region.simps)

text \<open>Leaving the mutex and sending bytes keep everything else.\<close>

lemma line_logged:
  assumes "mutex_open (log_mutex s) s" and "\<forall>x. x \<notin> region buf 128 \<longrightarrow> m x = mem s x"
  shows "logged buf [bs] s (mutex_left (log_mutex s) (s\<lparr>mem := m, io := io s @ line_events bs\<rparr>))"
proof -
  let ?s = "s\<lparr>mem := m, io := io s @ line_events bs\<rparr>"
  have "mutex_open (log_mutex s) ?s" using assms(1) by (simp add: mutex_open_def mutex_idle_def)
  from mutex_left_open [OF this] have "mutex_open (log_mutex s) (mutex_left (log_mutex s) ?s)"
    "locker (mutexes (mutex_left (log_mutex s) ?s) (log_mutex s)) = locker (mutexes s (log_mutex s))" by simp_all
  moreover have "symaddr (mutex_left p t) = symaddr t" "mem (mutex_left p t) = mem t" "io (mutex_left p t) = io t"
    "curr_task (mutex_left p t) = curr_task t" "eflags (mutex_left p t) = eflags t" for p t
    by (simp_all add: mutex_left_def mutex_released_def upd_mutex_def)
  ultimately show ?thesis using assms(2) by (simp add: logged_def log_mutex_def del: region.simps)
qed

lemma log_println_logged:
  assumes "mutex_open (log_mutex s) s" and "cstr (mem s) p bs"
  shows "\<exists>s'. log_println p s = Done () s' \<and> logged buf [bs] s s'"
  using log_line_prints [OF assms] line_logged [OF assms(1), of buf "mem s" bs]
  by (simp add: log_println_def line_events_def del: region.simps)

lemma log_printfln_logged:
  assumes "mutex_open (log_mutex s) s" and "fmt_out str fs args = Some out" and "0 \<notin> set out"
    and "fmt_ready str (mem s) fmt fs args buf (length out)" and "length out \<le> 127"
  shows "\<exists>s'. log_printfln buf fmt args s = Done () s' \<and> logged buf [out] s s'"
proof -
  obtain m where m: "kernel_vsprintf buf fmt args (mem s) = Some (Inr m)" "writes (mem s) buf (out @ [0]) m"
    using vsprintf_loop_writes [OF assms(2,4)] by (auto simp: kernel_vsprintf_def)
  let ?s = "s\<lparr>mem := m\<rparr>"
  have p: "log_mutex ?s = log_mutex s" by (simp add: log_mutex_def)
  have "cstr m buf out" using m(2) assms(3) by (simp add: writes_def cstr_def)
  moreover have "mutex_open (log_mutex s) ?s" using assms(1) by (simp add: mutex_open_def mutex_idle_def)
  ultimately have line: "log_line buf ?s = Done () (mutex_left (log_mutex s) (?s\<lparr>io := io s @ line_events out\<rparr>))"
    using log_line_prints [of ?s buf out] unfolding p by (simp add: line_events_def)
  have "region buf (length (out @ [0])) \<subseteq> region buf 128"
    using region_append [of buf "length (out @ [0 :: uint8_t])" "127 - length out"] assms(5)
    by (auto simp del: region.simps)
  then have "\<forall>x. x \<notin> region buf 128 \<longrightarrow> m x = mem s x" using m(2) unfolding writes_def by blast
  from line_logged [OF assms(1) this] show ?thesis using m(1) line by (simp add: log_printfln_def del: region.simps)
qed

text \<open>A format that asks for a negative number in hexadecimal: the only line printed is the message of \<^verbatim>\<open>kernel_itoa\<close>.\<close>

lemma log_printfln_stops:
  assumes "mutex_open (log_mutex s) s" and "fmt_stop str fs args = Some out"
    and "fmt_ready str (mem s) fmt fs args buf (length out)" and "length out \<le> 127"
    and "cstr (mem s) (symaddr s ''str_itoa_negative'') msg"
    and "region (symaddr s ''str_itoa_negative'') (Suc (length msg)) \<inter> region buf 128 = {}"
  shows "\<exists>s'. log_printfln buf fmt args s = Looping s' \<and> logged buf [msg] s s'"
proof -
  obtain m where m: "kernel_vsprintf buf fmt args (mem s) = Some (Inl (Negative_base16, m))" "writes (mem s) buf out m"
    using vsprintf_loop_stops [OF assms(2,3)] by (auto simp: kernel_vsprintf_def)
  let ?s = "s\<lparr>mem := m\<rparr>" and ?a = "symaddr s ''str_itoa_negative''"
  have "region buf (length out) \<subseteq> region buf 128"
    using region_append [of buf "length out" "128 - length out"] assms(4) by (auto simp del: region.simps)
  then have same: "\<forall>x. x \<notin> region buf 128 \<longrightarrow> m x = mem s x" using m(2) unfolding writes_def by blast
  have "cstr m ?a msg \<longleftrightarrow> cstr (mem s) ?a msg" using same assms(6) by (intro cstr_cong) blast
  then have c: "cstr (mem ?s) ?a msg" using assms(5) by simp
  have p: "log_mutex ?s = log_mutex s" by (simp add: log_mutex_def)
  have "mutex_open (log_mutex s) ?s" using assms(1) by (simp add: mutex_open_def mutex_idle_def)
  then have "log_println ?a ?s = Done () (mutex_left (log_mutex s) (?s\<lparr>io := io s @ line_events msg\<rparr>))"
    using log_line_prints [of ?s ?a msg] c unfolding p by (simp add: line_events_def log_println_def)
  then show ?thesis
    using line_logged [OF assms(1) same, of msg] m(1) by (simp add: log_printfln_def itoa_stop_def del: region.simps)
qed

section \<open>Properties\<close>

text \<open>C38. The log: with its mutex free or held by the task that prints, \<^verbatim>\<open>log_printfln\<close> returns; the serial port receives the
  formatted text followed by carriage return and line feed, in order, with one read of the status
  port before every byte and no wait, whatever the device answers. The mutex has its old level, and as
  long as the text has at most 127 bytes only the 128 bytes of the local buffer change.\<close>

theorem log_printfln_prints:
  assumes "mutex_open (log_mutex s) s" and "fmt_out str fs args = Some out" and "0 \<notin> set out"
    and "fmt_ready str (mem s) fmt fs args buf (length out)" and "length out \<le> 127"
  shows "\<exists>s'. log_printfln buf fmt args s = Done () s' \<and>
    io s' = io s @ uart_events out @ [Out 0x3F8 13, Out 0x3F8 10] \<and>
    mutex_open (log_mutex s') s' \<and> locker (mutexes s' (log_mutex s')) = locker (mutexes s (log_mutex s)) \<and>
    curr_task s' = curr_task s \<and> eflags s' = eflags s \<and> (\<forall>x. x \<notin> region buf 128 \<longrightarrow> mem s' x = mem s x)"
  using log_printfln_logged [OF assms] by (simp add: logged_def line_events_def del: region.simps) blast

theorem log_printfln_prints_witness:
  "\<exists>s'. log_printfln 0x1000 0x100 [7] (blank_kernel\<lparr>mem := (\<lambda>a. 0)(0x100 := 37, 0x101 := 100)\<rparr>) = Done () s' \<and>
    io s' = [In 0x3FD, Out 0x3F8 55, Out 0x3F8 13, Out 0x3F8 10]"
proof -
  let ?s = "blank_kernel\<lparr>mem := (\<lambda>a. 0)(0x100 := 37, 0x101 := 100)\<rparr>"
  have s: "mutex_open (log_mutex ?s) ?s" "io ?s = []"
    by (simp_all add: mutex_open_def mutex_idle_def blank_kernel_def list_init_def)
  have out: "fmt_out (\<lambda>a. []) [37, 100] [7] = Some [55]"
    by (simp add: chr_def itoa_text_def digits_def digits_rev.simps num2ch_def)
  have "fmt_ready (\<lambda>a. []) (mem ?s) 0x100 [37, 100] [7] 0x1000 (length [55 :: uint8_t])"
    by (simp add: fmt_ready_def cstr_def chr_def)
  from log_printfln_prints [OF s(1) out _ this] show ?thesis
    using s(2) by (auto simp: uart_events_def)
qed

end
