(* ===== verification/Kernel_Spec.thy ===== *)
theory Kernel_Spec
  imports OS_Prelude
begin

text \<open>
  The abstract specification of the kernel's task-level interface: a scheduler over plain lists,
  counting semaphores and re-entrant mutexes, with one function per call and one for the clock
  tick. Nothing here refers to pointers, nodes or machine words. The laws a user of the kernel
  relies on (sleep durations, bounded waiting, semaphore accounting, ownership of a mutex) are
  proved here on runs of the specification; a later theory shows that the kernel refines it.
\<close>

datatype kop = Yield | Sleep uint32_t | SemWait addr | SemNotify addr | MutexLock addr
  | MutexUnlock addr | Tick

record aspec =
  aready :: "addr list"
  asleep :: "(addr \<times> nat) list"
  aall :: "addr list"
  asem :: "addr \<Rightarrow> int"
  asemq :: "addr \<Rightarrow> addr list"
  amtx :: "addr \<Rightarrow> (addr \<times> nat) option"
  amtxq :: "addr \<Rightarrow> addr list"
  aslice :: "addr \<Rightarrow> nat"
  aquant :: "addr \<Rightarrow> nat"

section \<open>Operations\<close>

text \<open>The number of clock ticks a request for \<open>ms\<close> milliseconds sleeps: the 10 ms ticks needed,
  rounded up, plus the one in progress; the sum is taken in 32 bits.\<close>

definition spec_ticks :: "nat \<Rightarrow> nat" where
  "spec_ticks ms = (ms + 9) mod 2 ^ 32 div 10 + 1"

definition a_yield :: "aspec \<Rightarrow> aspec" where
  "a_yield a = a\<lparr>aready := rotate1 (aready a)\<rparr>"

definition a_sleep :: "nat \<Rightarrow> aspec \<Rightarrow> aspec" where
  "a_sleep n a = a\<lparr>aready := tl (aready a), asleep := asleep a @ [(hd (aready a), n)]\<rparr>"

definition a_wait :: "addr \<Rightarrow> aspec \<Rightarrow> aspec" where
  "a_wait p a =
    (if 0 < asem a p then a\<lparr>asem := (asem a)(p := asem a p - 1)\<rparr>
     else a\<lparr>aready := tl (aready a), asemq := (asemq a)(p := asemq a p @ [hd (aready a)])\<rparr>)"

definition a_notify :: "addr \<Rightarrow> aspec \<Rightarrow> aspec" where
  "a_notify p a = (case asemq a p of
       [] \<Rightarrow> a\<lparr>asem := (asem a)(p := asem a p + 1)\<rparr>
     | w # ws \<Rightarrow> a\<lparr>asemq := (asemq a)(p := ws), aready := aready a @ [w]\<rparr>)"

definition a_lock :: "addr \<Rightarrow> aspec \<Rightarrow> aspec" where
  "a_lock p a = (case amtx a p of
       None \<Rightarrow> a\<lparr>amtx := (amtx a)(p := Some (hd (aready a), 1))\<rparr>
     | Some (t, n) \<Rightarrow>
         if t = hd (aready a) then a\<lparr>amtx := (amtx a)(p := Some (t, n + 1))\<rparr>
         else a\<lparr>aready := tl (aready a), amtxq := (amtxq a)(p := amtxq a p @ [hd (aready a)])\<rparr>)"

definition a_unlock :: "addr \<Rightarrow> aspec \<Rightarrow> aspec option" where
  "a_unlock p a = (case amtx a p of
       None \<Rightarrow> None
     | Some (t, n) \<Rightarrow>
         if t \<noteq> hd (aready a) then None
         else if n \<noteq> 1 then Some (a\<lparr>amtx := (amtx a)(p := Some (t, n - 1))\<rparr>)
         else case amtxq a p of
           [] \<Rightarrow> Some (a\<lparr>amtx := (amtx a)(p := None)\<rparr>)
         | w # ws \<Rightarrow> Some (a\<lparr>amtx := (amtx a)(p := Some (w, 1)), amtxq := (amtxq a)(p := ws),
                         aready := aready a @ [w]\<rparr>))"

definition a_slice :: "aspec \<Rightarrow> aspec" where
  "a_slice a = (case aready a of
       [] \<Rightarrow> a
     | t # R \<Rightarrow>
         if aslice a t = 1
         then a\<lparr>aslice := (aslice a)(t := aquant a t), aready := R @ [t]\<rparr>
         else a\<lparr>aslice := (aslice a)(t := aslice a t - 1)\<rparr>)"

definition a_tick :: "aspec \<Rightarrow> aspec" where
  "a_tick a =
    (let b = a_slice a
     in b\<lparr>aready := aready b @ map fst (filter (\<lambda>(t, n). n = 1) (asleep a)),
          asleep := map (\<lambda>(t, n). (t, n - 1)) (filter (\<lambda>(t, n). n \<noteq> 1) (asleep a))\<rparr>)"

text \<open>A call is made by the running task, the head of the ready list; \<open>None\<close> means that there is
  none or that the call is a misuse of a mutex.\<close>

definition acall :: "kop \<Rightarrow> aspec \<Rightarrow> aspec option" where
  "acall op a = (case op of
      Yield \<Rightarrow> Some (a_yield a)
    | Sleep ms \<Rightarrow> Some (a_sleep (spec_ticks (unat ms)) a)
    | SemWait p \<Rightarrow> Some (a_wait p a)
    | SemNotify p \<Rightarrow> Some (a_notify p a)
    | MutexLock p \<Rightarrow> Some (a_lock p a)
    | MutexUnlock p \<Rightarrow> a_unlock p a
    | Tick \<Rightarrow> Some (a_tick a))"

definition astep :: "kop \<Rightarrow> aspec \<Rightarrow> aspec option" where
  "astep op a = (if op \<noteq> Tick \<and> aready a = [] then None else acall op a)"

fun arun :: "kop list \<Rightarrow> aspec \<Rightarrow> aspec option" where
  "arun [] a = Some a"
| "arun (op # ops) a = Option.bind (astep op a) (arun ops)"

lemmas aops = a_yield_def a_sleep_def a_wait_def a_notify_def a_lock_def a_unlock_def

section \<open>Well-formed specification states\<close>

definition sem_wf :: "aspec \<Rightarrow> addr \<Rightarrow> bool" where
  "sem_wf a p \<longleftrightarrow> 0 \<le> asem a p \<and> (asemq a p \<noteq> [] \<longrightarrow> asem a p = 0)"

definition mtx_wf :: "aspec \<Rightarrow> addr \<Rightarrow> bool" where
  "mtx_wf a p \<longleftrightarrow> (case amtx a p of None \<Rightarrow> amtxq a p = [] | Some (t, n) \<Rightarrow> 0 < n)"

definition slice_wf :: "aspec \<Rightarrow> bool" where
  "slice_wf a \<longleftrightarrow> (\<forall>t\<in>set (aall a). 0 < aslice a t \<and> aslice a t \<le> aquant a t)"

definition sleep_wf :: "aspec \<Rightarrow> bool" where
  "sleep_wf a \<longleftrightarrow> (\<forall>t n. (t, n) \<in> set (asleep a) \<longrightarrow> 0 < n)"

definition placed :: "aspec \<Rightarrow> addr set" where
  "placed a = set (aready a) \<union> fst ` set (asleep a) \<union> (\<Union>p. set (asemq a p)) \<union> (\<Union>p. set (amtxq a p))"

definition awf :: "aspec \<Rightarrow> bool" where
  "awf a \<longleftrightarrow> (\<forall>p. sem_wf a p) \<and> (\<forall>p. mtx_wf a p) \<and> slice_wf a \<and> sleep_wf a \<and> placed a \<subseteq> set (aall a)"

lemmas awf_defs = awf_def sem_wf_def mtx_wf_def slice_wf_def sleep_wf_def

lemma astep_frame:
  assumes "astep op a = Some b"
  shows "aall b = aall a" "aquant b = aquant a" "op \<noteq> Tick \<Longrightarrow> aslice b = aslice a"
  using assms
  by (auto simp: astep_def acall_def aops a_tick_def a_slice_def Let_def
      split: kop.splits if_splits option.splits list.splits prod.splits)

lemma a_slice_slice_wf: "slice_wf a \<Longrightarrow> slice_wf (a_slice a)"
  by (fastforce simp: slice_wf_def a_slice_def split: list.split)

lemma astep_slice_wf:
  assumes "astep op a = Some b" and "slice_wf a"
  shows "slice_wf b"
proof (cases "op = Tick")
  case True
  then have "b = a_tick a" using assms(1) by (simp add: astep_def acall_def)
  then show ?thesis using a_slice_slice_wf [OF assms(2)] by (simp add: a_tick_def slice_wf_def Let_def)
next
  case False
  then show ?thesis using assms astep_frame [OF assms(1)] by (simp add: slice_wf_def)
qed

lemma a_slice_frame [simp]:
  "asem (a_slice a) = asem a" "asemq (a_slice a) = asemq a" "amtx (a_slice a) = amtx a"
  "amtxq (a_slice a) = amtxq a" "asleep (a_slice a) = asleep a" "set (aready (a_slice a)) = set (aready a)"
  by (simp_all add: a_slice_def split: list.split)

lemma astep_sem_wf:
  assumes "astep op a = Some b" and "sem_wf a p"
  shows "sem_wf b p"
  using assms
  by (auto simp: astep_def acall_def aops a_tick_def sem_wf_def Let_def
      split: kop.splits if_splits option.splits list.splits prod.splits)

lemma astep_mtx_wf:
  assumes "astep op a = Some b" and "mtx_wf a p"
  shows "mtx_wf b p"
  using assms
  by (auto simp: astep_def acall_def aops a_tick_def mtx_wf_def Let_def
      split: kop.splits if_splits option.splits list.splits prod.splits)

lemma astep_sleep_wf:
  assumes "astep op a = Some b" and "sleep_wf a"
  shows "sleep_wf b"
proof (cases "op = Tick")
  case True
  have "0 < n - 1" if "(t, n) \<in> set (asleep a)" "n \<noteq> 1" for t n
    using assms(2) that by (fastforce simp: sleep_wf_def)
  then show ?thesis
    using assms(1) True by (auto simp: astep_def acall_def a_tick_def sleep_wf_def Let_def)
next
  case False
  then show ?thesis
    using assms
    by (auto simp: astep_def acall_def aops sleep_wf_def spec_ticks_def
        split: kop.splits if_splits option.splits list.splits prod.splits)
qed

lemma in_placed:
  "t \<in> placed a \<longleftrightarrow> t \<in> set (aready a) \<or> t \<in> fst ` set (asleep a) \<or>
     (\<exists>p. t \<in> set (asemq a p)) \<or> (\<exists>p. t \<in> set (amtxq a p))"
  by (auto simp: placed_def)

lemma a_tick_placed: "placed (a_tick a) \<subseteq> placed a"
proof -
  let ?w = "filter (\<lambda>(t, n). n = 1) (asleep a)" and ?k = "filter (\<lambda>(t, n). n \<noteq> 1) (asleep a)"
  have "set (aready (a_tick a)) = set (aready a) \<union> fst ` set ?w"
    by (simp add: a_tick_def Let_def)
  moreover have "fst ` set (asleep (a_tick a)) = fst ` set ?k"
    by (simp add: a_tick_def Let_def image_image case_prod_beta)
  moreover have "fst ` set ?w \<subseteq> fst ` set (asleep a)" "fst ` set ?k \<subseteq> fst ` set (asleep a)"
    by auto
  ultimately show ?thesis by (auto simp: placed_def a_tick_def Let_def)
qed

lemma astep_placed:
  assumes "astep op a = Some b"
  shows "placed b \<subseteq> placed a"
proof
  fix t assume t: "t \<in> placed b"
  show "t \<in> placed a"
  proof (cases "op = Tick")
    case True
    then have "b = a_tick a" using assms by (simp add: astep_def acall_def)
    then show ?thesis using a_tick_placed t by blast
  next
    case False
    have tl: "x \<in> set (tl xs) \<Longrightarrow> x \<in> set xs" for x :: addr and xs by (cases xs) auto
    have hd: "aready a \<noteq> []" using assms False by (auto simp: astep_def split: if_splits)
    note hd' = hd_in_set [OF this]
    show ?thesis
      using t assms False hd hd'
      by (cases op; auto simp: astep_def acall_def aops in_placed image_iff split: if_splits
          option.splits list.splits prod.splits dest: tl; metis fst_conv list.set_intros(1))
  qed
qed

lemma astep_awf: "astep op a = Some b \<Longrightarrow> awf a \<Longrightarrow> awf b"
  using astep_placed astep_sem_wf astep_mtx_wf astep_slice_wf astep_sleep_wf astep_frame(1)
  unfolding awf_def by (metis subset_trans)

lemma arun_awf: "arun ops a = Some b \<Longrightarrow> awf a \<Longrightarrow> awf b"
  by (induction ops arbitrary: a) (auto simp: bind_eq_Some_conv astep_awf)

section \<open>No task is in two queues\<close>

datatype aqueue = QReady | QSleep | QSem addr | QMtx addr

fun alist :: "aspec \<Rightarrow> aqueue \<Rightarrow> addr list" where
  "alist a QReady = aready a"
| "alist a QSleep = map fst (asleep a)"
| "alist a (QSem p) = asemq a p"
| "alist a (QMtx p) = amtxq a p"

definition uniq :: "(aqueue \<Rightarrow> addr list) \<Rightarrow> bool" where
  "uniq L \<longleftrightarrow> (\<forall>i. distinct (L i)) \<and> (\<forall>i j. i \<noteq> j \<longrightarrow> set (L i) \<inter> set (L j) = {})"

lemma uniq_same:
  assumes "uniq L" and "distinct ys" and "set ys \<subseteq> set (L i)"
  shows "uniq (L(i := ys))"
proof -
  have "set ((L(i := ys)) k) \<subseteq> set (L k)" for k using assms(3) by simp
  moreover have "set (L k) \<inter> set (L l) = {}" if "k \<noteq> l" for k l
    using assms(1) that by (auto simp: uniq_def)
  ultimately have "set ((L(i := ys)) k) \<inter> set ((L(i := ys)) l) = {}" if "k \<noteq> l" for k l
    using that by blast
  then show ?thesis using assms(1,2) by (simp add: uniq_def)
qed

lemma uniq_move:
  assumes "uniq L" and "i \<noteq> j" and "distinct (ys @ zs)" and "set (ys @ zs) \<subseteq> set (L i)"
  shows "uniq (L(i := ys, j := L j @ zs))"
proof -
  let ?L = "L(i := ys, j := L j @ zs)"
  have d: "\<And>k. distinct (L k)" "\<And>k l. k \<noteq> l \<Longrightarrow> set (L k) \<inter> set (L l) = {}"
    using assms(1) by (auto simp: uniq_def)
  have "distinct (?L k)" for k using d(1) [of k] d(1) [of j] d(2) [of i j] assms by auto
  moreover have "set (?L k) \<inter> set (?L l) = {}" if "k \<noteq> l" for k l
    using that d(2) [of i j] d(2) [of i k] d(2) [of i l] d(2) [of j k] d(2) [of j l] d(2) [of k l] assms(2-4)
    by (cases "k = i"; cases "k = j"; cases "l = i"; cases "l = j") (auto 0 3)
  ultimately show ?thesis unfolding uniq_def by blast
qed

lemma alist_updates:
  "alist (a\<lparr>aready := R\<rparr>) = (alist a)(QReady := R)"
  "alist (a\<lparr>asleep := S\<rparr>) = (alist a)(QSleep := map fst S)"
  "alist (a\<lparr>asemq := (asemq a)(p := ws)\<rparr>) = (alist a)(QSem p := ws)"
  "alist (a\<lparr>amtxq := (amtxq a)(p := ws)\<rparr>) = (alist a)(QMtx p := ws)"
  "alist (a\<lparr>asem := f\<rparr>) = alist a" "alist (a\<lparr>amtx := g\<rparr>) = alist a" "alist (a\<lparr>aslice := h\<rparr>) = alist a"
  "alist (a\<lparr>aready := R, asemq := (asemq a)(p := ws)\<rparr>) = (alist a)(QReady := R, QSem p := ws)"
  "alist (a\<lparr>aready := R, amtxq := (amtxq a)(p := ws)\<rparr>) = (alist a)(QReady := R, QMtx p := ws)"
  "alist (a\<lparr>asemq := (asemq a)(p := ws), aready := R\<rparr>) = (alist a)(QSem p := ws, QReady := R)"
  "alist (a\<lparr>amtx := g, amtxq := (amtxq a)(p := ws)\<rparr>) = (alist a)(QMtx p := ws)"
  by (rule ext, rename_tac i, case_tac i; simp)+

lemma a_slice_uniq:
  assumes "uniq (alist a)"
  shows "uniq (alist (a_slice a))"
proof (cases "aready a")
  case (Cons t R)
  have "distinct (aready a)" using assms by (simp add: uniq_def) (metis alist.simps(1))
  then show ?thesis
    using assms Cons by (auto simp: a_slice_def alist_updates intro: uniq_same)
qed (simp add: a_slice_def assms)

lemma filter_split_distinct:
  "distinct (map fst S) \<Longrightarrow> distinct (map fst (filter (\<lambda>x. \<not> P x) S) @ map fst (filter P S))"
  by (induction S) (auto simp: image_iff)

lemma a_tick_uniq:
  assumes "uniq (alist a)"
  shows "uniq (alist (a_tick a))"
proof -
  let ?P = "\<lambda>(t, n). n = 1" and ?b = "a_slice a"
  let ?w = "map fst (filter ?P (asleep a))" and ?k = "map fst (filter (\<lambda>x. \<not> ?P x) (asleep a))"
  have u: "uniq (alist ?b)" using assms by (rule a_slice_uniq)
  then have "distinct (map fst (asleep a))" by (simp add: uniq_def) (metis a_slice_frame(5) alist.simps(2))
  then have "distinct (?k @ ?w)" by (rule filter_split_distinct)
  moreover have "set (?k @ ?w) \<subseteq> set (alist ?b QSleep)" by auto
  ultimately have "uniq ((alist ?b)(QSleep := ?k, QReady := alist ?b QReady @ ?w))"
    using u by (intro uniq_move) auto
  moreover have "alist (a_tick a) = (alist ?b)(QSleep := ?k, QReady := alist ?b QReady @ ?w)"
    by (simp add: a_tick_def alist_updates Let_def case_prod_unfold fun_upd_twist comp_def)
  ultimately show ?thesis by simp
qed

lemma astep_uniq:
  assumes "astep op a = Some b" and "uniq (alist a)"
  shows "uniq (alist b)"
proof (cases "op = Tick")
  case True
  then show ?thesis using assms a_tick_uniq by (auto simp: astep_def acall_def)
next
  case False
  with assms obtain t R where R: "aready a = t # R" by (cases "aready a") (auto simp: astep_def)
  have d: "distinct (alist a i)" for i using assms(2) by (simp add: uniq_def)
  have block: "uniq ((alist a)(QReady := R, j := alist a j @ [t]))" if "j \<noteq> QReady" for j
    using uniq_move [OF assms(2), of QReady j R "[t]"] d [of QReady] that R by auto
  have wake: "uniq ((alist a)(i := ws, QReady := alist a QReady @ [w]))"
    if "alist a i = w # ws" "i \<noteq> QReady" for i w ws
    using uniq_move [OF assms(2), of i QReady ws "[w]"] d [of i] that by auto
  have rot: "uniq ((alist a)(QReady := R @ [t]))"
    using uniq_same [OF assms(2), of "R @ [t]" QReady] d [of QReady] R by auto
  show ?thesis
    using assms False R block [of QSleep] block [of "QSem p" for p] block [of "QMtx p" for p] rot
      wake [of "QSem p" for p] wake [of "QMtx p" for p]
    by (cases op) (auto simp: astep_def acall_def aops alist_updates split: if_splits option.splits
        list.splits prod.splits)
qed

section \<open>Semaphore accounting\<close>

text \<open>The tasks a step parks at a semaphore and the tasks it wakes from it.\<close>

definition parked :: "addr \<Rightarrow> kop \<Rightarrow> aspec \<Rightarrow> addr list" where
  "parked p op a = (if op = SemWait p \<and> \<not> 0 < asem a p then [hd (aready a)] else [])"

definition woken :: "addr \<Rightarrow> kop \<Rightarrow> aspec \<Rightarrow> addr list" where
  "woken p op a = (if op = SemNotify p then take 1 (asemq a p) else [])"

fun along :: "(kop \<Rightarrow> aspec \<Rightarrow> 'b list) \<Rightarrow> kop list \<Rightarrow> aspec \<Rightarrow> 'b list" where
  "along f [] a = []"
| "along f (op # ops) a = f op a @ (case astep op a of None \<Rightarrow> [] | Some b \<Rightarrow> along f ops b)"

lemma sem_step_fifo:
  assumes "astep op a = Some b"
  shows "asemq a p @ parked p op a = woken p op a @ asemq b p"
  using assms
  by (cases op)
    (auto simp: astep_def acall_def aops a_tick_def parked_def woken_def Let_def
      split: if_splits option.splits list.splits prod.splits)

lemma sem_step_count:
  assumes "astep op a = Some b"
  shows "asem b p - int (length (asemq b p)) = asem a p - int (length (asemq a p))
    + (if op = SemNotify p then 1 else 0) - (if op = SemWait p then 1 else 0)"
  using assms
  by (cases op)
    (auto simp: astep_def acall_def aops a_tick_def Let_def
      split: if_splits option.splits list.splits prod.splits)

lemma sem_run_fifo:
  "arun ops a = Some b \<Longrightarrow>
    asemq a p @ along (parked p) ops a = along (woken p) ops a @ asemq b p"
proof (induction ops arbitrary: a)
  case (Cons op ops)
  then obtain c where c: "astep op a = Some c" "arun ops c = Some b"
    by (auto simp: bind_eq_Some_conv)
  show ?case
    using sem_step_fifo [OF c(1), of p] Cons.IH [OF c(2)] c(1) by simp (metis append_assoc)
qed simp

lemma sem_run_count:
  "arun ops a = Some b \<Longrightarrow>
    asem b p - int (length (asemq b p)) = asem a p - int (length (asemq a p))
      + int (count_list ops (SemNotify p)) - int (count_list ops (SemWait p))"
proof (induction ops arbitrary: a)
  case (Cons op ops)
  then obtain c where c: "astep op a = Some c" "arun ops c = Some b"
    by (auto simp: bind_eq_Some_conv)
  show ?case using sem_step_count [OF c(1), of p] Cons.IH [OF c(2)] by simp
qed simp

section \<open>Sleeping\<close>

definition ticks_in :: "kop list \<Rightarrow> nat" where
  "ticks_in ops = count_list ops Tick"

lemma ticks_in_simps [simp]:
  "ticks_in [] = 0" "ticks_in (op # ops) = (if op = Tick then 1 else 0) + ticks_in ops"
  by (auto simp: ticks_in_def)

lemma sleeper_step:
  assumes "astep op a = Some b" and "(t, n) \<in> set (asleep a)"
  shows "op \<noteq> Tick \<Longrightarrow> (t, n) \<in> set (asleep b)"
    and "op = Tick \<Longrightarrow> n \<noteq> 1 \<Longrightarrow> (t, n - 1) \<in> set (asleep b)"
    and "op = Tick \<Longrightarrow> n = 1 \<Longrightarrow> t \<in> set (aready b)"
proof -
  show "(t, n) \<in> set (asleep b)" if "op \<noteq> Tick"
    using assms that
    by (cases op) (auto simp: astep_def acall_def aops split: if_splits option.splits list.splits prod.splits)
  show "(t, n - 1) \<in> set (asleep b)" if "op = Tick" "n \<noteq> 1"
    using assms that by (force simp: astep_def acall_def a_tick_def Let_def)
  show "t \<in> set (aready b)" if "op = Tick" "n = 1"
    using assms that by (force simp: astep_def acall_def a_tick_def Let_def)
qed

lemma sleeper_run:
  "arun ops a = Some b \<Longrightarrow> (t, n) \<in> set (asleep a) \<Longrightarrow> ticks_in ops < n \<Longrightarrow>
     (t, n - ticks_in ops) \<in> set (asleep b)"
proof (induction ops arbitrary: a n)
  case (Cons op ops)
  then obtain c where c: "astep op a = Some c" "arun ops c = Some b"
    by (auto simp: bind_eq_Some_conv)
  note st = sleeper_step [OF c(1) Cons.prems(2)]
  show ?case
  proof (cases "op = Tick")
    case True
    then have "(t, n - 1) \<in> set (asleep c)" "ticks_in ops < n - 1" using st Cons.prems(3) by auto
    from Cons.IH [OF c(2) this] show ?thesis using True by simp
  next
    case False
    then show ?thesis using Cons.IH [OF c(2) st(1)] Cons.prems(3) by simp
  qed
qed simp

section \<open>Bounded waiting\<close>

text \<open>The ticks a ready task can still have to wait for the tasks ahead of it.\<close>

definition ahead :: "addr \<Rightarrow> addr list \<Rightarrow> addr list" where
  "ahead t xs = takeWhile (\<lambda>x. x \<noteq> t) xs"

definition wait_bound :: "aspec \<Rightarrow> addr \<Rightarrow> nat" where
  "wait_bound a t = sum_list (map (aslice a) (ahead t (aready a)))"


lemma ahead_simps [simp]:
  "ahead t [] = []" "ahead t (x # xs) = (if x = t then [] else x # ahead t xs)"
  by (simp_all add: ahead_def)

lemma ahead_append [simp]: "t \<in> set xs \<Longrightarrow> ahead t (xs @ ys) = ahead t xs"
  by (induction xs) auto

lemma set_ahead: "set (ahead t xs) \<subseteq> set xs"
  by (auto simp: ahead_def dest: set_takeWhileD)

text \<open>As long as a ready task is not running, every tick brings its turn one tick closer and no
  other call delays it.\<close>

lemma ready_after:
  assumes "astep op a = Some b" and "op \<noteq> Tick"
  shows "\<exists>xs. aready b = aready a @ xs \<or> aready b = tl (aready a) @ xs"
  using assms
  by (cases op) (auto simp: astep_def acall_def aops rotate1_hd_tl split: if_splits option.splits
      list.splits prod.splits)

lemma wait_bound_call:
  assumes "astep op a = Some b" and "op \<noteq> Tick" and "t \<in> set (aready a)" and "hd (aready a) \<noteq> t"
  shows "t \<in> set (aready b) \<and> wait_bound b t \<le> wait_bound a t"
proof -
  obtain h R where R: "aready a = h # R" using assms(3) by (cases "aready a") auto
  then have t: "t \<in> set R" "h \<noteq> t" using assms(3,4) by auto
  obtain xs where "aready b = (h # R) @ xs \<or> aready b = R @ xs"
    using ready_after [OF assms(1,2)] R by auto
  then show ?thesis
    using t R astep_frame(3) [OF assms(1,2)] by (auto simp: wait_bound_def)
qed

lemma wait_bound_tick:
  assumes "astep Tick a = Some b" and "t \<in> set (aready a)" and "hd (aready a) \<noteq> t"
    and "awf a" and "distinct (aready a)"
  shows "t \<in> set (aready b) \<and> wait_bound b t + 1 = wait_bound a t"
proof -
  obtain h R where R: "aready a = h # R" using assms(2) by (cases "aready a") auto
  then have t: "t \<in> set R" "h \<noteq> t" "h \<notin> set R" using assms(2,3,5) by auto
  then have nh: "h \<notin> set (ahead t R)" using set_ahead by fast
  have "h \<in> set (aall a)" using assms(4) R by (auto simp: awf_def placed_def)
  then have pos: "0 < aslice a h" using assms(4) by (simp add: awf_def slice_wf_def)
  have m: "sum_list (map ((aslice a)(h := v)) (ahead t R)) = sum_list (map (aslice a) (ahead t R))" for v
    using nh by (simp add: map_fun_upd)
  have b: "b = a_tick a" using assms(1) by (simp add: astep_def acall_def)
  show ?thesis
    unfolding b using R t pos
    by (auto simp: m a_tick_def a_slice_def wait_bound_def Let_def)
qed

lemma bounded_waiting_run:
  "arun ops a = Some b \<Longrightarrow> t \<in> set (aready a) \<Longrightarrow> awf a \<Longrightarrow> uniq (alist a) \<Longrightarrow>
     wait_bound a t \<le> ticks_in ops \<Longrightarrow>
     \<exists>n\<le>length ops. \<exists>c. arun (take n ops) a = Some c \<and> aready c \<noteq> [] \<and> hd (aready c) = t"
proof (induction ops arbitrary: a)
  case Nil
  then have "ahead t (aready a) = []"
    by (cases "aready a") (auto simp: wait_bound_def awf_def slice_wf_def placed_def split: if_splits)
  then show ?case using Nil.prems by (cases "aready a") (auto split: if_splits)
next
  case (Cons op ops)
  then obtain c where c: "astep op a = Some c" "arun ops c = Some b"
    by (auto simp: bind_eq_Some_conv)
  show ?case
  proof (cases "hd (aready a) = t")
    case True
    then show ?thesis using Cons.prems(2) by (intro exI [of _ 0]) auto
  next
    case False
    have "distinct (aready a)" using Cons.prems(4) by (simp add: uniq_def) (metis alist.simps(1))
    then have "t \<in> set (aready c) \<and> wait_bound c t \<le> ticks_in ops"
      using wait_bound_call [OF c(1) _ Cons.prems(2) False] wait_bound_tick [of a c t] c(1) Cons.prems False
      by (cases "op = Tick") auto
    then obtain n d where "n \<le> length ops" "arun (take n ops) c = Some d" "aready d \<noteq> []" "hd (aready d) = t"
      using Cons.IH [OF c(2)] astep_awf [OF c(1) Cons.prems(3)] astep_uniq [OF c(1) Cons.prems(4)] by blast
    then show ?thesis using c(1) by (intro exI [of _ "Suc n"]) auto
  qed
qed

end
