(* ===== verification/Kernel_Refine.thy ===== *)
theory Kernel_Refine
  imports Kernel_Spec Ipc Timer
begin

text \<open>
  The kernel refines its specification. \<open>kexec\<close> runs one kernel call, or the clock interrupt, on
  the concrete state; \<open>kstep\<close> is the step relation of the running system: any sequence of calls by
  the running task on live semaphores and mutexes, with clock interrupts in between. \<open>sim\<close>
  relates a concrete state to a specification state, and every step of the kernel is matched by
  the step of the specification.
\<close>

section \<open>Steps of the running system\<close>

definition kexec :: "kop \<Rightarrow> kernel \<Rightarrow> kernel option" where
  "kexec op s = (case op of
      Yield \<Rightarrow> Some (sys_sched_yield s)
    | Sleep ms \<Rightarrow> Some (sys_sleep ms s)
    | SemWait p \<Rightarrow> Some (sem_wait p s)
    | SemNotify p \<Rightarrow> Some (sem_notify p s)
    | MutexLock p \<Rightarrow> Some (rein_mutex_lock p s)
    | MutexUnlock p \<Rightarrow> (case rein_mutex_unlock p s of Inl e \<Rightarrow> None | Inr s' \<Rightarrow> Some s')
    | Tick \<Rightarrow> timer_interrupt s)"

text \<open>Calls are made by a task other than the idle task (whose code only halts), on live objects,
  and the signed counters do not overflow.\<close>

definition allowed :: "addr set \<Rightarrow> addr set \<Rightarrow> kop \<Rightarrow> kernel \<Rightarrow> bool" where
  "allowed SS MM op s = (case op of
      Tick \<Rightarrow> True
    | Yield \<Rightarrow> curr_task s \<noteq> idle_task s
    | Sleep ms \<Rightarrow> curr_task s \<noteq> idle_task s
    | SemWait p \<Rightarrow> curr_task s \<noteq> idle_task s \<and> p \<in> SS
    | SemNotify p \<Rightarrow> curr_task s \<noteq> idle_task s \<and> p \<in> SS \<and> sint (sem_cnt (sems s p)) < 2 ^ 31 - 1
    | MutexLock p \<Rightarrow> curr_task s \<noteq> idle_task s \<and> p \<in> MM \<and> sint (locker (mutexes s p)) < 2 ^ 31 - 1
    | MutexUnlock p \<Rightarrow> curr_task s \<noteq> idle_task s \<and> p \<in> MM)"

inductive kstep :: "addr set \<Rightarrow> addr set \<Rightarrow> kernel \<Rightarrow> kop \<Rightarrow> kernel \<Rightarrow> bool" for SS MM where
  kstepI: "allowed SS MM op s \<Longrightarrow> kexec op s = Some s' \<Longrightarrow> kstep SS MM s op s'"

inductive_cases kstepE: "kstep SS MM s op s'"
inductive_simps kstep_simps: "kstep SS MM s op s'"

section \<open>The abstraction relation\<close>

definition queues_of :: "addr set \<Rightarrow> addr set \<Rightarrow> aspec \<Rightarrow> queues" where
  "queues_of SS MM a i = (case i of
      LReady \<Rightarrow> Some (aready a)
    | LSleep \<Rightarrow> Some (map fst (asleep a))
    | LAll \<Rightarrow> Some (aall a)
    | LSem p \<Rightarrow> if p \<in> SS then Some (asemq a p) else None
    | LMutex p \<Rightarrow> if p \<in> MM then Some (amtxq a p) else None)"

definition mtx_rel :: "(addr \<times> nat) option \<Rightarrow> rein_mutex_t \<Rightarrow> bool" where
  "mtx_rel x m = (case x of None \<Rightarrow> locker m = 0
     | Some (t, n) \<Rightarrow> owner m = t \<and> locker m = of_nat n \<and> n < 2 ^ 31)"

definition data_rel :: "addr set \<Rightarrow> addr set \<Rightarrow> aspec \<Rightarrow> kernel \<Rightarrow> bool" where
  "data_rel SS MM a s \<longleftrightarrow>
     (\<forall>t n. (t, n) \<in> set (asleep a) \<longrightarrow> sleep_ticks (tasks s t) = of_nat n \<and> n < 2 ^ 31) \<and>
     (\<forall>t\<in>set (aall a). slice_ticks (tasks s t) = of_nat (aslice a t) \<and>
        time_ticks (tasks s t) = of_nat (aquant a t) \<and> aquant a t < 2 ^ 31) \<and>
     (\<forall>p\<in>SS. sint (sem_cnt (sems s p)) = asem a p) \<and>
     (\<forall>p\<in>MM. mtx_rel (amtx a p) (mutexes s p))"

definition live :: "aspec \<Rightarrow> kernel \<Rightarrow> addr set" where
  "live a s = insert (idle_task s) (set (aall a))"

definition sim :: "addr set \<Rightarrow> addr set \<Rightarrow> aspec \<Rightarrow> kernel \<Rightarrow> bool" where
  "sim SS MM a s \<longleftrightarrow> kinv (live a s) (queues_of SS MM a) s \<and> data_rel SS MM a s \<and> awf a \<and> uniq (alist a)"

lemma queues_of_simps [simp]:
  "queues_of SS MM a LReady = Some (aready a)" "queues_of SS MM a LSleep = Some (map fst (asleep a))"
  "queues_of SS MM a LAll = Some (aall a)" "p \<in> SS \<Longrightarrow> queues_of SS MM a (LSem p) = Some (asemq a p)"
  "p \<in> MM \<Longrightarrow> queues_of SS MM a (LMutex p) = Some (amtxq a p)"
  by (simp_all add: queues_of_def)

lemma ready_queues_of [simp]: "ready (queues_of SS MM a) = aready a"
  by (simp add: ready_def)

lemma queues_eqI:
  "q LReady = r LReady \<Longrightarrow> q LSleep = r LSleep \<Longrightarrow> q LAll = r LAll \<Longrightarrow>
   (\<And>p. q (LSem p) = r (LSem p)) \<Longrightarrow> (\<And>p. q (LMutex p) = r (LMutex p)) \<Longrightarrow> q = r"
  by (rule ext, rename_tac i, case_tac i) auto

lemma queues_of_ops:
  "aready a \<noteq> [] \<Longrightarrow> queues_of SS MM (a_yield a) = q_rotate (queues_of SS MM a)"
  "queues_of SS MM (a_sleep n a) = q_block LSleep (queues_of SS MM a)"
  "p \<in> SS \<Longrightarrow> queues_of SS MM (a\<lparr>aready := tl (aready a), asemq := (asemq a)(p := asemq a p @ [hd (aready a)])\<rparr>)
     = q_block (LSem p) (queues_of SS MM a)"
  "p \<in> MM \<Longrightarrow> queues_of SS MM (a\<lparr>aready := tl (aready a), amtxq := (amtxq a)(p := amtxq a p @ [hd (aready a)])\<rparr>)
     = q_block (LMutex p) (queues_of SS MM a)"
  "p \<in> SS \<Longrightarrow> asemq a p = w # ws \<Longrightarrow>
     queues_of SS MM (a\<lparr>asemq := (asemq a)(p := ws), aready := aready a @ [w]\<rparr>)
     = q_wake (LSem p) (queues_of SS MM a)"
  "p \<in> MM \<Longrightarrow> amtxq a p = w # ws \<Longrightarrow>
     queues_of SS MM (a\<lparr>amtx := g, amtxq := (amtxq a)(p := ws), aready := aready a @ [w]\<rparr>)
     = q_wake (LMutex p) (queues_of SS MM a)"
  "queues_of SS MM (a\<lparr>asem := f\<rparr>) = queues_of SS MM a" "queues_of SS MM (a\<lparr>amtx := g\<rparr>) = queues_of SS MM a"
  by (rule queues_eqI; simp add: queues_of_def a_yield_def a_sleep_def q_rotate_def q_block_def q_wake_def
      ready_def rotate1_hd_tl)+

section \<open>What the calls leave alone\<close>

definition same_counters :: "kernel \<Rightarrow> kernel \<Rightarrow> bool" where
  "same_counters s s' \<longleftrightarrow> (\<forall>t. slice_ticks (tasks s' t) = slice_ticks (tasks s t) \<and>
     time_ticks (tasks s' t) = time_ticks (tasks s t) \<and> sleep_ticks (tasks s' t) = sleep_ticks (tasks s t))"

lemma same_counters_yield: "same_counters s (sys_sched_yield s)"
  by (simp add: same_counters_def sys_sched_yield_def Let_def)

lemma same_counters_wait: "same_counters s (sem_wait p s)"
  by (simp add: same_counters_def sem_wait_def Let_def split: prod.split)

lemma same_counters_notify: "same_counters s (sem_notify p s)"
  by (simp add: same_counters_def sem_notify_def Let_def split: prod.split)

lemma same_counters_lock: "same_counters s (rein_mutex_lock p s)"
  by (simp add: same_counters_def rein_mutex_lock_def Let_def split: prod.split)

lemma same_counters_unlock: "rein_mutex_unlock p s = Inr s' \<Longrightarrow> same_counters s s'"
  by (auto simp: same_counters_def rein_mutex_unlock_def mutex_handoff_def Let_def
      split: prod.splits if_splits)

lemma sys_sleep_counters:
  "slice_ticks (tasks (sys_sleep ms s) t) = slice_ticks (tasks s t)"
  "time_ticks (tasks (sys_sleep ms s) t) = time_ticks (tasks s t)"
  "sleep_ticks (tasks (sys_sleep ms s) t) =
     (if t = curr_task s then sleep_ticks_of_ms ms else sleep_ticks (tasks s t))"
  using sleep_ticks_of_ms_bounds(3) [of ms] by (simp_all add: sys_sleep_def Let_def)

lemma idle_task_ops [simp]:
  "idle_task (sys_sched_yield s) = idle_task s" "idle_task (sys_sleep ms s) = idle_task s"
  "idle_task (sem_wait p s) = idle_task s" "idle_task (sem_notify p s) = idle_task s"
  "idle_task (rein_mutex_lock p s) = idle_task s"
  "rein_mutex_unlock p s = Inr s' \<Longrightarrow> idle_task s' = idle_task s"
  by (simp_all add: sys_sched_yield_def sys_sleep_def sem_wait_def sem_notify_def rein_mutex_lock_def
      Let_def split: prod.split)
    (auto simp: rein_mutex_unlock_def mutex_handoff_def Let_def split: prod.splits if_splits)

section \<open>Every call is matched\<close>

lemma simI:
  assumes "sim SS MM a s" and "astep op a = Some a'" and "kinv (live a s) (queues_of SS MM a') s'"
    and "idle_task s' = idle_task s" and "data_rel SS MM a' s'"
  shows "sim SS MM a' s'"
  using assms astep_frame(1) [OF assms(2)] astep_awf [OF assms(2)] astep_uniq [OF assms(2)]
  by (simp add: sim_def live_def)

lemma simD:
  assumes "sim SS MM a s"
  shows "kinv (live a s) (queues_of SS MM a) s" "data_rel SS MM a s"
    "curr_task s = hd_or (idle_task s) (aready a)"
    "curr_task s \<noteq> idle_task s \<longleftrightarrow> aready a \<noteq> []"
proof -
  show k: "kinv (live a s) (queues_of SS MM a) s" "data_rel SS MM a s" using assms by (auto simp: sim_def)
  show c: "curr_task s = hd_or (idle_task s) (aready a)" using k(1) by (simp add: kinv_def)
  have "hd (aready a) \<noteq> idle_task s" if "aready a \<noteq> []"
    using kstatic_notidle(1) [of "live a s" "queues_of SS MM a" s "hd (aready a)" LReady] k(1) that
    by (simp add: kinv_def qset_Some)
  then show "curr_task s \<noteq> idle_task s \<longleftrightarrow> aready a \<noteq> []"
    using c by (cases "aready a") auto
qed

lemma sim_curr: "sim SS MM a s \<Longrightarrow> aready a \<noteq> [] \<Longrightarrow> curr_task s = hd (aready a)"
  by (simp add: simD(3) hd_or_hd)

lemma data_rel_counters:
  assumes "data_rel SS MM a s" and "same_counters s s'" and "asleep a' = asleep a" and "aall a' = aall a"
    and "aslice a' = aslice a" "aquant a' = aquant a"
    and "\<forall>p\<in>SS. sint (sem_cnt (sems s' p)) = asem a' p"
    and "\<forall>p\<in>MM. mtx_rel (amtx a' p) (mutexes s' p)"
  shows "data_rel SS MM a' s'"
  using assms by (simp add: data_rel_def same_counters_def)

lemma sim_yield:
  assumes "sim SS MM a s" and "aready a \<noteq> []"
  shows "sim SS MM (a_yield a) (sys_sched_yield s)"
proof (rule simI [where op = Yield, OF assms(1)])
  note k = simD [OF assms(1)]
  show "astep Yield a = Some (a_yield a)" using assms(2) by (simp add: astep_def acall_def)
  have "queues_of SS MM (a_yield a) = queues_of SS MM a" if "\<not> 1 < length (aready a)"
  proof -
    have "rotate1 (aready a) = aready a" using that by (cases "aready a") auto
    then show ?thesis by (simp add: a_yield_def)
  qed
  then have "queues_of SS MM (a_yield a) =
      (if 1 < length (aready a) then q_rotate (queues_of SS MM a) else queues_of SS MM a)"
    using queues_of_ops(1) [OF assms(2)] by simp
  then show "kinv (live a s) (queues_of SS MM (a_yield a)) (sys_sched_yield s)"
    using sys_sched_yield_kinv [OF k(1)] by simp
  show "data_rel SS MM (a_yield a) (sys_sched_yield s)"
    using k(2) by (intro data_rel_counters [OF k(2) same_counters_yield])
      (auto simp: a_yield_def data_rel_def sys_sched_yield_def Let_def)
qed simp

lemma sleep_ticks_spec: "unat (sleep_ticks_of_ms ms) = spec_ticks (unat ms)"
proof -
  have "unat (ms + 10 - 1) = (unat ms + 9) mod 2 ^ 32" by (simp add: unat_word_ariths) presburger
  then have "unat ((ms + 10 - 1) div 10) = (unat ms + 9) mod 2 ^ 32 div 10" by (simp add: unat_div)
  then show ?thesis
    by (simp add: sleep_ticks_of_ms_def OS_TICKS_MS_def spec_ticks_def unat_word_ariths)
qed

lemma sim_sleep:
  assumes "sim SS MM a s" and "aready a \<noteq> []"
  shows "sim SS MM (a_sleep (spec_ticks (unat ms)) a) (sys_sleep ms s)"
proof (rule simI [where op = "Sleep ms", OF assms(1)])
  note k = simD [OF assms(1)]
  show "astep (Sleep ms) a = Some (a_sleep (spec_ticks (unat ms)) a)"
    using assms(2) by (simp add: astep_def acall_def)
  show "kinv (live a s) (queues_of SS MM (a_sleep (spec_ticks (unat ms)) a)) (sys_sleep ms s)"
    using sys_sleep_kinv [OF k(1)] assms(2) by (simp add: queues_of_ops(2))
  have t: "curr_task s = hd (aready a)" by (rule sim_curr [OF assms])
  have notin: "(hd (aready a), n) \<notin> set (asleep a)" for n
  proof
    assume "(hd (aready a), n) \<in> set (asleep a)"
    then have "hd (aready a) \<in> set (alist a QSleep)" by force
    moreover have "hd (aready a) \<in> set (alist a QReady)" using assms(2) by simp
    moreover have "uniq (alist a)" using assms(1) by (simp add: sim_def)
    ultimately show False unfolding uniq_def by (metis aqueue.distinct(1) disjoint_iff)
  qed
  have n: "sleep_ticks_of_ms ms = of_nat (spec_ticks (unat ms))" "spec_ticks (unat ms) < 2 ^ 31"
    using sleep_ticks_of_ms_bounds(2) [of ms] sint_below [of "sleep_ticks_of_ms ms"]
    by (simp_all add: sleep_ticks_spec [symmetric] flip: of_nat_less_iff [where ?'a = int])
  show "data_rel SS MM (a_sleep (spec_ticks (unat ms)) a) (sys_sleep ms s)"
    using k(2) t notin n unfolding data_rel_def sys_sleep_counters a_sleep_def
    by (auto simp: sys_sleep_def Let_def)
qed simp

lemma sim_wait:
  assumes "sim SS MM a s" and "aready a \<noteq> []" and "p \<in> SS"
  shows "sim SS MM (a_wait p a) (sem_wait p s)"
proof (rule simI [where op = "SemWait p", OF assms(1)])
  note k = simD [OF assms(1)]
  have c: "sint (sem_cnt (sems s p)) = asem a p" using k(2) assms(3) by (simp add: data_rel_def)
  show "astep (SemWait p) a = Some (a_wait p a)" using assms(2) by (simp add: astep_def acall_def)
  have q: "queues_of SS MM a (LSem p) = Some (asemq a p)" using assms(3) by simp
  show "kinv (live a s) (queues_of SS MM (a_wait p a)) (sem_wait p s)"
    using sem_wait_take(1) [OF k(1)] sem_wait_block(1) [OF k(1) _ q] assms(2,3) c
    by (simp add: a_wait_def queues_of_ops)
  have dec: "sint (sem_cnt (sems s p) - 1) = asem a p - 1" if "0 < asem a p"
    using sint_pos_decr [of "sem_cnt (sems s p)"] that c by simp
  show "data_rel SS MM (a_wait p a) (sem_wait p s)"
  proof (cases "0 < asem a p")
    case True
    then show ?thesis
      using k(2) c dec sem_wait_take(2,3) [OF k(1), of p]
      by (intro data_rel_counters [OF k(2) same_counters_wait]) (auto simp: a_wait_def data_rel_def)
  next
    case False
    then show ?thesis
      using k(2) c sem_wait_block(2,3) [OF k(1) _ q] assms(2)
      by (intro data_rel_counters [OF k(2) same_counters_wait]) (auto simp: a_wait_def data_rel_def)
  qed
qed simp

lemma sim_notify:
  assumes "sim SS MM a s" and "aready a \<noteq> []" and "p \<in> SS" and "sint (sem_cnt (sems s p)) < 2 ^ 31 - 1"
  shows "sim SS MM (a_notify p a) (sem_notify p s)"
proof (rule simI [where op = "SemNotify p", OF assms(1)])
  note k = simD [OF assms(1)]
  have c: "sint (sem_cnt (sems s p)) = asem a p" using k(2) assms(3) by (simp add: data_rel_def)
  show "astep (SemNotify p) a = Some (a_notify p a)" using assms(2) by (simp add: astep_def acall_def)
  have q: "queues_of SS MM a (LSem p) = Some (asemq a p)" using assms(3) by simp
  have inc: "sint (sem_cnt (sems s p) + 1) = asem a p + 1" using sint_incr [OF assms(4)] c by simp
  show "kinv (live a s) (queues_of SS MM (a_notify p a)) (sem_notify p s)"
    using sem_notify_count(1) [OF k(1)] sem_notify_wake(1) [OF k(1)] q assms(3)
    by (cases "asemq a p") (simp_all add: a_notify_def queues_of_ops)
  show "data_rel SS MM (a_notify p a) (sem_notify p s)"
  proof (cases "asemq a p")
    case Nil
    then show ?thesis
      using k(2) c inc sem_notify_count(2,3) [OF k(1), of p] q
      by (intro data_rel_counters [OF k(2) same_counters_notify]) (auto simp: a_notify_def data_rel_def)
  next
    case (Cons w ws)
    then show ?thesis
      using k(2) sem_notify_wake(2,3) [OF k(1), of p w ws] q
      by (intro data_rel_counters [OF k(2) same_counters_notify]) (auto simp: a_notify_def data_rel_def)
  qed
qed simp

text \<open>A nesting level below the range of the counter, read as a machine word.\<close>

lemma of_nat_level:
  assumes "n < 2 ^ 31"
  shows "(of_nat n :: cint) = 0 \<longleftrightarrow> n = 0" "(of_nat n :: cint) = 1 \<longleftrightarrow> n = 1"
    "sint (of_nat n :: cint) = int n"
proof -
  show "(of_nat n :: cint) = 0 \<longleftrightarrow> n = 0" using assms by (intro addr_of_nat_eq_0) simp
  have "unat (of_nat n :: cint) = n" using assms by (simp add: unat_of_nat)
  then show "(of_nat n :: cint) = 1 \<longleftrightarrow> n = 1" "sint (of_nat n :: cint) = int n"
    using assms sint_small [of "of_nat n"] by auto
qed

lemma sim_mtx: "sim SS MM a s \<Longrightarrow> p \<in> MM \<Longrightarrow> mtx_rel (amtx a p) (mutexes s p) \<and> mtx_wf a p"
  by (simp add: sim_def data_rel_def awf_def)

lemma mtx_rel_cong: "owner m' = owner m \<Longrightarrow> locker m' = locker m \<Longrightarrow> mtx_rel x m' = mtx_rel x m"
  by (simp add: mtx_rel_def split: option.split)

lemma sim_lock:
  assumes "sim SS MM a s" and "aready a \<noteq> []" and "p \<in> MM" and lim: "sint (locker (mutexes s p)) < 2 ^ 31 - 1"
  shows "sim SS MM (a_lock p a) (rein_mutex_lock p s)"
proof (rule simI [where op = "MutexLock p", OF assms(1)])
  note k = simD [OF assms(1)] and m = sim_mtx [OF assms(1,3)] and t = sim_curr [OF assms(1,2)]
  show "astep (MutexLock p) a = Some (a_lock p a)" using assms(2) by (simp add: astep_def acall_def)
  have q: "queues_of SS MM a (LMutex p) = Some (amtxq a p)" using assms(3) by simp
  have "kinv (live a s) (queues_of SS MM (a_lock p a)) (rein_mutex_lock p s) \<and>
    data_rel SS MM (a_lock p a) (rein_mutex_lock p s)"
  proof (cases "amtx a p = None \<or> (\<exists>n. amtx a p = Some (curr_task s, n))")
    case True
    then have free: "locker (mutexes s p) = 0 \<or> owner (mutexes s p) = curr_task s"
      using m by (auto simp: mtx_rel_def)
    note take = mutex_lock_take [OF k(1) free]
    obtain g where g: "a_lock p a = a\<lparr>amtx := (amtx a)(p := g)\<rparr>"
      "mtx_rel g ((mutexes s p)\<lparr>locker := locker (mutexes s p) + 1, owner := curr_task s\<rparr>)"
      using True m t lim of_nat_level(3)
      by (auto simp: a_lock_def mtx_rel_def)
    have "data_rel SS MM (a_lock p a) (rein_mutex_lock p s)"
      unfolding g(1) using k(2) g(2) take(2,3)
      by (intro data_rel_counters [OF k(2) same_counters_lock]) (auto simp: data_rel_def)
    then show ?thesis using take(1) by (simp add: g(1) queues_of_ops)
  next
    case False
    then obtain u n where u: "amtx a p = Some (u, n)" "u \<noteq> curr_task s" by auto
    then have busy: "locker (mutexes s p) \<noteq> 0" "owner (mutexes s p) \<noteq> curr_task s"
      using m of_nat_level(1) [of n] by (auto simp: mtx_rel_def mtx_wf_def)
    note block = mutex_lock_block [OF k(1) _ q busy]
    have al: "a_lock p a = a\<lparr>aready := tl (aready a), amtxq := (amtxq a)(p := amtxq a p @ [hd (aready a)])\<rparr>"
      using u t by (simp add: a_lock_def)
    have "mtx_rel (amtx a r) (mutexes (rein_mutex_lock p s) r) = mtx_rel (amtx a r) (mutexes s r)" for r
      using block(2,3) assms(2) by (intro mtx_rel_cong) simp_all
    then have "data_rel SS MM (a_lock p a) (rein_mutex_lock p s)"
      unfolding al using k(2) block(4) assms(2)
      by (intro data_rel_counters [OF k(2) same_counters_lock]) (simp_all add: data_rel_def)
    then show ?thesis
      using block(1) assms(2,3) unfolding al by (simp add: queues_of_ops)
  qed
  then show "kinv (live a s) (queues_of SS MM (a_lock p a)) (rein_mutex_lock p s)"
    "data_rel SS MM (a_lock p a) (rein_mutex_lock p s)" by auto
qed simp

lemma unlock_data:
  assumes "sim SS MM a s" and "rein_mutex_unlock p s = Inr s'" and "sems s' = sems s"
    and "\<forall>r. r \<noteq> p \<longrightarrow> mutexes s' r = mutexes s r" and "mtx_rel g (mutexes s' p)"
    and "asleep a' = asleep a" "aall a' = aall a" "aslice a' = aslice a" "aquant a' = aquant a"
    "asem a' = asem a" "amtx a' = (amtx a)(p := g)"
  shows "data_rel SS MM a' s'"
  using assms simD(2) [OF assms(1)]
  by (intro data_rel_counters [OF simD(2) [OF assms(1)] same_counters_unlock [OF assms(2)]])
    (auto simp: data_rel_def)

definition unlock_matched :: "addr set \<Rightarrow> addr set \<Rightarrow> addr \<Rightarrow> aspec \<Rightarrow> kernel \<Rightarrow> bool" where
  "unlock_matched SS MM p a s = (case a_unlock p a of None \<Rightarrow> \<exists>e. rein_mutex_unlock p s = Inl e
    | Some a' \<Rightarrow> \<exists>s'. rein_mutex_unlock p s = Inr s' \<and> sim SS MM a' s')"

lemma unlock_matchedI:
  assumes "sim SS MM a s" and "aready a \<noteq> []" and "a_unlock p a = Some a'" and "rein_mutex_unlock p s = Inr s'"
    and "data_rel SS MM a' s'" and "kinv (live a s) (queues_of SS MM a') s'"
  shows "unlock_matched SS MM p a s"
  using simI [where op = "MutexUnlock p", OF assms(1)] assms
  by (auto simp: astep_def acall_def unlock_matched_def)

lemma sim_unlock_nested:
  assumes "sim SS MM a s" and "aready a \<noteq> []" and n: "amtx a p = Some (hd (aready a), n)" "n \<noteq> 1"
    and own: "owner (mutexes s p) = curr_task s" "locker (mutexes s p) = of_nat n" "n < 2 ^ 31" "0 < n"
  shows "unlock_matched SS MM p a s"
proof -
  let ?a = "a\<lparr>amtx := (amtx a)(p := Some (hd (aready a), n - 1))\<rparr>"
  note k = simD [OF assms(1)] and t = sim_curr [OF assms(1,2)] and lv = of_nat_level [OF own(3)]
  have a: "a_unlock p a = Some ?a" using n by (simp add: a_unlock_def)
  obtain s' where s': "rein_mutex_unlock p s = Inr s'" "kinv (live a s) (queues_of SS MM a) s'"
    "mutexes s' = (mutexes s)(p := (mutexes s p)\<lparr>locker := locker (mutexes s p) - 1\<rparr>)" "sems s' = sems s"
    using mutex_unlock_nested [OF k(1) own(1)] own lv n(2) by auto
  have "mtx_rel (Some (hd (aready a), n - 1)) (mutexes s' p)"
    using own s'(3) t by (simp add: mtx_rel_def of_nat_diff)
  then have "data_rel SS MM ?a s'" using s' by (intro unlock_data [OF assms(1) s'(1)]) auto
  then show ?thesis using unlock_matchedI [OF assms(1,2) a s'(1)] s'(2) by (simp add: queues_of_ops)
qed

lemma sim_unlock_last:
  assumes "sim SS MM a s" and "aready a \<noteq> []" and "p \<in> MM" and n: "amtx a p = Some (hd (aready a), 1)"
    and own: "owner (mutexes s p) = curr_task s" "locker (mutexes s p) = 1"
  shows "unlock_matched SS MM p a s"
proof -
  note k = simD [OF assms(1)]
  have q: "queues_of SS MM a (LMutex p) = Some (amtxq a p)" using assms(3) by simp
  show ?thesis
  proof (cases "amtxq a p")
    case Nil
    let ?a = "a\<lparr>amtx := (amtx a)(p := None)\<rparr>"
    have a: "a_unlock p a = Some ?a" using n Nil by (simp add: a_unlock_def)
    obtain s' where s': "rein_mutex_unlock p s = Inr s'" "kinv (live a s) (queues_of SS MM a) s'"
      "mutexes s' = (mutexes s)(p := (mutexes s p)\<lparr>locker := 0, owner := 0\<rparr>)" "sems s' = sems s"
      using mutex_unlock_free [OF k(1) _ own] q Nil by auto
    then have "data_rel SS MM ?a s'" by (intro unlock_data [OF assms(1) s'(1)]) (auto simp: mtx_rel_def)
    then show ?thesis using unlock_matchedI [OF assms(1,2) a s'(1)] s'(2) by (simp add: queues_of_ops)
  next
    case (Cons w ws)
    let ?a = "a\<lparr>amtx := (amtx a)(p := Some (w, 1)), amtxq := (amtxq a)(p := ws), aready := aready a @ [w]\<rparr>"
    have a: "a_unlock p a = Some ?a" using n Cons by (simp add: a_unlock_def)
    obtain s' where s': "rein_mutex_unlock p s = Inr s'" "kinv (live a s) (q_wake (LMutex p) (queues_of SS MM a)) s'"
      "owner (mutexes s' p) = w" "locker (mutexes s' p) = 1" "\<forall>r. r \<noteq> p \<longrightarrow> mutexes s' r = mutexes s r"
      "sems s' = sems s"
      using mutex_unlock_handoff [OF k(1) _ _ own] Cons q assms(2) by auto
    then have "data_rel SS MM ?a s'" by (intro unlock_data [OF assms(1) s'(1)]) (auto simp: mtx_rel_def)
    then show ?thesis
      using unlock_matchedI [OF assms(1,2) a s'(1)] s'(2) queues_of_ops(6) [OF assms(3) Cons] by simp
  qed
qed

lemma sim_unlock:
  assumes "sim SS MM a s" and "aready a \<noteq> []" and "p \<in> MM"
  shows "unlock_matched SS MM p a s"
proof (cases "\<exists>n. amtx a p = Some (hd (aready a), n)")
  case False
  note m = sim_mtx [OF assms(1,3)] and t = sim_curr [OF assms(1,2)]
  have "a_unlock p a = None" using False by (auto simp: a_unlock_def split: option.splits)
  moreover have "locker (mutexes s p) = 0 \<or> owner (mutexes s p) \<noteq> curr_task s"
    using m t False by (auto simp: mtx_rel_def split: option.splits)
  ultimately show ?thesis using mutex_unlock_panic [of s p] by (auto simp: unlock_matched_def)
next
  case True
  then obtain n where n: "amtx a p = Some (hd (aready a), n)" by blast
  then have "owner (mutexes s p) = curr_task s" "locker (mutexes s p) = of_nat n" "n < 2 ^ 31" "0 < n"
    using sim_mtx [OF assms(1,3)] sim_curr [OF assms(1,2)] by (auto simp: mtx_rel_def mtx_wf_def)
  with n show ?thesis using sim_unlock_nested [OF assms(1,2)] sim_unlock_last [OF assms] by (cases "n = 1") auto
qed

section \<open>The clock tick is matched\<close>

lemma queues_of_tick:
  assumes "sim SS MM a s"
  shows "queues_of SS MM (a_tick a) = q_tick s (queues_of SS MM a)"
proof -
  note d = simD(2) [OF assms] and wf = assms [unfolded sim_def awf_def]
  have w: "wakes s t \<longleftrightarrow> n = 1" if "(t, n) \<in> set (asleep a)" for t n
    using d that of_nat_level(2) [of n] by (auto simp: data_rel_def wakes_def)
  have f: "filter (\<lambda>t. wakes s t) (map fst (asleep a)) = map fst (filter (\<lambda>(t, n). n = 1) (asleep a))"
    "filter (\<lambda>t. \<not> wakes s t) (map fst (asleep a)) = map fst (filter (\<lambda>(t, n). n \<noteq> 1) (asleep a))"
    unfolding filter_map comp_def by (auto intro!: arg_cong [where f = "map fst"] filter_cong simp: w)
  have e: "slice_ends (queues_of SS MM a) s \<longleftrightarrow> aready a \<noteq> [] \<and> aslice a (hd (aready a)) = 1"
  proof (cases "aready a")
    case (Cons h R)
    then have "h \<in> set (aall a)" using wf by (auto simp: placed_def)
    then have "slice_ticks (tasks s h) = of_nat (aslice a h)" "aslice a h < 2 ^ 31"
      using d wf by (fastforce simp: data_rel_def slice_wf_def)+
    then show ?thesis using Cons of_nat_level(2) [of "aslice a h"] by (simp add: slice_ends_def)
  qed (simp add: slice_ends_def)
  show ?thesis
    by (rule queues_eqI)
      (auto simp: q_tick_def q_wakeup_def q_rotate_def e f sleepers_def a_tick_def a_slice_def ready_def
        queues_of_def Let_def comp_def case_prod_unfold split: list.splits)
qed

lemma kinv_idle:
  assumes "kinv T q s" and "kinv T q' s'" and "q' LAll = q LAll"
  shows "idle_task s' = idle_task s"
proof -
  have "qset q' LAll = qset q LAll" using assms(3) by (simp add: qset_def)
  moreover have "T = insert (idle_task s) (qset q LAll)" "idle_task s \<notin> qset q LAll"
    "T = insert (idle_task s') (qset q' LAll)" "idle_task s' \<notin> qset q' LAll"
    using assms(1,2) unfolding kinv_def kstatic_def by blast+
  ultimately show ?thesis by blast
qed

lemma of_nat_pred: "0 < n \<Longrightarrow> (of_nat n :: cint) - 1 = of_nat (n - 1)"
  by (cases n) auto

lemma data_rel_tick:
  assumes sim: "sim SS MM a s" and c: "tick_counters (queues_of SS MM a) s (s'\<lparr>sys_tick := sys_tick s\<rparr>)"
    and same: "sems s' = sems s" "mutexes s' = mutexes s"
  shows "data_rel SS MM (a_tick a) s'"
proof -
  note d = simD(2) [OF sim] and wf = sim [unfolded sim_def awf_def]
  have sl: "slice_ticks (tasks s' t) = of_nat (aslice (a_tick a) t)" if "t \<in> set (aall a)" for t
  proof -
    have "0 < aslice a t" "aslice a t < 2 ^ 31" "slice_ticks (tasks s t) = of_nat (aslice a t)"
      "time_ticks (tasks s t) = of_nat (aquant a t)"
      using d wf that by (fastforce simp: data_rel_def slice_wf_def)+
    then show ?thesis
      using c of_nat_level(2) [of "aslice a t"] of_nat_pred [of "aslice a t"]
      by (auto simp: tick_counters_def next_slice_def a_tick_def a_slice_def Let_def split: list.splits)
  qed
  have sp: "sleep_ticks (tasks s' t) = of_nat (n - 1) \<and> n - 1 < 2 ^ 31" if "(t, n) \<in> set (asleep a)" for t n
  proof -
    have "t \<in> fst ` set (asleep a)" using that by force
    then have "sleep_ticks (tasks s' t) = sleep_ticks (tasks s t) - 1"
      using c by (simp add: tick_counters_def sleepers_def)
    moreover have "0 < n" "n < 2 ^ 31" "sleep_ticks (tasks s t) = of_nat n"
      using d wf that by (auto simp: data_rel_def sleep_wf_def)
    ultimately show ?thesis using of_nat_pred [of n] by (simp del: of_nat_diff)
  qed
  have fr: "aall (a_tick a) = aall a" "aquant (a_tick a) = aquant a" "asem (a_tick a) = asem a"
    "amtx (a_tick a) = amtx a"
    by (simp_all add: a_tick_def a_slice_def Let_def split: list.split)
  have "\<forall>t n. (t, n) \<in> set (asleep (a_tick a)) \<longrightarrow> sleep_ticks (tasks s' t) = of_nat n \<and> n < 2 ^ 31"
    using sp by (auto simp: a_tick_def Let_def)
  moreover have "time_ticks (tasks s' t) = time_ticks (tasks s t)" for t
    using c by (simp add: tick_counters_def)
  ultimately show ?thesis
    using d sl same by (simp add: data_rel_def fr)
qed

lemma sim_tick:
  assumes "sim SS MM a s"
  shows "\<exists>s'. timer_interrupt s = Some s' \<and> sim SS MM (a_tick a) s' \<and> sys_tick s' = sys_tick s + 1 \<and>
    idle_task s' = idle_task s"
proof -
  note k = simD(1) [OF assms]
  from timer_interrupt_kinv [OF k] obtain s' where
    s': "timer_interrupt s = Some s'" "kinv (live a s) (queues_of SS MM (a_tick a)) s'"
    "sems s' = sems s" "mutexes s' = mutexes s" "sys_tick s' = sys_tick s + 1"
    "tick_counters (queues_of SS MM a) s (s'\<lparr>sys_tick := sys_tick s\<rparr>)"
    unfolding queues_of_tick [OF assms] by blast
  have tick: "astep Tick a = Some (a_tick a)" by (simp add: astep_def acall_def)
  have "idle_task s' = idle_task s"
    using kinv_idle [OF k s'(2)] astep_frame(1) [OF tick] by simp
  then show ?thesis
    using simI [OF assms tick s'(2)] data_rel_tick [OF assms s'(6,3,4)] s' by blast
qed

section \<open>Refinement\<close>

lemma kexec_unlock:
  "unlock_matched SS MM p a s \<Longrightarrow> (case a_unlock p a of None \<Rightarrow> kexec (MutexUnlock p) s = None
    | Some a' \<Rightarrow> \<exists>s'. kexec (MutexUnlock p) s = Some s' \<and> sim SS MM a' s')"
  by (auto simp: unlock_matched_def kexec_def split: option.splits)

lemma kexec_refines:
  assumes "sim SS MM a s" and "allowed SS MM op s"
  shows "case astep op a of None \<Rightarrow> kexec op s = None
    | Some a' \<Rightarrow> \<exists>s'. kexec op s = Some s' \<and> sim SS MM a' s'"
proof (cases "op = Tick")
  case True
  then show ?thesis using sim_tick [OF assms(1)] by (auto simp: kexec_def astep_def acall_def)
next
  case False
  then have R: "aready a \<noteq> []"
    using assms simD(4) [OF assms(1)] by (auto simp: allowed_def split: kop.splits)
  then have "astep op a = acall op a" by (simp add: astep_def)
  with assms R False show ?thesis
    using sim_yield [OF assms(1)] sim_sleep [OF assms(1)] sim_wait [OF assms(1)] sim_notify [OF assms(1)]
      sim_lock [OF assms(1)] kexec_unlock [OF sim_unlock [OF assms(1) R]]
    by (cases op) (auto simp: allowed_def acall_def, simp_all add: kexec_def)
qed

end
