(* ===== verification/Boot.thy ===== *)
theory Boot
  imports Tasks Timer Log Kernel_Refine
begin

text \<open>
  System start: \<^verbatim>\<open>kernel_init\<close> and the part of \<^verbatim>\<open>init_main\<close> before its endless loop
  (\<^verbatim>\<open>src/source/kernel/init/init.c\<close>). From a machine whose tables have their static sizes and
  whose objects do not overlap, the boot sequence completes and establishes the relation to the
  specification from which the running system starts.
\<close>

section \<open>Operations\<close>

definition kernel_init :: "kernel \<Rightarrow> unit outcome" where
  "kernel_init s =
    and_then (task_manager_init (timer_init (cpu_init s))) (\<lambda>_ s1. Done () (log_init s1))"

definition init_main_start :: "kernel \<Rightarrow> unit outcome" where
  "init_main_start s0 =
    and_then (task_main_init s0) (\<lambda>_ s.
      let s1 = sem_init (symaddr s ''notify_task_print'') 0 s;
          s2 = irq_enable_global s1
      in and_then (task_init (symaddr s2 ''new_task'') (symaddr s2 ''str_my_new_task'')
           (symaddr s2 ''new_task_entry'') (symaddr s2 ''new_task_stack'' + 4 * 1024) s2) (\<lambda>_ s3. Done () s3))"

definition boot :: "kernel \<Rightarrow> unit outcome" where
  "boot s = and_then (kernel_init s) (\<lambda>_ s1. init_main_start s1)"

section \<open>What the boot sequence relies on\<close>

definition new_task :: "kernel \<Rightarrow> addr" where "new_task s = symaddr s ''new_task''"
definition notify_sem :: "kernel \<Rightarrow> addr" where "notify_sem s = symaddr s ''notify_task_print''"

definition literal_at :: "kernel \<Rightarrow> string \<Rightarrow> string \<Rightarrow> bool" where
  "literal_at s name lit \<longleftrightarrow> cstr (mem s) (symaddr s name) (map chr lit) \<and>
     (\<forall>t\<in>{idle_task s, main_task s, new_task s}. region t 33 \<inter> region (symaddr s name) 33 = {})"

text \<open>The string literals of \<^verbatim>\<open>init.c\<close>: the names of the tasks and the formats of the demonstration.\<close>

definition boot_literals :: "kernel \<Rightarrow> bool" where
  "boot_literals s \<longleftrightarrow> literal_at s ''str_idle_task'' ''idle_task'' \<and> literal_at s ''str_main'' ''main'' \<and>
     literal_at s ''str_my_new_task'' ''my new task'' \<and> literal_at s ''str_sending'' ''sending notify: %d'' \<and>
     literal_at s ''str_recv'' ''recv notify: %d''"

definition boot_ok :: "kernel \<Rightarrow> bool" where
  "boot_ok s \<longleftrightarrow> length (gdt_table s) = 256 \<and> length (idt_table s) = 128 \<and> \<not> fault s \<and> kstk s = [] \<and>
     idle_task s \<noteq> new_task s \<and> main_task s \<noteq> new_task s \<and>
     tasks_sep {idle_task s, main_task s, new_task s} \<and> cpu_mutex s \<noteq> log_mutex s \<and>
     boot_literals s"

section \<open>The stages of the boot sequence\<close>

lemma rein_mutex_init_simp:
  "rein_mutex_init p s = s\<lparr>mutexes := (mutexes s)(p := \<lparr>owner = 0, locker = 0, mutex_wait_list = list_init\<rparr>)\<rparr>"
  by (cases "mutexes s p") (simp add: rein_mutex_init_def upd_mutex_def)

definition boot_gdt :: "segment_desc_t list" where
  "boot_gdt = [zero_desc, code_desc, data_desc] @ replicate 253 zero_desc"

lemma machine_ready:
  assumes "length (gdt_table s) = 256" and "length (idt_table s) = 128"
  shows "\<exists>tb es g d. timer_init (cpu_init s) = s\<lparr>mutexes := (mutexes s)(cpu_mutex s :=
      \<lparr>owner = 0, locker = 0, mutex_wait_list = list_init\<rparr>), gdt_table := boot_gdt, gdtr := g, idt_table := tb,
      idtr := d, io := es, sys_tick := 0\<rparr> \<and> length tb = 128"
proof -
  let ?s1 = "s\<lparr>mutexes := (mutexes s)(cpu_mutex s := \<lparr>owner = 0, locker = 0, mutex_wait_list = list_init\<rparr>),
    gdt_table := boot_gdt, gdtr := (symaddr s ''gdt_table'', 2047)\<rparr>"
  have "gdt_init (rein_mutex_init (cpu_mutex s) s) = ?s1"
    using gdt_init_table [of "rein_mutex_init (cpu_mutex s) s"] assms(1)
    by (simp add: rein_mutex_init_simp boot_gdt_def)
  then have c: "cpu_init s = irq_init ?s1" by (simp add: cpu_init_def)
  obtain tb es where i: "irq_init ?s1 = ?s1\<lparr>idt_table := tb, idtr := (symaddr s ''idt_table'', 1023), io := es\<rparr>"
    "length tb = 128"
    using irq_init_state [of ?s1] assms(2) by auto
  let ?s2 = "?s1\<lparr>idt_table := tb, idtr := (symaddr s ''idt_table'', 1023), io := es\<rparr>"
  obtain tb' es' where "timer_init ?s2 = ?s2\<lparr>sys_tick := 0, idt_table := tb', io := es'\<rparr>" "length tb' = 128"
    using timer_init_state [of ?s2] i(2) by auto
  then show ?thesis
    unfolding c i(1) by (intro exI [of _ tb'] exI [of _ es'] exI [of _ "(symaddr s ''gdt_table'', 2047)"]
        exI [of _ "(symaddr s ''idt_table'', 1023)"]) simp
qed

text \<open>The descriptor table while tasks are created: the entries from some index on are unused.\<close>

definition gdt_from :: "nat \<Rightarrow> kernel \<Rightarrow> bool" where
  "gdt_from k s \<longleftrightarrow> (\<forall>j. k \<le> j \<and> j < 256 \<longrightarrow> attr (gdt_table s ! j) = 0)"

lemma gdt_from_find:
  assumes "gdt_from k s" and "1 \<le> k" "k < 256"
  shows "\<exists>i. find_free 255 (gdt_table s) = Some i \<and> i \<le> k"
proof (cases "find_free 255 (gdt_table s)")
  case None
  then have "attr (gdt_table s ! k) \<noteq> 0" using find_free_None [of 255 "gdt_table s"] assms(2,3) by simp
  then show ?thesis using assms by (simp add: gdt_from_def)
next
  case (Some i)
  have "\<not> k < i" using find_free_Some [OF _ Some] assms by (auto simp: gdt_from_def)
  then show ?thesis using Some by simp
qed

lemma gdt_from_create:
  assumes "gdt_from k s" and "1 \<le> k" "k < 256" and "create_frame t n s s'"
  shows "gdt_from (Suc k) s'"
proof -
  obtain i where "find_free 255 (gdt_table s) = Some i" "i \<le> k" using gdt_from_find [OF assms(1-3)] by blast
  then show ?thesis using assms(1,4) by (auto simp: gdt_from_def create_frame_def)
qed

text \<open>A mutex as \<^verbatim>\<open>rein_mutex_init\<close> leaves it, and what holds throughout the boot sequence.\<close>

definition mutex_new :: "addr \<Rightarrow> kernel \<Rightarrow> bool" where
  "mutex_new p s \<longleftrightarrow> locker (mutexes s p) = 0 \<and> mutex_wait_list (mutexes s p) = list_init"

lemma mutex_new_idle: "mutex_new p s \<Longrightarrow> mutex_idle p s"
  by (simp add: mutex_new_def mutex_idle_def list_init_def)

definition booting :: "nat \<Rightarrow> addr set \<Rightarrow> queues \<Rightarrow> kernel \<Rightarrow> bool" where
  "booting k T q s \<longleftrightarrow> tasks_inv T q s \<and> gdt_from k s \<and> kstk s = [] \<and> mutex_new (cpu_mutex s) s \<and>
     boot_literals s \<and> q LReady \<noteq> None \<and> q LAll \<noteq> None \<and>
     (\<forall>u\<in>T. slice_ticks (tasks s u) = 10 \<and> time_ticks (tasks s u) = 10)"

lemma region_mono: "n \<le> m \<Longrightarrow> region a n \<subseteq> region a m"
  by (auto simp: region_eq)

lemma literal_kept:
  assumes "literal_at s name lit" and "create_frame t n s s'" and "n \<le> 33" and "length lit \<le> 32"
    and "t \<in> {idle_task s, main_task s, new_task s}"
  shows "literal_at s' name lit"
proof -
  let ?p = "symaddr s name"
  have sy: "symaddr s' = symaddr s" and m: "x \<notin> region t n \<Longrightarrow> mem s' x = mem s x" for x
    using assms(2) by (auto simp: create_frame_def)
  have d: "region t 33 \<inter> region ?p 33 = {}" using assms(1,5) unfolding literal_at_def by blast
  have "region t n \<subseteq> region t 33" "region ?p (Suc (length lit)) \<subseteq> region ?p 33"
    using assms(3,4) by (auto intro!: region_mono simp del: region.simps)
  then have "cstr (mem s') ?p (map chr lit) \<longleftrightarrow> cstr (mem s) ?p (map chr lit)"
    using d m by (intro cstr_cong) (auto simp del: region.simps)
  then show ?thesis
    using assms(1) sy by (simp add: literal_at_def idle_task_def main_task_def new_task_def del: region.simps)
qed

lemma boot_create:
  assumes b: "booting k T q s" and k: "1 \<le> k" "k < 256" and t: "t \<in> {idle_task s, main_task s, new_task s}"
    and T: "t \<notin> T" "tasks_sep (insert t T)" "t \<noteq> curr_task s"
    and lit: "literal_at s name lit" "lit \<noteq> []" "length lit \<le> 32"
  shows "\<exists>s'. task_init t (symaddr s name) e p s = Done 0 s' \<and> create_frame t (Suc (length lit)) s s' \<and>
    booting (Suc k) (insert t T) (q_create t s q) s'"
proof -
  let ?n = "symaddr s name" and ?bs = "map chr lit"
  have tb: "tasks_inv T q s" "q LReady \<noteq> None" "q LAll \<noteq> None" "gdt_from k s" "mutex_new (cpu_mutex s) s"
    using b by (auto simp: booting_def)
  have "region t (Suc (length lit)) \<subseteq> region t 33" "region ?n (Suc (length lit)) \<subseteq> region ?n 33"
    using lit(3) by (auto intro!: region_mono simp del: region.simps)
  then have reg: "region t (Suc (length ?bs)) \<inter> region ?n (Suc (length ?bs)) = {}"
    using lit(1) t unfolding literal_at_def by (fastforce simp del: region.simps)
  have "can_create t ?n ?bs s"
    using lit gdt_from_find [OF tb(4) k] mutex_new_idle [OF tb(5)] reg
    by (auto simp: can_create_def literal_at_def simp del: region.simps)
  from create_tasks_inv [OF tb(1) T this tb(2,3), of e p] obtain s' where
    s': "task_init t ?n e p s = Done 0 s'" "tasks_inv (insert t T) (q_create t s q) s'"
      "create_frame t (Suc (length lit)) s s'" "slice_ticks (tasks s' t) = 10" "time_ticks (tasks s' t) = 10"
    by auto
  have "boot_literals s'"
    using b t literal_kept [OF _ s'(3)] lit(3) by (auto simp: boot_literals_def booting_def)
  moreover have "mutex_new (cpu_mutex s') s'" "kstk s' = []" "\<forall>u. u \<noteq> t \<longrightarrow> tasks s' u = tasks s u"
    using b s'(3) by (auto simp: create_frame_def booting_def mutex_new_def mutex_idle_def cpu_mutex_def)
  ultimately have "booting (Suc k) (insert t T) (q_create t s q) s'"
    using b s' gdt_from_create [OF tb(4) k s'(3)] by (auto simp: booting_def q_create_def)
  with s' show ?thesis by blast
qed

definition q0 :: queues where
  "q0 = Map.empty(LReady \<mapsto> [], LSleep \<mapsto> [], LAll \<mapsto> [])"

lemma boot_gdt_from: "gdt_table s = boot_gdt \<Longrightarrow> gdt_from 3 s"
  by (auto simp: gdt_from_def boot_gdt_def zero_desc_def nth_append)

lemma q0_rel:
  assumes "ready_list s = list_init" "sleep_list s = list_init" "task_list s = list_init"
  shows "qrel {} q0 s" "ticks_ok q0 s"
  using assms by (auto simp: qrel_def q0_def tasks_sep_def list_init_def ticks_ok_def qset_def split: if_splits option.splits)

lemma boot_sep:
  assumes "boot_ok s"
  shows "tasks_sep {idle_task s, main_task s, new_task s}" "idle_task s \<noteq> 0" "main_task s \<noteq> 0" "new_task s \<noteq> 0"
proof -
  show sep: "tasks_sep {idle_task s, main_task s, new_task s}" using assms unfolding boot_ok_def by blast
  have "t \<noteq> 0" if "task_obj_ok t" for t using that unfolding task_obj_ok_def by fastforce
  then show "idle_task s \<noteq> 0" "main_task s \<noteq> 0" "new_task s \<noteq> 0"
    using tasks_sep_obj [OF sep] by blast+
qed

text \<open>Steps between the creations that touch neither the tasks nor the ready, sleep and task lists.\<close>

lemma booting_cong:
  assumes "booting k T q s" and "dom q \<subseteq> {LReady, LSleep, LAll}"
    and "ready_list s' = ready_list s" "sleep_list s' = sleep_list s" "task_list s' = task_list s" "nodes s' = nodes s"
    and "tasks s' = tasks s" "fault s' = fault s" "gdt_table s' = gdt_table s" "saved_kstk s' = saved_kstk s"
    and "kstk s' = kstk s" "mem s' = mem s" "symaddr s' = symaddr s" "mutexes s' (cpu_mutex s) = mutexes s (cpu_mutex s)"
    and "curr_task s' = curr_task s"
  shows "booting k T q s'"
proof -
  have "hdr i s' = hdr i s" if "q i = Some xs" for i xs
    using assms(2-5) that by (cases i) (auto simp: subset_iff dom_def)
  then have "qrel T q s'" using assms(1,6) by (simp add: booting_def tasks_inv_def qrel_def)
  moreover have "sel_ok s' u = sel_ok s u" "is_busy s' u = is_busy s u" "susp_ok s' u = susp_ok s u" for u
    using assms by (simp_all add: sel_ok_def is_busy_def susp_ok_def split: list.split)
  moreover have "idle_task s' = idle_task s" "main_task s' = main_task s" "new_task s' = new_task s"
    "cpu_mutex s' = cpu_mutex s"
    using assms(13) by (simp_all add: idle_task_def main_task_def new_task_def cpu_mutex_def)
  ultimately show ?thesis
    using assms(1,7-15) unfolding booting_def tasks_inv_def boot_literals_def literal_at_def ticks_ok_def
      gdt_from_def mutex_new_def
    by auto
qed

text \<open>Loading the task register marks the descriptor of the task that becomes the running one.\<close>

lemma booting_ltr:
  assumes b: "booting k T q s" and d: "dom q \<subseteq> {LReady, LSleep, LAll}" and t: "t \<in> T" "curr_task s \<notin> T"
  shows "\<exists>g. write_tr (ucast (tss_sel (tasks s t))) s = s\<lparr>gdt_table := g, tr := ucast (tss_sel (tasks s t))\<rparr> \<and>
    booting k T q (s\<lparr>gdt_table := g, tr := ucast (tss_sel (tasks s t)), curr_task := t\<rparr>)"
proof -
  let ?sel = "ucast (tss_sel (tasks s t))"
  let ?g = "mark_busy True ?sel (gdt_table s)"
  let ?s = "s\<lparr>gdt_table := ?g, tr := ?sel, curr_task := t\<rparr>"
  have inv: "tasks_inv T q s" using b by (simp add: booting_def)
  then have ok: "sel_ok s t" "\<not> is_busy s t" using t by (auto simp: tasks_inv_def)
  have u: "sel_ok ?s u" "is_busy ?s u \<longleftrightarrow> u = t" if "u \<in> T" for u
    using mark_busy_task [OF ok(1), of ?s True u] inv that t(2) by (auto simp: tasks_inv_def)
  moreover have "susp_ok ?s u = susp_ok s u" for u by (simp add: susp_ok_def split: list.split)
  moreover have "qrel T q ?s" using inv by (simp add: tasks_inv_def)
  moreover have "ticks_ok q ?s" using inv by (simp add: tasks_inv_def ticks_ok_def)
  ultimately have "tasks_inv T q ?s" using inv t by (auto simp: tasks_inv_def)
  moreover have "attr (set_busy True d) = 0 \<longleftrightarrow> attr d = 0" for d
    by (auto simp: set_busy_def is_tss_desc_def or_eq_0_iff)
  then have "gdt_from k ?s" using b inv by (auto simp: booting_def tasks_inv_def gdt_from_def mark_busy_nth)
  ultimately have "booting k T q ?s"
    using b by (simp add: booting_def mutex_new_def boot_literals_def literal_at_def cpu_mutex_def idle_task_def
        main_task_def new_task_def del: region.simps)
  then show ?thesis using ok sel_ok_available [of s t] by (intro exI [of _ ?g]) (simp add: write_tr_def)
qed

lemma kernel_init_ready:
  assumes "boot_ok s"
  shows "\<exists>s'. kernel_init s = Done () s' \<and> booting 4 {idle_task s} q0 s' \<and> symaddr s' = symaddr s \<and>
    curr_task s' = 0 \<and> mutex_new (log_mutex s) s'"
proof -
  obtain tb es g d where m: "timer_init (cpu_init s) = s\<lparr>mutexes := (mutexes s)(cpu_mutex s :=
      \<lparr>owner = 0, locker = 0, mutex_wait_list = list_init\<rparr>), gdt_table := boot_gdt, gdtr := g, idt_table := tb,
      idtr := d, io := es, sys_tick := 0\<rparr>"
    using machine_ready [of s] assms by (auto simp: boot_ok_def)
  define s1 where "s1 = (timer_init (cpu_init s))
    \<lparr>ready_list := list_init, task_list := list_init, sleep_list := list_init, curr_task := 0\<rparr>"
  have sy: "symaddr s1 = symaddr s" "curr_task s1 = 0" "gdt_table s1 = boot_gdt" "mem s1 = mem s" "fault s1 = fault s"
    "kstk s1 = kstk s" "mutex_new (cpu_mutex s) s1"
    by (simp_all add: s1_def m mutex_new_def)
  then have nm: "idle_task s1 = idle_task s" "main_task s1 = main_task s" "new_task s1 = new_task s"
    "cpu_mutex s1 = cpu_mutex s"
    by (simp_all add: idle_task_def main_task_def new_task_def cpu_mutex_def)
  have "boot_literals s1"
    using assms sy(1,4) nm by (simp add: boot_literals_def boot_ok_def literal_at_def del: region.simps)
  moreover have "tasks_inv {} q0 s1"
    using assms q0_rel [of s1] sy by (simp add: tasks_inv_def s1_def boot_ok_def boot_gdt_def)
  ultimately have b: "booting 3 {} q0 s1"
    using assms sy nm boot_gdt_from by (simp add: booting_def q0_def boot_ok_def)
  have sep: "tasks_sep {idle_task s}" "idle_task s \<noteq> 0"
    using boot_sep [OF assms] by (auto elim: tasks_sep_subset)
  have li: "literal_at s1 ''str_idle_task'' ''idle_task''" using \<open>boot_literals s1\<close> by (simp add: boot_literals_def)
  let ?e = "symaddr s1 ''idle_task_entry''" and ?p = "symaddr s1 ''idle_task_stack'' + IDLE_TASK_STACK_SIZE"
  have "\<exists>s'. task_init (idle_task s) (symaddr s1 ''str_idle_task'') ?e ?p s1 = Done 0 s' \<and>
      create_frame (idle_task s) (Suc (length ''idle_task'')) s1 s' \<and>
      booting (Suc 3) (insert (idle_task s) {}) (q_create (idle_task s) s1 q0) s'"
    by (rule boot_create [OF b _ _ _ _ _ _ li]) (simp_all add: sep sy(2) nm(1))
  then obtain s' where s': "task_init (idle_task s) (symaddr s1 ''str_idle_task'') ?e ?p s1 = Done 0 s'"
    "create_frame (idle_task s) (Suc (length ''idle_task'')) s1 s'" "booting 4 {idle_task s} (q_create (idle_task s) s1 q0) s'"
    by auto
  have mi: "task_manager_init (timer_init (cpu_init s)) = Done () s'"
    using s'(1) nm(1) by (simp add: task_manager_init_def s1_def Let_def)
  let ?s = "log_init s'"
  have fr: "symaddr s' = symaddr s" "curr_task s' = 0" using s'(2) sy by (simp_all add: create_frame_def)
  then have lm: "log_mutex s' = log_mutex s" "cpu_mutex s' = cpu_mutex s" "cpu_mutex s \<noteq> log_mutex s"
    using assms by (simp_all add: log_mutex_def cpu_mutex_def boot_ok_def)
  have ls: "?s = s'\<lparr>mutexes := (mutexes s')(log_mutex s := \<lparr>owner = 0, locker = 0, mutex_wait_list = list_init\<rparr>), io := io ?s\<rparr>"
    by (simp add: log_init_def rein_mutex_init_simp outb_def lm Let_def)
  have bs: "booting 4 {idle_task s} q0 s'" using s'(3) nm(1) by (simp add: q_create_def)
  have "booting 4 {idle_task s} q0 ?s"
    by (subst ls, rule booting_cong [OF bs]) (simp_all add: lm q0_def)
  moreover have "mutex_new (log_mutex s) ?s" "symaddr ?s = symaddr s" "curr_task ?s = 0"
    by (subst ls, simp add: fr mutex_new_def)+
  ultimately show ?thesis by (simp add: kernel_init_def mi)
qed

lemma idle_not_main: "idle_task s \<noteq> main_task s"
  by (simp add: idle_task_def main_task_def OFFSET_idle_task_def OFFSET_main_task_def)

lemma main_ready:
  assumes "boot_ok s" and b: "booting 4 {idle_task s} q0 s1" and sy: "symaddr s1 = symaddr s" "curr_task s1 = 0"
    and lm: "mutex_new (log_mutex s) s1"
  shows "\<exists>s'. task_main_init s1 = Done () s' \<and>
    booting 5 {idle_task s, main_task s} (q0(LReady \<mapsto> [main_task s], LAll \<mapsto> [main_task s])) s' \<and>
    symaddr s' = symaddr s \<and> curr_task s' = main_task s \<and>
    tr s' = ucast (tss_sel (tasks s' (main_task s))) \<and> mutex_new (log_mutex s) s'"
proof -
  let ?T = "insert (main_task s) {idle_task s}" and ?q = "q_create (main_task s) s1 q0"
  have nm: "idle_task s1 = idle_task s" "main_task s1 = main_task s" "cpu_mutex s1 = cpu_mutex s"
    "cpu_mutex s \<noteq> log_mutex s"
    using assms(1) sy by (simp_all add: idle_task_def main_task_def cpu_mutex_def boot_ok_def)
  have li: "literal_at s1 ''str_main'' ''main''" using b by (simp add: booting_def boot_literals_def)
  have sep: "tasks_sep ?T" by (rule tasks_sep_subset [OF boot_sep(1) [OF assms(1)]]) blast
  have "\<exists>s'. task_init (main_task s) (symaddr s1 ''str_main'') 0 0 s1 = Done 0 s' \<and>
      create_frame (main_task s) (Suc (length ''main'')) s1 s' \<and> booting (Suc 4) ?T ?q s'"
    by (rule boot_create [OF b _ _ _ _ _ _ li])
      (use sep boot_sep [OF assms(1)] sy(2) nm idle_not_main [of s] in auto)
  then obtain s' where s': "task_init (main_task s) (symaddr s1 ''str_main'') 0 0 s1 = Done 0 s'"
    "create_frame (main_task s) (Suc (length ''main'')) s1 s'" "booting 5 ?T ?q s'"
    by auto
  have q: "?q = q0(LReady \<mapsto> [main_task s], LAll \<mapsto> [main_task s])"
    using idle_not_main [of s] nm(1) by (simp add: q_create_def q0_def)
  have fr: "symaddr s' = symaddr s" "curr_task s' = 0" "mutexes s' (log_mutex s) = mutexes s1 (log_mutex s)"
    "main_task s' = main_task s"
    using s'(2) sy nm by (auto simp: create_frame_def main_task_def)
  have d: "dom ?q \<subseteq> {LReady, LSleep, LAll}" unfolding q by (auto simp: q0_def)
  have t: "main_task s \<in> ?T" "curr_task s' \<notin> ?T" using boot_sep [OF assms(1)] fr(2) by auto
  obtain g where
    g: "write_tr (ucast (tss_sel (tasks s' (main_task s)))) s' =
      s'\<lparr>gdt_table := g, tr := ucast (tss_sel (tasks s' (main_task s)))\<rparr>"
    "booting 5 ?T ?q (s'\<lparr>gdt_table := g, tr := ucast (tss_sel (tasks s' (main_task s))), curr_task := main_task s\<rparr>)"
    using booting_ltr [OF s'(3) d t] by blast
  let ?s = "s'\<lparr>gdt_table := g, tr := ucast (tss_sel (tasks s' (main_task s))), curr_task := main_task s\<rparr>"
  have ms: "main_task (f s) = main_task s" if "symaddr (f s) = symaddr s" for f :: "kernel \<Rightarrow> kernel"
    using that by (simp add: main_task_def)
  have "task_main_init s1 = Done () ?s"
    using s'(1) nm(2) fr(4) g(1) by (simp add: task_main_init_def Let_def main_task_def)
  moreover note g(2)
  moreover have "mutex_new (log_mutex s) ?s" using lm fr(3) by (simp add: mutex_new_def)
  ultimately show ?thesis using fr q by (auto simp: insert_commute)
qed

text \<open>The specification state the system starts in: both tasks ready, the main task running, the
  semaphore at zero.\<close>

definition boot_spec :: "kernel \<Rightarrow> aspec" where
  "boot_spec s = \<lparr>aready = [main_task s, new_task s], asleep = [], aall = [main_task s, new_task s],
     asem = (\<lambda>_. 0), asemq = (\<lambda>_. []), amtx = (\<lambda>_. None), amtxq = (\<lambda>_. []),
     aslice = (\<lambda>_. 10), aquant = (\<lambda>_. 10)\<rparr>"

lemma qrel_extend:
  assumes "qrel T q s" and "\<And>i. q' i = q i \<or> (q' i = Some [] \<and> hdr i s = list_init)"
  shows "qrel T q' s"
proof -
  have "qset q' i \<subseteq> qset q i" for i using assms(2) [of i] by (auto simp: qset_def)
  then have "\<forall>i j. i \<noteq> LAll \<longrightarrow> j \<noteq> LAll \<longrightarrow> i \<noteq> j \<longrightarrow> qset q' i \<inter> qset q' j = {}"
    using assms(1) unfolding qrel_def by blast
  moreover have "set xs \<subseteq> T \<and> dll (hdr i s) (nodes s) (map (node_of i) xs)" if "q' i = Some xs" for i xs
    using assms(2) [of i] that qrel_sub [OF assms(1), of i xs] qrel_dll [OF assms(1), of i xs]
    by (auto simp: list_init_def)
  ultimately show ?thesis using assms(1) unfolding qrel_def by blast
qed

lemma boot_spec_wf: "boot_ok s \<Longrightarrow> awf (boot_spec s) \<and> uniq (alist (boot_spec s))"
proof -
  assume "boot_ok s"
  then have "main_task s \<noteq> new_task s" by (simp add: boot_ok_def)
  then have "distinct (alist (boot_spec s) i)" "i \<noteq> QReady \<Longrightarrow> alist (boot_spec s) i = []" for i
    by (cases i; simp add: boot_spec_def)+
  then have "uniq (alist (boot_spec s))"
    unfolding uniq_def by (metis inf_bot_left inf_bot_right list.set(1))
  then show ?thesis by (simp add: boot_spec_def awf_defs placed_def)
qed

lemma boot_sim:
  assumes ok: "boot_ok s" and b: "booting k {idle_task s, main_task s, new_task s} q s'"
    and q: "q = q0(LReady \<mapsto> [main_task s, new_task s], LAll \<mapsto> [main_task s, new_task s])"
    and sy: "symaddr s' = symaddr s" and c: "curr_task s' = main_task s" "tr s' = ucast (tss_sel (tasks s' (main_task s)))"
    and u: "if_set (eflags s')" and sem: "sems s' (notify_sem s) = \<lparr>sem_cnt = 0, sem_wait_list = list_init\<rparr>"
    and lm: "mutex_new (log_mutex s) s'"
  shows "sim {notify_sem s} {cpu_mutex s, log_mutex s} (boot_spec s) s'"
proof -
  let ?SS = "{notify_sem s}" and ?MM = "{cpu_mutex s, log_mutex s}"
  let ?T = "{idle_task s, main_task s, new_task s}" and ?q = "queues_of ?SS ?MM (boot_spec s)"
  have nm: "idle_task s' = idle_task s" "cpu_mutex s' = cpu_mutex s" "idle_task s \<noteq> main_task s" "idle_task s \<noteq> new_task s"
    using sy ok idle_not_main [of s] by (simp_all add: idle_task_def cpu_mutex_def boot_ok_def)
  have cm: "mutex_new (cpu_mutex s) s'" "kstk s' = []" "tasks_inv ?T q s'" using b nm by (auto simp: booting_def)
  have qi: "?q i = q i \<or> (?q i = Some [] \<and> hdr i s' = list_init)" for i
    using lm cm(1) sem by (cases i) (auto simp: q q0_def queues_of_def boot_spec_def mutex_new_def)
  then have "qrel ?T ?q s'" using qrel_extend [of ?T q s' ?q] cm(3) unfolding tasks_inv_def by blast
  moreover have "ticks_ok ?q s'" using cm(3) by (simp add: tasks_inv_def ticks_ok_def q q0_def boot_spec_def qset_def)
  ultimately have inv: "tasks_inv ?T ?q s'" using cm(3) unfolding tasks_inv_def by blast
  have "i \<noteq> LAll \<Longrightarrow> i \<noteq> LReady \<Longrightarrow> qset ?q i = {}" "qset ?q LReady = qset ?q LAll" for i
    by (cases i; simp add: qset_def queues_of_def boot_spec_def)+
  then have loc: "located ?q" unfolding located_def by (metis empty_iff lid.distinct(3))
  have "kinv ?T ?q s'"
    by (rule tasks_inv_kinv [OF inv loc])
      (use nm c u cm(2) in \<open>auto simp: boot_spec_def qset_def at_user_def\<close>)
  moreover have "live (boot_spec s) s' = ?T" by (auto simp: live_def boot_spec_def nm)
  moreover have "data_rel ?SS ?MM (boot_spec s) s'"
    using b sem lm cm(1) by (auto simp: data_rel_def boot_spec_def booting_def mtx_rel_def mutex_new_def)
  ultimately show ?thesis using boot_spec_wf [OF ok] by (simp add: sim_def)
qed

lemma boot_ready:
  assumes ok: "boot_ok s"
  shows "\<exists>s'. boot s = Done () s' \<and> sim {notify_sem s} {cpu_mutex s, log_mutex s} (boot_spec s) s' \<and>
    symaddr s' = symaddr s \<and> (\<exists>q. booting 6 {idle_task s, main_task s, new_task s} q s')"
proof -
  let ?m = "main_task s" and ?n = "new_task s"
  let ?T = "{idle_task s, ?m}" and ?q = "q0(LReady \<mapsto> [?m], LAll \<mapsto> [?m])"
  obtain s1 where s1: "kernel_init s = Done () s1" "booting 4 {idle_task s} q0 s1" "symaddr s1 = symaddr s"
    "curr_task s1 = 0" "mutex_new (log_mutex s) s1"
    using kernel_init_ready [OF ok] by blast
  obtain s2 where s2: "task_main_init s1 = Done () s2" "booting 5 ?T ?q s2" "symaddr s2 = symaddr s"
    "curr_task s2 = ?m" "tr s2 = ucast (tss_sel (tasks s2 ?m))" "mutex_new (log_mutex s) s2"
    using main_ready [OF ok s1(2-5)] by blast
  define s3 where "s3 = irq_enable_global (sem_init (notify_sem s) 0 s2)"
  have s3: "s3 = s2\<lparr>sems := (sems s2)(notify_sem s := \<lparr>sem_cnt = 0, sem_wait_list = list_init\<rparr>), eflags := eflags s2 OR EFLAGS_IF\<rparr>"
    by (cases "sems s2 (notify_sem s)")
      (simp add: s3_def sem_init_def upd_sem_def irq_enable_global_def sti_def)
  have b3: "booting 5 ?T ?q s3"
    by (rule booting_cong [OF s2(2)]) (auto simp: s3 q0_def)
  have nm: "idle_task s3 = idle_task s" "main_task s3 = ?m" "new_task s3 = ?n" "symaddr s3 = symaddr s" "curr_task s3 = ?m"
    "idle_task s \<noteq> ?n" "?m \<noteq> ?n" "cpu_mutex s3 = cpu_mutex s" "cpu_mutex s \<noteq> log_mutex s"
    using ok s2(3,4) by (simp_all add: s3 idle_task_def main_task_def new_task_def cpu_mutex_def boot_ok_def)
  have li: "literal_at s3 ''str_my_new_task'' ''my new task''" using b3 by (simp add: booting_def boot_literals_def)
  have sep: "tasks_sep (insert ?n ?T)" by (rule tasks_sep_subset [OF boot_sep(1) [OF ok]]) blast
  let ?e = "symaddr s ''new_task_entry''" and ?p = "symaddr s ''new_task_stack'' + 4 * 1024"
  have "\<exists>s'. task_init ?n (symaddr s3 ''str_my_new_task'') ?e ?p s3 = Done 0 s' \<and>
      create_frame ?n (Suc (length ''my new task'')) s3 s' \<and> booting (Suc 5) (insert ?n ?T) (q_create ?n s3 ?q) s'"
    by (rule boot_create [OF b3 _ _ _ _ _ _ li]) (use sep nm in auto)
  then obtain s4 where s4: "task_init ?n (symaddr s ''str_my_new_task'') ?e ?p s3 = Done 0 s4"
    "create_frame ?n (Suc (length ''my new task'')) s3 s4" "booting (Suc 5) (insert ?n ?T) (q_create ?n s3 ?q) s4"
    unfolding nm(4) by blast
  have "init_main_start s1 = Done () s4"
    using s4(1) s2(1) s2(3) s3_def nm(4) by (simp add: init_main_start_def notify_sem_def new_task_def Let_def)
  then have "boot s = Done () s4" by (simp add: boot_def s1(1))
  moreover have "sim {notify_sem s} {cpu_mutex s, log_mutex s} (boot_spec s) s4"
  proof (rule boot_sim [OF ok, of 6 "q_create ?n s3 ?q"])
    show "booting 6 {idle_task s, ?m, ?n} (q_create ?n s3 ?q) s4" using s4(3) by (simp add: insert_commute)
    show "q_create ?n s3 ?q = q0(LReady \<mapsto> [?m, ?n], LAll \<mapsto> [?m, ?n])"
      using nm by (simp add: q_create_def fun_upd_twist)
  qed (use s4(2) s2 s3 nm in \<open>auto simp: create_frame_def mutex_new_def\<close>)
  moreover have "booting 6 {idle_task s, ?m, ?n} (q_create ?n s3 ?q) s4" using s4(3) by (simp add: insert_commute)
  moreover have "symaddr s4 = symaddr s" using s4(2) nm(4) by (simp add: create_frame_def)
  ultimately show ?thesis by blast
qed

end
