(* ===== verification/Transition.thy ===== *)
theory Transition
  imports Main
begin

text \<open>
  Labelled transition systems: runs, invariants and forward simulations. The locales are the
  contracts the running system is verified against; the kernel's step relation and its
  specification are instances.
\<close>

inductive run :: "('s \<Rightarrow> 'l \<Rightarrow> 's \<Rightarrow> bool) \<Rightarrow> 's \<Rightarrow> 'l list \<Rightarrow> 's \<Rightarrow> bool" for step where
  run_Nil: "run step s [] s"
| run_Cons: "step s l s1 \<Longrightarrow> run step s1 ls s2 \<Longrightarrow> run step s (l # ls) s2"

inductive_simps run_Nil_iff [simp]: "run step s [] s'"
inductive_simps run_Cons_iff [simp]: "run step s (l # ls) s'"

lemma run_append [simp]:
  "run step s (ks @ ls) s' \<longleftrightarrow> (\<exists>s1. run step s ks s1 \<and> run step s1 ls s')"
  by (induction ks arbitrary: s) auto

lemma run_prefix: "run step s ls s' \<Longrightarrow> \<exists>s1. run step s (take n ls) s1 \<and> run step s1 (drop n ls) s'"
  by (metis append_take_drop_id run_append)

locale transition_invariant =
  fixes step :: "'s \<Rightarrow> 'l \<Rightarrow> 's \<Rightarrow> bool" and I :: "'s \<Rightarrow> bool"
  assumes inv_step: "I s \<Longrightarrow> step s l s' \<Longrightarrow> I s'"
begin

lemma inv_run: "run step s ls s' \<Longrightarrow> I s \<Longrightarrow> I s'"
  by (induction rule: run.induct) (auto intro: inv_step)

lemma inv_prefix: "run step s ls s' \<Longrightarrow> I s \<Longrightarrow> \<exists>s1. run step s (take n ls) s1 \<and> I s1"
  using run_prefix inv_run by metis

end

locale simulation =
  fixes cstep :: "'c \<Rightarrow> 'l \<Rightarrow> 'c \<Rightarrow> bool" and astep :: "'a \<Rightarrow> 'l \<Rightarrow> 'a \<Rightarrow> bool"
    and R :: "'a \<Rightarrow> 'c \<Rightarrow> bool"
  assumes sim_step: "R a s \<Longrightarrow> cstep s l s' \<Longrightarrow> \<exists>a'. astep a l a' \<and> R a' s'"
begin

lemma sim_run: "run cstep s ls s' \<Longrightarrow> R a s \<Longrightarrow> \<exists>a'. run astep a ls a' \<and> R a' s'"
proof (induction arbitrary: a rule: run.induct)
  case (run_Cons s l s1 ls s2)
  then show ?case using sim_step by (meson run.run_Cons)
qed auto

end

sublocale simulation \<subseteq> conc: transition_invariant cstep "\<lambda>s. \<exists>a. R a s"
  by unfold_locales (metis sim_step)

text \<open>A property of specification states that the specification keeps holds of every state the
  implementation reaches.\<close>

locale simulation_invariant = simulation cstep astep R + spec: transition_invariant astep I
  for cstep :: "'c \<Rightarrow> 'l \<Rightarrow> 'c \<Rightarrow> bool" and astep :: "'a \<Rightarrow> 'l \<Rightarrow> 'a \<Rightarrow> bool"
    and R :: "'a \<Rightarrow> 'c \<Rightarrow> bool" and I :: "'a \<Rightarrow> bool"
begin

lemma reach_related: "run cstep s ls s' \<Longrightarrow> R a s \<Longrightarrow> I a \<Longrightarrow> \<exists>a'. run astep a ls a' \<and> R a' s' \<and> I a'"
  using sim_run spec.inv_run by metis

end

end
