(* ===== verification/Kernel_Runs.thy ===== *)
theory Kernel_Runs
  imports Boot Transition
begin

text \<open>
  The running system: every sequence of kernel calls and clock interrupts. The step relation of the
  kernel is an instance of the simulation contract, so the laws of the specification carry over to
  every reachable state of the code. The properties read the kernel's lists directly: \<open>tasks_on\<close>
  walks a list of the heap and returns the tasks whose nodes are linked in it.
\<close>

section \<open>Reading a list from the heap\<close>

fun walk :: "nat \<Rightarrow> addr \<Rightarrow> node_heap \<Rightarrow> addr list" where
  "walk 0 n h = []"
| "walk (Suc k) n h = n # walk k (list_node_next n h) h"

fun node_off :: "lid \<Rightarrow> addr" where
  "node_off LReady = OFFSET_run_node"
| "node_off LSleep = OFFSET_run_node"
| "node_off LAll = OFFSET_all_node"
| "node_off (LSem p) = OFFSET_wait_node"
| "node_off (LMutex p) = OFFSET_wait_node"

definition tasks_on :: "lid \<Rightarrow> kernel \<Rightarrow> addr list" where
  "tasks_on i s = map (\<lambda>n. CONTAINER_OF n (node_off i))
     (walk (unat (list_count (hdr i s))) (list_first (hdr i s)) (nodes s))"

lemma walk_dseg: "dseg h p xs 0 \<Longrightarrow> walk (length xs) (hd_or 0 xs) h = xs"
proof (induction xs arbitrary: p)
  case (Cons x xs)
  then show ?case by (cases xs) (auto simp: list_node_next_def)
qed simp

lemma walk_dll: "dll l h xs \<Longrightarrow> walk (unat (list_count l)) (list_first l) h = xs"
proof -
  assume d: "dll l h xs"
  then have "length xs < 2 ^ 32" by (auto simp: dll_def dest: distinct_nonnull_length)
  then have "unat (list_count l) = length xs" using dll_list_count [OF d] by (simp add: unat_of_nat)
  then show ?thesis using d dll_list_first [OF d] walk_dseg [of h 0 xs] by (simp add: dll_def)
qed

lemma container_node_of [simp]: "CONTAINER_OF (node_of i t) (node_off i) = t"
  by (cases i) simp_all

lemma qrel_tasks_on: "qrel T q s \<Longrightarrow> q i = Some xs \<Longrightarrow> tasks_on i s = xs"
  using walk_dll [OF qrel_dll [of T q s i xs]] by (simp add: tasks_on_def map_idI)

lemma sim_qrel: "sim SS MM a s \<Longrightarrow> qrel (live a s) (queues_of SS MM a) s"
  unfolding sim_def kinv_def kstatic_def by blast

lemma sim_tasks_on [simp]:
  assumes "sim SS MM a s"
  shows "tasks_on LReady s = aready a" "tasks_on LSleep s = map fst (asleep a)" "tasks_on LAll s = aall a"
    "p \<in> SS \<Longrightarrow> tasks_on (LSem p) s = asemq a p" "p \<in> MM \<Longrightarrow> tasks_on (LMutex p) s = amtxq a p"
  using qrel_tasks_on [OF sim_qrel [OF assms]] by simp_all

section \<open>The kernel is a simulation\<close>

lemma arun_run: "run (\<lambda>a op b. astep op a = Some b) a ops b \<longleftrightarrow> arun ops a = Some b"
  by (induction ops arbitrary: a) (auto simp: bind_eq_Some_conv)

interpretation kr: simulation_invariant "kstep SS MM" "\<lambda>a op b. astep op a = Some b" "sim SS MM"
  "\<lambda>a. awf a \<and> uniq (alist a)" for SS MM
proof unfold_locales
  fix a s l s' assume "sim SS MM a s" "kstep SS MM s l s'"
  then show "\<exists>a'. astep l a = Some a' \<and> sim SS MM a' s'"
    using kexec_refines [of SS MM a s l] by (auto elim!: kstepE split: option.splits)
qed (auto intro: astep_awf astep_uniq)

lemma kernel_run:
  assumes "sim SS MM a s" and "run (kstep SS MM) s ops s'"
  shows "\<exists>b. arun ops a = Some b \<and> sim SS MM b s'"
  using kr.sim_run [OF assms(2,1)] by (auto simp: arun_run)

lemma sim_wf: "sim SS MM a s \<Longrightarrow> awf a \<and> uniq (alist a)"
  by (simp add: sim_def)

lemma arun_all: "arun ops a = Some b \<Longrightarrow> aall b = aall a"
  by (induction ops arbitrary: a) (auto simp: bind_eq_Some_conv dest: astep_frame(1))

section \<open>A concrete running system\<close>

fun put_string :: "addr \<Rightarrow> string \<Rightarrow> memory \<Rightarrow> memory" where
  "put_string p [] m = m(p := 0)"
| "put_string p (c # cs) m = put_string (p + 1) cs (m(p := chr c))"

definition sample_kernel :: kernel where
  "sample_kernel = blank_kernel\<lparr>mem := put_string 0x16000 ''idle_task'' (put_string 0x16100 ''main''
     (put_string 0x16200 ''my new task'' (put_string 0x16300 ''sending notify: %d''
     (put_string 0x16400 ''recv notify: %d'' (\<lambda>a. 0)))))\<rparr>"

definition sample_running :: kernel where
  "sample_running = (case boot sample_kernel of Done u s \<Rightarrow> s | _ \<Rightarrow> sample_kernel)"

lemma sample_symaddr:
  "symaddr sample_kernel ''task_manager'' = 0x10000" "symaddr sample_kernel ''new_task'' = 0x11000"
  "symaddr sample_kernel ''cpu.mutex'' = 0x14000" "symaddr sample_kernel ''log.mutex'' = 0x14100"
  "symaddr sample_kernel ''notify_task_print'' = 0x14200" "symaddr sample_kernel ''str_idle_task'' = 0x16000"
  "symaddr sample_kernel ''str_main'' = 0x16100" "symaddr sample_kernel ''str_my_new_task'' = 0x16200"
  "symaddr sample_kernel ''str_sending'' = 0x16300" "symaddr sample_kernel ''str_recv'' = 0x16400"
  by (simp_all add: sample_kernel_def blank_kernel_def sample_symbols_def)

lemma sample_objects:
  "idle_task sample_kernel = 0x100E0" "main_task sample_kernel = 0x10028" "new_task sample_kernel = 0x11000"
  "cpu_mutex sample_kernel = 0x14000" "log_mutex sample_kernel = 0x14100" "notify_sem sample_kernel = 0x14200"
  by (simp_all add: idle_task_def main_task_def new_task_def cpu_mutex_def log_mutex_def notify_sem_def
      sample_symaddr OFFSET_idle_task_def OFFSET_main_task_def)

lemma sample_literals:
  "cstr (mem sample_kernel) 0x16000 (map chr ''idle_task'')"
  "cstr (mem sample_kernel) 0x16100 (map chr ''main'')"
  "cstr (mem sample_kernel) 0x16200 (map chr ''my new task'')"
  "cstr (mem sample_kernel) 0x16300 (map chr ''sending notify: %d'')"
  "cstr (mem sample_kernel) 0x16400 (map chr ''recv notify: %d'')"
  by (simp_all add: sample_kernel_def cstr_Cons cstr_Nil chr_def)

lemma sample_boot_ok: "boot_ok sample_kernel"
proof -
  have "literal_at sample_kernel ''str_idle_task'' ''idle_task''" "literal_at sample_kernel ''str_main'' ''main''"
    "literal_at sample_kernel ''str_my_new_task'' ''my new task''"
    "literal_at sample_kernel ''str_sending'' ''sending notify: %d''" "literal_at sample_kernel ''str_recv'' ''recv notify: %d''"
    unfolding literal_at_def sample_symaddr sample_objects using sample_literals
    by (auto intro!: region_apart simp del: region.simps)
  then show ?thesis
    unfolding boot_ok_def boot_literals_def sample_objects
    by (simp add: tasks_sep_def task_obj_ok_def SIZEOF_task_t_def sample_kernel_def blank_kernel_def)
qed

lemma sample_boots:
  "boot sample_kernel = Done () sample_running"
  "sim {0x14200} {0x14000, 0x14100} (boot_spec sample_kernel) sample_running"
  "\<exists>q. booting 6 {0x100E0, 0x10028, 0x11000} q sample_running" "symaddr sample_running = symaddr sample_kernel"
  using boot_ready [OF sample_boot_ok] by (auto simp: sample_running_def sample_objects)

lemma sample_spec:
  "aready (boot_spec sample_kernel) = [0x10028, 0x11000]" "aall (boot_spec sample_kernel) = [0x10028, 0x11000]"
  "asleep (boot_spec sample_kernel) = []" "asemq (boot_spec sample_kernel) = (\<lambda>_. [])"
  "asem (boot_spec sample_kernel) = (\<lambda>_. 0)" "amtx (boot_spec sample_kernel) = (\<lambda>_. None)"
  "amtxq (boot_spec sample_kernel) = (\<lambda>_. [])" "aslice (boot_spec sample_kernel) = (\<lambda>_. 10)"
  by (simp_all add: boot_spec_def sample_objects)

lemma sample_curr: "curr_task sample_running = 0x10028" "curr_task sample_running \<noteq> idle_task sample_running"
  using simD(3,4) [OF sample_boots(2)] by (simp_all add: sample_spec)

lemma sample_counts:
  "sem_cnt (sems sample_running 0x14200) = 0" "locker (mutexes sample_running 0x14000) = 0"
  "slice_ticks (tasks sample_running 0x10028) = 10"
  using simD(2) [OF sample_boots(2)] by (simp_all add: data_rel_def sample_spec mtx_rel_def)

lemma sample_lists:
  "tasks_on LReady sample_running = [0x10028, 0x11000]" "tasks_on LSleep sample_running = []"
  "tasks_on (LSem 0x14200) sample_running = []" "tasks_on (LMutex 0x14000) sample_running = []"
  using sim_tasks_on [OF sample_boots(2)] by (simp_all add: sample_spec)

lemma sample_tick: "\<exists>s'. kstep {0x14200} {0x14000, 0x14100} sample_running Tick s'"
  using sim_tick [OF sample_boots(2)] by (auto simp: kstep_simps allowed_def kexec_def)

section \<open>Properties: boot, refinement, the invariant of the running system\<close>

text \<open>C1. System start. From a machine whose tables have their sizes and whose objects do not overlap,
  \<^verbatim>\<open>kernel_init\<close> followed by the start of \<^verbatim>\<open>init_main\<close> returns with the main task running and the new
  task ready behind it, interrupts enabled and no processor fault, in the state of the specification
  where the semaphore is zero, both mutexes are free and both tasks have a full time slice.\<close>

theorem boot_starts_system:
  assumes "boot_ok s"
  shows "\<exists>s'. boot s = Done () s' \<and> sim {notify_sem s} {cpu_mutex s, log_mutex s} (boot_spec s) s' \<and>
    curr_task s' = main_task s \<and> tasks_on LReady s' = [main_task s, new_task s] \<and> tasks_on LSleep s' = [] \<and>
    if_set (eflags s') \<and> \<not> fault s'"
proof -
  obtain s' where s': "boot s = Done () s'" "sim {notify_sem s} {cpu_mutex s, log_mutex s} (boot_spec s) s'"
    using boot_ready [OF assms] by blast
  have "at_user s'" "\<not> fault s'" using simD(1) [OF s'(2)] unfolding kinv_def kstatic_def cpu_inv_def by blast+
  then show ?thesis
    using s' sim_tasks_on [OF s'(2)] simD(3) [OF s'(2)] by (auto simp: boot_spec_def at_user_def)
qed

theorem boot_starts_system_witness: "\<exists>s'. boot sample_kernel = Done () s' \<and> curr_task s' = 0x10028 \<and> \<not> fault s'"
  using boot_starts_system [OF sample_boot_ok] by (auto simp: sample_objects)

text \<open>C2. Refinement. In a state related to the specification, every kernel call made by a task, and
  the clock interrupt, does exactly what the specification does: where the specification steps the
  kernel returns in a related state, and where it refuses (unlocking a mutex the task does not hold)
  the kernel panics.\<close>

theorem kernel_call_refines:
  assumes "sim SS MM a s" and "allowed SS MM op s"
  shows "case astep op a of None \<Rightarrow> kexec op s = None
    | Some a' \<Rightarrow> \<exists>s'. kexec op s = Some s' \<and> sim SS MM a' s'"
  by (rule kexec_refines [OF assms])

theorem kernel_call_refines_witness:
  "\<exists>s'. kexec (SemNotify 0x14200) sample_running = Some s' \<and>
     sim {0x14200} {0x14000, 0x14100} (a_notify 0x14200 (boot_spec sample_kernel)) s'"
proof -
  have "allowed {0x14200} {0x14000, 0x14100} (SemNotify 0x14200) sample_running"
    using sample_curr sample_counts by (simp add: allowed_def)
  from kernel_call_refines [OF sample_boots(2) this] show ?thesis
    by (simp add: astep_def acall_def sample_spec)
qed

text \<open>C3. The running system. In every state reached from boot by any sequence of kernel calls and
  clock interrupts: no processor fault has happened, interrupts are enabled, the task register holds
  the selector of the running task, the running task is the first of the ready list (the idle task
  when it is empty), and each task is on exactly one of the ready, sleep and wait lists, once.\<close>

theorem reachable_states_sound:
  assumes "boot_ok s" and "boot s = Done () s0"
    and "run (kstep {notify_sem s} {cpu_mutex s, log_mutex s}) s0 ops s'"
  shows "\<not> fault s' \<and> if_set (eflags s') \<and> tr s' = ucast (tss_sel (tasks s' (curr_task s'))) \<and>
    curr_task s' = hd_or (idle_task s') (tasks_on LReady s') \<and> tasks_on LAll s' = [main_task s, new_task s] \<and>
    (\<forall>i\<in>{LReady, LSleep, LSem (notify_sem s), LMutex (cpu_mutex s), LMutex (log_mutex s)}. distinct (tasks_on i s')) \<and>
    (\<forall>t\<in>{main_task s, new_task s}. \<exists>!i. i \<in> {LReady, LSleep, LSem (notify_sem s), LMutex (cpu_mutex s),
       LMutex (log_mutex s)} \<and> t \<in> set (tasks_on i s'))"
proof -
  let ?SS = "{notify_sem s}" and ?MM = "{cpu_mutex s, log_mutex s}"
  let ?I = "{LReady, LSleep, LSem (notify_sem s), LMutex (cpu_mutex s), LMutex (log_mutex s)}"
  have "sim ?SS ?MM (boot_spec s) s0" using boot_ready [OF assms(1)] assms(2) by auto
  then obtain b where b: "arun ops (boot_spec s) = Some b" "sim ?SS ?MM b s'" using kernel_run assms(3) by blast
  let ?q = "queues_of ?SS ?MM b"
  have all: "aall b = [main_task s, new_task s]" using arun_all [OF b(1)] by (simp add: boot_spec_def)
  have k: "kstatic (live b s') ?q s'" "located ?q" "at_user s'" "qrel (live b s') ?q s'"
    using simD(1) [OF b(2)] sim_qrel [OF b(2)] by (simp_all add: kinv_def)
  have dom: "?q i = Some (tasks_on i s')" if "i \<in> ?I" for i using that sim_tasks_on [OF b(2)] by auto
  have undom: "?q i = None" if "i \<notin> insert LAll ?I" for i using that by (cases i) (auto simp: queues_of_def)
  have "distinct (tasks_on i s')" if "i \<in> ?I" for i using qrel_distinct [OF k(4) dom [OF that]] .
  moreover have "\<exists>!i. i \<in> ?I \<and> t \<in> set (tasks_on i s')" if t: "t \<in> {main_task s, new_task s}" for t
  proof -
    have "t \<in> qset ?q LAll" using t all by (auto simp: qset_def)
    then obtain i where i: "i \<noteq> LAll" "t \<in> qset ?q i" using k(2) by (auto simp: located_def)
    then have "i \<in> ?I" using undom [of i] by (auto simp: qset_def split: option.splits)
    moreover have "j = i" if "j \<in> ?I" "t \<in> set (tasks_on j s')" for j
    proof -
      have "t \<in> qset ?q j" "j \<noteq> LAll" using dom that by (auto simp: qset_def)
      then show ?thesis using qrel_disj [OF k(4) _ i(1)] i(2) by blast
    qed
    ultimately show ?thesis using dom i(2) by (metis qset_Some)
  qed
  moreover have "\<not> fault s'" "tr s' = ucast (tss_sel (tasks s' (curr_task s')))"
    using k(1) unfolding kstatic_def cpu_inv_def by blast+
  ultimately show ?thesis
    using k(3) simD(3) [OF b(2)] sim_tasks_on [OF b(2)] all by (simp add: at_user_def)
qed

theorem reachable_states_sound_witness:
  "\<exists>s'. run (kstep {0x14200} {0x14000, 0x14100}) sample_running [Tick] s' \<and> \<not> fault s' \<and>
     tasks_on LAll s' = [0x10028, 0x11000]"
proof -
  obtain s' where "kstep {0x14200} {0x14000, 0x14100} sample_running Tick s'" using sample_tick by blast
  then have r: "run (kstep {0x14200} {0x14000, 0x14100}) sample_running [Tick] s'" by simp
  show ?thesis
    using reachable_states_sound [OF sample_boot_ok sample_boots(1), unfolded sample_objects, OF r] r by blast
qed

end
