(* ===== verification/Sync.thy ===== *)
theory Sync
  imports Kernel_Runs
begin

text \<open>
  Semaphores and mutexes of the running system: what each call does to the count, the owner and the
  lists, and the laws that hold over whole runs (accounting, first come first served, exclusion).
\<close>

section \<open>Semaphores\<close>

lemma sim_sem: "sim SS MM a s \<Longrightarrow> p \<in> SS \<Longrightarrow> sint (sem_cnt (sems s p)) = asem a p"
  using simD(2) by (auto simp: data_rel_def)

text \<open>\<^verbatim>\<open>sem_wait\<close>: with a positive count it takes one and returns at once; otherwise the calling
  task leaves the ready list for the end of the semaphore's wait list and the next ready task (or the
  idle task) runs.\<close>

lemma sem_wait_behaviour:
  assumes "sim SS MM a s" and "curr_task s \<noteq> idle_task s" and "p \<in> SS" and s': "s' = sem_wait p s"
  shows "if 0 < sint (sem_cnt (sems s p))
    then sint (sem_cnt (sems s' p)) = sint (sem_cnt (sems s p)) - 1 \<and> curr_task s' = curr_task s \<and>
      tasks_on (LSem p) s' = tasks_on (LSem p) s \<and> tasks_on LReady s' = tasks_on LReady s
    else sem_cnt (sems s' p) = sem_cnt (sems s p) \<and> curr_task s' = hd_or (idle_task s) (tl (tasks_on LReady s)) \<and>
      tasks_on (LSem p) s' = tasks_on (LSem p) s @ [curr_task s] \<and> tasks_on LReady s' = tl (tasks_on LReady s)"
proof -
  have R: "aready a \<noteq> []" using simD(4) [OF assms(1)] assms(2) by blast
  have sm: "sim SS MM (a_wait p a) s'" unfolding s' by (rule sim_wait [OF assms(1) R assms(3)])
  have i: "idle_task s' = idle_task s" by (simp add: s')
  note t = sim_tasks_on [OF assms(1)] sim_tasks_on [OF sm] and c = sim_sem [OF assms(1,3)] sim_sem [OF sm assms(3)]
  have d: "sem_cnt (sems s' p) = sem_cnt (sems s p)" if "\<not> 0 < asem a p"
    using sem_wait_block(2) [OF simD(1) [OF assms(1)] _ _, of p "asemq a p" p] that c R assms(3) by (simp add: s')
  show ?thesis
    using assms(3) simD(3) [OF sm] sim_curr [OF assms(1) R] R d i t c by (simp add: a_wait_def hd_or_hd)
qed

lemma sem_wait_behaviour_example:
  "tasks_on (LSem 0x14200) (sem_wait 0x14200 sample_running) = [0x10028] \<and>
   curr_task (sem_wait 0x14200 sample_running) = 0x11000"
  using sem_wait_behaviour [OF sample_boots(2) sample_curr(2) _ refl, of "0x14200"]
  by (simp add: sample_counts sample_lists sample_curr(1))

text \<open>\<^verbatim>\<open>sem_notify\<close>: with no task waiting it adds one to the count; otherwise the task that has
  waited longest moves to the end of the ready list and the count stays. The caller keeps running.\<close>

lemma sem_notify_behaviour:
  assumes "sim SS MM a s" and "curr_task s \<noteq> idle_task s" and "p \<in> SS"
    and "sint (sem_cnt (sems s p)) < 2 ^ 31 - 1" and s': "s' = sem_notify p s"
  shows "curr_task s' = curr_task s \<and> (case tasks_on (LSem p) s of
      [] \<Rightarrow> sint (sem_cnt (sems s' p)) = sint (sem_cnt (sems s p)) + 1 \<and>
        tasks_on (LSem p) s' = [] \<and> tasks_on LReady s' = tasks_on LReady s
    | w # ws \<Rightarrow> sint (sem_cnt (sems s' p)) = sint (sem_cnt (sems s p)) \<and>
        tasks_on (LSem p) s' = ws \<and> tasks_on LReady s' = tasks_on LReady s @ [w])"
proof -
  have R: "aready a \<noteq> []" using simD(4) [OF assms(1)] assms(2) by blast
  have sm: "sim SS MM (a_notify p a) s'" unfolding s' by (rule sim_notify [OF assms(1) R assms(3,4)])
  note t = sim_tasks_on [OF assms(1)] sim_tasks_on [OF sm] and c = sim_sem [OF assms(1,3)] sim_sem [OF sm assms(3)]
  have "aready (a_notify p a) \<noteq> [] \<and> hd (aready (a_notify p a)) = hd (aready a)"
    using R by (simp add: a_notify_def split: list.split)
  then have "curr_task s' = curr_task s" using sim_curr [OF sm] sim_curr [OF assms(1) R] by simp
  then show ?thesis using assms(3) t c by (simp add: a_notify_def split: list.split)
qed

lemma sem_notify_behaviour_example:
  "sint (sem_cnt (sems (sem_notify 0x14200 sample_running) 0x14200)) = 1 \<and>
   curr_task (sem_notify 0x14200 sample_running) = 0x10028"
  using sem_notify_behaviour [OF sample_boots(2) sample_curr(2) _ _ refl, of "0x14200"]
  by (simp add: sample_counts sample_lists sample_curr(1))

text \<open>C12. Accounting. Over any run, the count of a semaphore minus the number of tasks waiting at it
  changes by the number of notifications minus the number of waits; the count is never negative, and
  it is zero while any task waits.\<close>

theorem semaphore_accounting:
  assumes "sim SS MM a s" and "p \<in> SS" and "run (kstep SS MM) s ops s'"
  shows "sint (sem_cnt (sems s' p)) - int (length (tasks_on (LSem p) s')) =
      sint (sem_cnt (sems s p)) - int (length (tasks_on (LSem p) s))
        + int (count_list ops (SemNotify p)) - int (count_list ops (SemWait p)) \<and>
    0 \<le> sint (sem_cnt (sems s' p)) \<and> (tasks_on (LSem p) s' \<noteq> [] \<longrightarrow> sem_cnt (sems s' p) = 0)"
proof -
  obtain b where b: "arun ops a = Some b" "sim SS MM b s'" using kernel_run [OF assms(1,3)] by blast
  have "sem_wf b p" using sim_wf [OF b(2)] by (simp add: awf_def)
  then show ?thesis
    using sem_run_count [OF b(1), of p] sim_sem [OF assms(1,2)] sim_sem [OF b(2) assms(2)] assms(2)
      sim_tasks_on(4) [OF assms(1)] sim_tasks_on(4) [OF b(2)] sint_eq_0 [of "sem_cnt (sems s' p)"]
    by (simp add: sem_wf_def)
qed

theorem semaphore_accounting_witness:
  "\<exists>s'. run (kstep {0x14200} {0x14000, 0x14100}) sample_running [SemNotify 0x14200] s' \<and>
     sint (sem_cnt (sems s' 0x14200)) - int (length (tasks_on (LSem 0x14200) s')) = 1"
proof -
  have "kstep {0x14200} {0x14000, 0x14100} sample_running (SemNotify 0x14200) (sem_notify 0x14200 sample_running)"
    using sample_curr(2) by (simp add: kstep_simps allowed_def kexec_def sample_counts)
  then have "run (kstep {0x14200} {0x14000, 0x14100}) sample_running [SemNotify 0x14200] (sem_notify 0x14200 sample_running)"
    by simp
  from semaphore_accounting [OF sample_boots(2) _ this, of "0x14200"] this show ?thesis
    by (auto simp: sample_counts sample_lists)
qed

text \<open>C13. First come, first served. Over any run, the tasks waiting at a semaphore at the start
  followed by those the run parks there, in order, are the tasks the run wakes, in order, followed by
  those still waiting at the end.\<close>

theorem semaphore_fifo:
  assumes "sim SS MM a s" and "p \<in> SS" and "run (kstep SS MM) s ops s'"
  shows "tasks_on (LSem p) s @ along (parked p) ops a = along (woken p) ops a @ tasks_on (LSem p) s'"
proof -
  obtain b where b: "arun ops a = Some b" "sim SS MM b s'" using kernel_run [OF assms(1,3)] by blast
  show ?thesis
    using sem_run_fifo [OF b(1), of p] sim_tasks_on(4) [OF assms(1,2)] sim_tasks_on(4) [OF b(2) assms(2)] by simp
qed

theorem semaphore_fifo_witness:
  "\<exists>s'. run (kstep {0x14200} {0x14000, 0x14100}) sample_running [SemWait 0x14200] s' \<and>
     tasks_on (LSem 0x14200) s' = [0x10028]"
proof -
  have "kstep {0x14200} {0x14000, 0x14100} sample_running (SemWait 0x14200) (sem_wait 0x14200 sample_running)"
    using sample_curr(2) by (simp add: kstep_simps allowed_def kexec_def)
  then have "run (kstep {0x14200} {0x14000, 0x14100}) sample_running [SemWait 0x14200] (sem_wait 0x14200 sample_running)"
    by simp
  from semaphore_fifo [OF sample_boots(2) _ this, of "0x14200"] this show ?thesis
    by (auto simp: sample_lists parked_def woken_def sample_spec astep_def acall_def)
qed

section \<open>Mutexes\<close>

text \<open>\<^verbatim>\<open>rein_mutex_lock\<close>: a free mutex, or one the caller already owns, is taken at once and its
  level rises by one; otherwise the caller leaves the ready list for the end of the mutex's wait list
  and the next ready task runs, with owner and level unchanged.\<close>

lemma mutex_lock_behaviour:
  assumes "sim SS MM a s" and "curr_task s \<noteq> idle_task s" and "p \<in> MM"
    and "sint (locker (mutexes s p)) < 2 ^ 31 - 1" and s': "s' = rein_mutex_lock p s"
  shows "if locker (mutexes s p) = 0 \<or> owner (mutexes s p) = curr_task s
    then locker (mutexes s' p) = locker (mutexes s p) + 1 \<and> owner (mutexes s' p) = curr_task s \<and>
      curr_task s' = curr_task s \<and> tasks_on LReady s' = tasks_on LReady s
    else locker (mutexes s' p) = locker (mutexes s p) \<and> owner (mutexes s' p) = owner (mutexes s p) \<and>
      tasks_on (LMutex p) s' = tasks_on (LMutex p) s @ [curr_task s] \<and>
      tasks_on LReady s' = tl (tasks_on LReady s) \<and> curr_task s' = hd_or (idle_task s) (tl (tasks_on LReady s))"
proof -
  have R: "aready a \<noteq> []" using simD(4) [OF assms(1)] assms(2) by blast
  note k = simD(1) [OF assms(1)] and cur = sim_curr [OF assms(1) R]
  have sm: "sim SS MM (a_lock p a) s'" unfolding s' by (rule sim_lock [OF assms(1) R assms(3,4)])
  have i: "idle_task s' = idle_task s" by (simp add: s')
  show ?thesis
  proof (cases "locker (mutexes s p) = 0 \<or> owner (mutexes s p) = curr_task s")
    case True
    note l = mutex_lock_take [OF k True]
    have "qrel (live a s) (queues_of SS MM a) s'" using l(1) unfolding s' kinv_def kstatic_def by blast
    then have "tasks_on LReady s' = aready a" by (rule qrel_tasks_on) simp
    moreover have "curr_task s' = curr_task s" using l(1) R cur by (simp add: s' kinv_def hd_or_hd)
    ultimately show ?thesis using True l(2) sim_tasks_on(1) [OF assms(1)] by (simp add: s')
  next
    case False
    have q: "queues_of SS MM a (LMutex p) = Some (amtxq a p)" using assms(3) by simp
    note l = mutex_lock_block [OF k _ q, unfolded ready_queues_of, OF R]
    have "a_lock p a = a\<lparr>aready := tl (aready a), amtxq := (amtxq a)(p := amtxq a p @ [hd (aready a)])\<rparr>"
      using False sim_mtx [OF assms(1,3)] cur of_nat_level(1)
      by (auto simp: a_lock_def mtx_rel_def split: option.split)
    then show ?thesis
      using False l(2,3) sim_tasks_on [OF assms(1)] sim_tasks_on [OF sm] simD(3) [OF sm] i cur assms(3)
      by (simp add: s')
  qed
qed

lemma mutex_lock_behaviour_example:
  "locker (mutexes (rein_mutex_lock 0x14000 sample_running) 0x14000) = 1 \<and>
   owner (mutexes (rein_mutex_lock 0x14000 sample_running) 0x14000) = 0x10028"
  using mutex_lock_behaviour [OF sample_boots(2) sample_curr(2) _ _ refl, of "0x14000"]
  by (simp add: sample_counts sample_curr(1))

text \<open>C27. \<^verbatim>\<open>rein_mutex_unlock\<close> panics exactly when the mutex is not locked or not owned by the
  caller. Otherwise the level drops by one; when it reaches zero the mutex is free if nobody waits, and
  else belongs, at level one, to the task that waited longest, which joins the end of the ready list.
  The caller keeps running.\<close>

theorem mutex_unlock_behaviour:
  assumes "sim SS MM a s" and "curr_task s \<noteq> idle_task s" and "p \<in> MM"
  shows "case rein_mutex_unlock p s of
      Inl e \<Rightarrow> locker (mutexes s p) = 0 \<or> owner (mutexes s p) \<noteq> curr_task s
    | Inr s' \<Rightarrow> locker (mutexes s p) \<noteq> 0 \<and> owner (mutexes s p) = curr_task s \<and> curr_task s' = curr_task s \<and>
        (if locker (mutexes s p) \<noteq> 1 then owner (mutexes s' p) = curr_task s \<and>
           locker (mutexes s' p) = locker (mutexes s p) - 1 \<and> tasks_on LReady s' = tasks_on LReady s
         else case tasks_on (LMutex p) s of
           [] \<Rightarrow> locker (mutexes s' p) = 0 \<and> owner (mutexes s' p) = 0 \<and> tasks_on LReady s' = tasks_on LReady s
         | w # ws \<Rightarrow> locker (mutexes s' p) = 1 \<and> owner (mutexes s' p) = w \<and> tasks_on (LMutex p) s' = ws \<and>
             tasks_on LReady s' = tasks_on LReady s @ [w])"
proof (cases "locker (mutexes s p) = 0 \<or> owner (mutexes s p) \<noteq> curr_task s")
  case True
  then obtain e where "rein_mutex_unlock p s = Inl e" using mutex_unlock_panic [of s p] by blast
  then show ?thesis using True by simp
next
  case False
  have R: "aready a \<noteq> []" using simD(4) [OF assms(1)] assms(2) by blast
  note k = simD(1) [OF assms(1)] and cur = sim_curr [OF assms(1) R]
  have q: "queues_of SS MM a (LMutex p) = Some (amtxq a p)" using assms(3) by simp
  have lists: "tasks_on i s' = xs" if "kinv T q' s'" "q' i = Some xs" for i s' q' T xs
    using that qrel_tasks_on [of T q' s' i xs] unfolding kinv_def kstatic_def by blast
  have same: "curr_task s' = curr_task s" if "kinv T q' s'" "ready q' = aready a @ xs" for s' q' T xs
    using that R cur by (simp add: kinv_def hd_or_hd)
  note on = sim_tasks_on [OF assms(1)]
  consider "locker (mutexes s p) \<noteq> 1" | "locker (mutexes s p) = 1" "amtxq a p = []"
    | w ws where "locker (mutexes s p) = 1" "amtxq a p = w # ws" by (cases "amtxq a p") auto
  then show ?thesis
  proof cases
    case 1
    then obtain s' where s': "rein_mutex_unlock p s = Inr s'" "kinv (live a s) (queues_of SS MM a) s'"
      "mutexes s' = (mutexes s)(p := (mutexes s p)\<lparr>locker := locker (mutexes s p) - 1\<rparr>)"
      using mutex_unlock_nested [OF k, of p] False by auto
    then show ?thesis using 1 False lists [OF s'(2), of LReady] same [OF s'(2), of "[]"] on by simp
  next
    case 2
    then obtain s' where s': "rein_mutex_unlock p s = Inr s'" "kinv (live a s) (queues_of SS MM a) s'"
      "mutexes s' = (mutexes s)(p := (mutexes s p)\<lparr>locker := 0, owner := 0\<rparr>)"
      using mutex_unlock_free [OF k, of p] False q by auto
    then show ?thesis using 2 False lists [OF s'(2), of LReady] same [OF s'(2), of "[]"] on assms(3) by simp
  next
    case 3
    then obtain s' where s': "rein_mutex_unlock p s = Inr s'" "kinv (live a s) (q_wake (LMutex p) (queues_of SS MM a)) s'"
      "owner (mutexes s' p) = w" "locker (mutexes s' p) = 1"
      using mutex_unlock_handoff [OF k, of p w ws] False q R by auto
    have "q_wake (LMutex p) (queues_of SS MM a) LReady = Some (aready a @ [w])"
      "q_wake (LMutex p) (queues_of SS MM a) (LMutex p) = Some ws"
      using q 3 by (simp_all add: q_wake_def ready_def)
    then show ?thesis
      using s' 3 False lists [OF s'(2)] same [OF s'(2), of "[w]"] on assms(3) by (simp add: ready_def)
  qed
qed

theorem mutex_unlock_behaviour_witness: "\<exists>e. rein_mutex_unlock 0x14000 sample_running = Inl e"
  using mutex_unlock_behaviour [OF sample_boots(2) sample_curr(2), of "0x14000"]
  by (simp add: sample_counts split: sum.splits)

lemma spec_mutex_kept:
  assumes "astep op a = Some b" and "amtx a p = Some (t, n)" and "\<not> (op = MutexUnlock p \<and> hd (aready a) = t)"
  shows "\<exists>m\<ge>n. amtx b p = Some (t, m)"
  using assms
  by (cases op) (auto simp: astep_def acall_def aops a_tick_def a_slice_def Let_def
      split: if_splits option.splits list.splits prod.splits)

text \<open>C11. Exclusion. While a mutex is locked, no step of the running system other than an unlock by its
  owner changes the owner or lowers the level.\<close>

theorem mutex_exclusion:
  assumes "sim SS MM a s" and "kstep SS MM s op s'" and "p \<in> MM" and "locker (mutexes s p) \<noteq> 0"
    and "\<not> (op = MutexUnlock p \<and> curr_task s = owner (mutexes s p))"
  shows "owner (mutexes s' p) = owner (mutexes s p) \<and> unat (locker (mutexes s p)) \<le> unat (locker (mutexes s' p))"
proof -
  obtain b where b: "astep op a = Some b" "sim SS MM b s'" using kr.sim_step [OF assms(1,2)] by blast
  have v: "unat (of_nat k :: cint) = k" if "k < 2 ^ 31" for k using that by (simp add: unat_of_nat)
  obtain t n where t: "amtx a p = Some (t, n)" "owner (mutexes s p) = t" "locker (mutexes s p) = of_nat n" "n < 2 ^ 31"
    using sim_mtx [OF assms(1,3)] assms(4) by (auto simp: mtx_rel_def split: option.splits)
  have "\<not> (op = MutexUnlock p \<and> hd (aready a) = t)"
  proof
    assume u: "op = MutexUnlock p \<and> hd (aready a) = t"
    then have "aready a \<noteq> []" using b(1) by (auto simp: astep_def split: if_splits)
    then show False using u assms(5) t(2) sim_curr [OF assms(1)] by simp
  qed
  then obtain m where m: "n \<le> m" "amtx b p = Some (t, m)" using spec_mutex_kept [OF b(1) t(1)] by blast
  then have "owner (mutexes s' p) = t" "locker (mutexes s' p) = of_nat m" "m < 2 ^ 31"
    using sim_mtx [OF b(2) assms(3)] by (auto simp: mtx_rel_def)
  then show ?thesis using t m v by simp
qed

theorem mutex_exclusion_witness:
  "\<exists>s'. timer_interrupt (rein_mutex_lock 0x14000 sample_running) = Some s' \<and> owner (mutexes s' 0x14000) = 0x10028"
proof -
  let ?s = "rein_mutex_lock 0x14000 sample_running" and ?SS = "{0x14200}" and ?MM = "{0x14000, 0x14100}"
  have s: "sim ?SS ?MM (a_lock 0x14000 (boot_spec sample_kernel)) ?s"
    using sim_lock [OF sample_boots(2), of "0x14000"] by (simp add: sample_spec sample_counts)
  have o: "mutexes ?s 0x14000 = (mutexes sample_running 0x14000)\<lparr>locker := 1, owner := 0x10028\<rparr>"
    using mutex_lock_take(2) [OF simD(1) [OF sample_boots(2)], of "0x14000"] by (simp add: sample_counts sample_curr(1))
  obtain s' where s': "timer_interrupt ?s = Some s'" using sim_tick [OF s] by blast
  then have "kstep ?SS ?MM ?s Tick s'" by (simp add: kstep_simps allowed_def kexec_def)
  from mutex_exclusion [OF s this, of "0x14000"] show ?thesis using s' o by simp
qed

lemma protected_upd_mutex: "leave_protected (upd_mutex p f (enter_protected s)) = upd_mutex p f s"
  by (simp add: upd_mutex_def protection_defs Let_def)

lemma lock_state:
  assumes "locker (mutexes s p) = 0 \<or> owner (mutexes s p) = curr_task s"
  shows "rein_mutex_lock p s = upd_mutex p (\<lambda>k. k\<lparr>locker := locker k + 1, owner := curr_task s\<rparr>) s"
proof (cases "locker (mutexes s p) = 0")
  case False
  then have "owner (mutexes s p) = curr_task s" using assms by simp
  then have "(mutexes s p)\<lparr>owner := curr_task s\<rparr> = mutexes s p" by (cases "mutexes s p") simp
  then have "upd_mutex p (\<lambda>k. k\<lparr>locker := locker k + 1\<rparr>) s =
      upd_mutex p (\<lambda>k. k\<lparr>locker := locker k + 1, owner := curr_task s\<rparr>) s"
    by (cases "mutexes s p") (simp add: upd_mutex_def)
  then show ?thesis
    using False assms by (simp add: rein_mutex_lock_def task_current_def protected_upd_mutex Let_def)
qed (simp add: rein_mutex_lock_def task_current_def protected_upd_mutex Let_def)

lemma unlock_state:
  assumes "locker (mutexes s p) \<noteq> 0" and "owner (mutexes s p) = curr_task s"
    and "locker (mutexes s p) = 1 \<Longrightarrow> count (mutex_wait_list (mutexes s p)) = 0"
  shows "rein_mutex_unlock p s = Inr (upd_mutex p (\<lambda>k. k\<lparr>locker := locker k - 1,
    owner := if locker k = 1 then 0 else owner k\<rparr>) s)"
proof (cases "locker (mutexes s p) = 1")
  case True
  then have "rein_mutex_unlock p s = Inr (leave_protected (upd_mutex p (\<lambda>k. k\<lparr>owner := 0\<rparr>)
      (upd_mutex p (\<lambda>k. k\<lparr>locker := locker k - 1\<rparr>) (enter_protected s))))"
    using assms by (simp add: rein_mutex_unlock_def mutex_handoff_def task_current_def list_count_def Let_def)
  also have "leave_protected (upd_mutex p (\<lambda>k. k\<lparr>owner := 0\<rparr>) (upd_mutex p (\<lambda>k. k\<lparr>locker := locker k - 1\<rparr>)
      (enter_protected s))) = leave_protected (upd_mutex p (\<lambda>k. k\<lparr>locker := locker k - 1, owner := 0\<rparr>) (enter_protected s))"
    by (simp add: upd_mutex_def)
  finally show ?thesis using True by (simp add: protected_upd_mutex) (simp add: upd_mutex_def)
next
  case False
  then have "rein_mutex_unlock p s = Inr (upd_mutex p (\<lambda>k. k\<lparr>locker := locker k - 1\<rparr>) s)"
    using assms by (simp add: rein_mutex_unlock_def task_current_def protected_upd_mutex Let_def)
  with False show ?thesis by (cases "mutexes s p") (simp add: upd_mutex_def)
qed

text \<open>C28. Locking and unlocking are inverse: for a mutex that is free, ownerless and has no waiters, and
  for one the caller holds below the largest level, an unlock right after a lock restores the whole
  kernel state, so nested regions of any depth leave the mutex as they found it.\<close>

theorem mutex_lock_unlock:
  assumes "locker (mutexes s p) = 0 \<and> owner (mutexes s p) = 0 \<and> count (mutex_wait_list (mutexes s p)) = 0 \<or>
    0 < sint (locker (mutexes s p)) \<and> sint (locker (mutexes s p)) < 2 ^ 31 - 1 \<and> owner (mutexes s p) = curr_task s"
  shows "rein_mutex_unlock p (rein_mutex_lock p s) = Inr s"
proof -
  let ?m = "mutexes s p"
  let ?s = "upd_mutex p (\<lambda>k. k\<lparr>locker := locker k + 1, owner := curr_task s\<rparr>) s"
  have l: "rein_mutex_lock p s = ?s" using assms by (intro lock_state) auto
  have nz: "locker ?m + 1 \<noteq> 0" "locker ?m \<noteq> 0 \<or> owner ?m = 0 \<and> count (mutex_wait_list ?m) = 0"
    "locker ?m = 0 \<or> owner ?m = curr_task s"
  proof -
    show "locker ?m + 1 \<noteq> 0"
    proof
      assume "locker ?m + 1 = 0"
      then show False using assms sint_incr [of "locker ?m"] by auto
    qed
  qed (use assms in auto)
  have "rein_mutex_unlock p ?s = Inr (upd_mutex p (\<lambda>k. k\<lparr>locker := locker k - 1,
      owner := if locker k = 1 then 0 else owner k\<rparr>) ?s)"
    using nz by (intro unlock_state) auto
  also have "upd_mutex p (\<lambda>k. k\<lparr>locker := locker k - 1, owner := if locker k = 1 then 0 else owner k\<rparr>) ?s = s"
    using nz(2,3) by (cases ?m) (auto simp: upd_mutex_def fun_upd_idem)
  finally show ?thesis by (simp add: l)
qed

theorem mutex_lock_unlock_witness:
  "rein_mutex_unlock 0x14000 (rein_mutex_lock 0x14000 blank_kernel) = Inr blank_kernel"
  using mutex_lock_unlock [of blank_kernel "0x14000"] by (simp add: blank_kernel_def list_init_def)

end
