(* ===== verification/Timing.thy ===== *)
theory Timing
  imports Kernel_Runs
begin

text \<open>
  Time: what a clock interrupt does to the lists, how long \<^verbatim>\<open>sys_sleep\<close> sleeps, and how long a
  ready task waits for the processor.
\<close>

section \<open>Sleeping\<close>

lemma arun_append [simp]: "arun (xs @ ys) a = Option.bind (arun xs a) (arun ys)"
proof (induction xs arbitrary: a)
  case (Cons x xs)
  then show ?case by (cases "astep x a") simp_all
qed simp

lemma ticks_in_append [simp]: "ticks_in (xs @ ys) = ticks_in xs + ticks_in ys"
  by (simp add: ticks_in_def)

lemma sleeper_wakes:
  assumes "arun (ops @ [Tick]) a = Some b" and "(t, n) \<in> set (asleep a)" and "ticks_in ops + 1 = n"
  shows "t \<in> set (aready b)"
proof -
  obtain c where c: "arun ops a = Some c" "astep Tick c = Some b"
    using assms(1) by (auto simp: bind_eq_Some_conv)
  have "(t, n - ticks_in ops) \<in> set (asleep c)" "n - ticks_in ops = 1"
    using sleeper_run [OF c(1) assms(2)] assms(3) by simp_all
  then show ?thesis using sleeper_step(3) [OF c(2)] by blast
qed

text \<open>C9. The sleep duration. A task that calls \<^verbatim>\<open>sys_sleep\<close> stays on the sleep list, with the number
  of ticks left as its counter, until as many clock interrupts have happened as the call computed; the
  last of them moves it to the ready list. Nothing the other tasks do in the meantime changes this.\<close>

theorem sleep_exact:
  assumes "sim SS MM a s" and "curr_task s \<noteq> idle_task s" and "run (kstep SS MM) (sys_sleep ms s) ops s'"
  shows "(ticks_in ops < unat (sleep_ticks_of_ms ms) \<longrightarrow> curr_task s \<in> set (tasks_on LSleep s') \<and>
      unat (sleep_ticks (tasks s' (curr_task s))) = unat (sleep_ticks_of_ms ms) - ticks_in ops) \<and>
    (ticks_in ops = unat (sleep_ticks_of_ms ms) \<and> last ops = Tick \<longrightarrow> curr_task s \<in> set (tasks_on LReady s'))"
proof -
  let ?n = "unat (sleep_ticks_of_ms ms)" and ?t = "curr_task s"
  let ?a = "a_sleep ?n a"
  have R: "aready a \<noteq> []" using simD(4) [OF assms(1)] assms(2) by blast
  have s1: "sim SS MM ?a (sys_sleep ms s)" using sim_sleep [OF assms(1) R] by (simp add: sleep_ticks_spec)
  obtain b where b: "arun ops ?a = Some b" "sim SS MM b s'" using kernel_run [OF s1 assms(3)] by blast
  have t: "(?t, ?n) \<in> set (asleep ?a)" using sim_curr [OF assms(1) R] by (simp add: a_sleep_def)
  have "?t \<in> set (tasks_on LSleep s') \<and> unat (sleep_ticks (tasks s' ?t)) = ?n - ticks_in ops"
    if n: "ticks_in ops < ?n"
  proof -
    have m: "(?t, ?n - ticks_in ops) \<in> set (asleep b)" by (rule sleeper_run [OF b(1) t n])
    then have "sleep_ticks (tasks s' ?t) = of_nat (?n - ticks_in ops) \<and> ?n - ticks_in ops < 2 ^ 31"
      using simD(2) [OF b(2)] unfolding data_rel_def by blast
    moreover have "unat (of_nat k :: cint) = k" if "k < 2 ^ 31" for k using that by (simp add: unat_of_nat)
    ultimately have "unat (sleep_ticks (tasks s' ?t)) = ?n - ticks_in ops" by presburger
    then show ?thesis using m sim_tasks_on(2) [OF b(2)] by force
  qed
  moreover have "?t \<in> set (tasks_on LReady s')" if n: "ticks_in ops = ?n" "last ops = Tick"
  proof -
    have "?n \<noteq> 0" using sleep_ticks_of_ms_bounds(3) [of ms] by (simp add: unat_eq_0)
    then obtain ks where k: "ops = ks @ [Tick]" using n by (cases ops rule: rev_cases) auto
    then have "ticks_in ks + 1 = ?n" using n(1) by simp
    then show ?thesis using sleeper_wakes [OF b(1) [unfolded k] t] sim_tasks_on(1) [OF b(2)] by simp
  qed
  ultimately show ?thesis by blast
qed

theorem sleep_exact_witness:
  "0x10028 \<in> set (tasks_on LSleep (sys_sleep 1000 sample_running)) \<and>
   unat (sleep_ticks (tasks (sys_sleep 1000 sample_running) 0x10028)) = 101"
proof -
  have n: "unat (sleep_ticks_of_ms 1000) = 101" by (simp add: sleep_ticks_of_ms_def OS_TICKS_MS_def)
  have "run (kstep {0x14200} {0x14000, 0x14100}) (sys_sleep 1000 sample_running) [] (sys_sleep 1000 sample_running)"
    by simp
  from sleep_exact [OF sample_boots(2) sample_curr(2) this] show ?thesis by (simp add: n sample_curr(1))
qed

text \<open>C29. Rounding. For requests the 32-bit sum does not wrap on, the ticks computed cover the time
  asked for even when the first tick comes at once, and exceed it by less than two ticks of 10 ms. For
  the last nine values the sum wraps and the task sleeps one tick.\<close>

theorem sleep_ticks_rounding:
  "(unat ms \<le> 2 ^ 32 - 10 \<longrightarrow> unat ms \<le> 10 * (unat (sleep_ticks_of_ms ms) - 1) \<and>
      10 * unat (sleep_ticks_of_ms ms) < unat ms + 20) \<and>
   (2 ^ 32 - 10 < unat ms \<longrightarrow> sleep_ticks_of_ms ms = 1)"
proof -
  have u: "unat (sleep_ticks_of_ms ms) = (unat ms + 9) mod 2 ^ 32 div 10 + 1"
    by (simp add: sleep_ticks_spec spec_ticks_def)
  have w: "sleep_ticks_of_ms ms = 1" if "2 ^ 32 - 10 < unat ms"
  proof -
    have "unat ms < 2 ^ 32" using unat_below [of ms] by simp
    then have "(unat ms + 9) mod 2 ^ 32 < 9" using that by (auto simp: mod_if)
    then have "unat (sleep_ticks_of_ms ms) = 1" using u by simp
    then show ?thesis by (metis unat_1 word_unat_eq_iff)
  qed
  have "unat ms \<le> 10 * ((unat ms + 9) div 10)" "10 * ((unat ms + 9) div 10 + 1) < unat ms + 20" by simp_all
  moreover have "(unat ms + 9) mod 2 ^ 32 = unat ms + 9" if "unat ms \<le> 2 ^ 32 - 10" using that by simp
  ultimately show ?thesis using w unfolding u by simp
qed

theorem sleep_ticks_rounding_witness:
  "sleep_ticks_of_ms 0xFFFFFFFF = 1 \<and> 10 * unat (sleep_ticks_of_ms 1000) < 1020"
  using sleep_ticks_rounding [of "0xFFFFFFFF"] sleep_ticks_rounding [of 1000] by simp

section \<open>The clock interrupt\<close>

lemma sim_wakes:
  assumes "sim SS MM a s" and "(t, n) \<in> set (asleep a)"
  shows "sleep_ticks (tasks s t) = 1 \<longleftrightarrow> n = 1"
  using simD(2) [OF assms(1)] assms(2) of_nat_level(2) [of n] by (auto simp: data_rel_def)

text \<open>C26. The clock interrupt returns, whatever the lists hold, and counts one tick. Sleepers on their
  last tick are appended to the ready list in the order in which they went to sleep and the others stay
  asleep; before that, a running task on the last tick of its slice moves to the end of the ready list.
  The task that is then first runs.\<close>

theorem clock_interrupt:
  assumes "sim SS MM a s"
  shows "\<exists>s'. timer_interrupt s = Some s' \<and> sys_tick s' = sys_tick s + 1 \<and>
    tasks_on LSleep s' = filter (\<lambda>t. sleep_ticks (tasks s t) \<noteq> 1) (tasks_on LSleep s) \<and>
    tasks_on LReady s' = (if tasks_on LReady s \<noteq> [] \<and> slice_ticks (tasks s (curr_task s)) = 1
        then rotate1 (tasks_on LReady s) else tasks_on LReady s)
      @ filter (\<lambda>t. sleep_ticks (tasks s t) = 1) (tasks_on LSleep s) \<and>
    curr_task s' = hd_or (idle_task s) (tasks_on LReady s')"
proof -
  obtain s' where s': "timer_interrupt s = Some s'" "sim SS MM (a_tick a) s'" "sys_tick s' = sys_tick s + 1"
    and i: "idle_task s' = idle_task s"
    using sim_tick [OF assms] by blast
  have w: "sleep_ticks (tasks s t) = 1 \<longleftrightarrow> n = 1" if "(t, n) \<in> set (asleep a)" for t n
    by (rule sim_wakes [OF assms that])
  have f: "filter (\<lambda>t. sleep_ticks (tasks s t) = 1) (map fst (asleep a)) = map fst (filter (\<lambda>(t, n). n = 1) (asleep a))"
    "filter (\<lambda>t. sleep_ticks (tasks s t) \<noteq> 1) (map fst (asleep a)) = map fst (filter (\<lambda>(t, n). n \<noteq> 1) (asleep a))"
    unfolding filter_map comp_def by (auto intro!: arg_cong [where f = "map fst"] filter_cong simp: w)
  have "slice_ticks (tasks s (curr_task s)) = 1 \<longleftrightarrow> aslice a h = 1" if "aready a = h # R" for h R
  proof -
    have "h \<in> set (aall a)" using sim_wf [OF assms] that by (auto simp: awf_def placed_def)
    then have "slice_ticks (tasks s h) = of_nat (aslice a h)" "aslice a h < 2 ^ 31"
      using simD(2) [OF assms] sim_wf [OF assms] by (fastforce simp: data_rel_def awf_def slice_wf_def)+
    then show ?thesis using of_nat_level(2) [of "aslice a h"] sim_curr [OF assms] that by simp
  qed
  then have r: "aready (a_slice a) = (if aready a \<noteq> [] \<and> slice_ticks (tasks s (curr_task s)) = 1
      then rotate1 (aready a) else aready a)"
    by (auto simp: a_slice_def split: list.split)
  show ?thesis
    using s' simD(3) [OF s'(2)] i sim_tasks_on(1,2) [OF s'(2)] sim_tasks_on(1,2) [OF assms] r f
    by (auto simp: a_tick_def Let_def comp_def case_prod_unfold)
qed

theorem clock_interrupt_witness:
  "\<exists>s'. timer_interrupt sample_running = Some s' \<and> tasks_on LReady s' = [0x10028, 0x11000] \<and> curr_task s' = 0x10028"
  using clock_interrupt [OF sample_boots(2)] by (auto simp: sample_lists sample_counts sample_curr(1))

section \<open>Waiting for the processor\<close>

lemma ticks_run: "sim SS MM a s \<Longrightarrow> \<exists>s'. run (kstep SS MM) s (replicate n Tick) s'"
proof (induction n arbitrary: a s)
  case (Suc n)
  obtain s1 where "timer_interrupt s = Some s1" "sim SS MM (a_tick a) s1" using sim_tick [OF Suc.prems] by blast
  moreover from this(1) have "kstep SS MM s Tick s1" by (simp add: kstep_simps allowed_def kexec_def)
  moreover obtain s2 where "run (kstep SS MM) s1 (replicate n Tick) s2" using Suc.IH calculation(2) by blast
  ultimately show ?case by auto
qed (auto intro: run.run_Nil)

text \<open>C10. Bounded waiting. A ready task runs at the latest when as many clock interrupts have happened
  as the tasks before it in the ready list have ticks left in their slices, whatever calls are made in
  between: no task starves.\<close>

theorem bounded_waiting:
  assumes "sim SS MM a s" and "t \<in> set (tasks_on LReady s)" and "run (kstep SS MM) s ops s'"
    and "sum_list (map (\<lambda>u. unat (slice_ticks (tasks s u))) (takeWhile (\<lambda>u. u \<noteq> t) (tasks_on LReady s))) \<le> ticks_in ops"
  shows "\<exists>n\<le>length ops. \<exists>s1. run (kstep SS MM) s (take n ops) s1 \<and> curr_task s1 = t"
proof -
  have wf: "awf a" "uniq (alist a)" using sim_wf [OF assms(1)] by auto
  have t: "t \<in> set (aready a)" using assms(2) sim_tasks_on(1) [OF assms(1)] by simp
  have sl: "unat (slice_ticks (tasks s u)) = aslice a u" if "u \<in> set (aready a)" for u
  proof -
    have "u \<in> set (aall a)" using wf(1) that by (auto simp: awf_def placed_def)
    then have "slice_ticks (tasks s u) = of_nat (aslice a u)" "aslice a u < 2 ^ 31"
      using simD(2) [OF assms(1)] wf(1) by (fastforce simp: data_rel_def awf_def slice_wf_def)+
    then show ?thesis by (simp add: unat_of_nat)
  qed
  have "map (\<lambda>u. unat (slice_ticks (tasks s u))) (ahead t (aready a)) = map (aslice a) (ahead t (aready a))"
    using sl set_ahead [of t "aready a"] by (intro map_cong) auto
  then have w: "wait_bound a t \<le> ticks_in ops"
    using assms(4) unfolding wait_bound_def sim_tasks_on(1) [OF assms(1)] ahead_def by metis
  obtain b where "arun ops a = Some b" using kernel_run [OF assms(1,3)] by blast
  from bounded_waiting_run [OF this t wf w] obtain n c where
    n: "n \<le> length ops" "arun (take n ops) a = Some c" "aready c \<noteq> []" "hd (aready c) = t" by blast
  obtain s1 where s1: "run (kstep SS MM) s (take n ops) s1" using run_prefix [OF assms(3)] by blast
  then obtain c' where "arun (take n ops) a = Some c'" "sim SS MM c' s1" using kernel_run [OF assms(1)] by blast
  then have "curr_task s1 = t" using n sim_curr [of SS MM c s1] by simp
  then show ?thesis using n(1) s1 by blast
qed

theorem bounded_waiting_witness:
  "\<exists>n\<le>10. \<exists>s1. run (kstep {0x14200} {0x14000, 0x14100}) sample_running (take n (replicate 10 Tick)) s1 \<and>
     curr_task s1 = 0x11000"
proof -
  obtain s' where r: "run (kstep {0x14200} {0x14000, 0x14100}) sample_running (replicate 10 Tick) s'"
    using ticks_run [OF sample_boots(2)] by blast
  have "ticks_in (replicate 10 Tick) = 10" by (simp add: numeral_eq_Suc)
  then show ?thesis
    using bounded_waiting [OF sample_boots(2) _ r, of "0x11000"] by (simp add: sample_lists sample_counts)
qed

end
