(* ===== verification/Idle.thy ===== *)
theory Idle
  imports Timing
begin

text \<open>
  The idle task of \<^verbatim>\<open>src/source/kernel/core/task.c\<close>: an endless loop around \<^verbatim>\<open>hlt\<close>, which stops the processor
  until an interrupt comes. The clock is the only interrupt line the kernel unmasks, so a round of the loop is one clock
  interrupt; without interrupts the processor would never go on.
\<close>

section \<open>Operations\<close>

definition hlt :: "kernel \<Rightarrow> kernel option" where
  "hlt s = (if if_set (eflags s) then timer_interrupt s else None)"

definition idle_task_entry :: "kernel \<Rightarrow> kernel option" where
  "idle_task_entry s = hlt s"

text \<open>At most \<open>n\<close> rounds: the loop makes no further round once a task has been dispatched.\<close>

fun idle_rounds :: "nat \<Rightarrow> kernel \<Rightarrow> kernel option" where
  "idle_rounds 0 s = Some s"
| "idle_rounds (Suc n) s =
    (if curr_task s = idle_task s then Option.bind (idle_task_entry s) (idle_rounds n) else Some s)"

section \<open>The sleepers while the system is idle\<close>

definition earliest :: "(addr \<times> nat) list \<Rightarrow> nat" where
  "earliest S = Min (snd ` set S)"

lemma idle_tick:
  assumes "aready a = []"
  shows "aready (a_tick a) = map fst (filter (\<lambda>(t, n). n = 1) (asleep a))"
    "asleep (a_tick a) = map (\<lambda>(t, n). (t, n - 1)) (filter (\<lambda>(t, n). n \<noteq> 1) (asleep a))"
  using assms by (simp_all add: a_tick_def a_slice_def)

lemma earliest_bound: "(t, n) \<in> set S \<Longrightarrow> earliest S \<le> n"
  unfolding earliest_def by (intro Min_le) force+

lemma earliest_in: "S \<noteq> [] \<Longrightarrow> \<exists>t. (t, earliest S) \<in> set S"
  unfolding earliest_def using Min_in [of "snd ` set S"] by fastforce

text \<open>As long as nobody is due, a tick lowers every counter.\<close>

lemma earliest_later:
  assumes "S \<noteq> []" and "1 < earliest S"
  shows "filter (\<lambda>(t, n). n \<noteq> 1) S = S" "filter (\<lambda>(t, n). n = 1) S = []"
    "earliest (map (\<lambda>(t, n). (t, n - 1)) S) = earliest S - 1"
    "filter (\<lambda>(t, n). n = earliest S - 1) (map (\<lambda>(t, n). (t, n - 1)) S) = map (\<lambda>(t, n). (t, n - 1)) (filter (\<lambda>(t, n). n = earliest S) S)"
proof -
  have l: "earliest S \<le> n" if "(t, n) \<in> set S" for t n using earliest_bound [OF that] .
  show "filter (\<lambda>(t, n). n \<noteq> 1) S = S" using l assms(2) by (intro filter_True) fastforce
  show "filter (\<lambda>(t, n). n = 1) S = []" using l assms(2) by (intro filter_False) fastforce
  obtain t where t: "(t, earliest S) \<in> set S" using earliest_in [OF assms(1)] by blast
  have "earliest (map (\<lambda>(t, n). (t, n - 1)) S) \<le> earliest S - 1"
    using t by (intro earliest_bound [of t]) force
  moreover have "map (\<lambda>(t, n). (t, n - 1)) S \<noteq> []" using assms(1) by simp
  from earliest_in [OF this] obtain u where "(u, earliest (map (\<lambda>(t, n). (t, n - 1)) S)) \<in> set (map (\<lambda>(t, n). (t, n - 1)) S)" by blast
  then have "earliest S - 1 \<le> earliest (map (\<lambda>(t, n). (t, n - 1)) S)" by (auto intro!: diff_le_mono l)
  ultimately show "earliest (map (\<lambda>(t, n). (t, n - 1)) S) = earliest S - 1" by simp
  have "n - 1 = earliest S - 1 \<longleftrightarrow> n = earliest S" if "(t, n) \<in> set S" for t n using l [OF that] assms(2) by linarith
  then show "filter (\<lambda>(t, n). n = earliest S - 1) (map (\<lambda>(t, n). (t, n - 1)) S) = map (\<lambda>(t, n). (t, n - 1)) (filter (\<lambda>(t, n). n = earliest S) S)"
    unfolding filter_map by (intro arg_cong [where f = "map (\<lambda>(t, n). (t, n - 1))"] filter_cong) auto
qed

lemma idle_round:
  assumes "sim SS MM a s" and "aready a = []"
  shows "curr_task s = idle_task s" "\<exists>s'. idle_task_entry s = Some s' \<and> sim SS MM (a_tick a) s' \<and> sys_tick s' = sys_tick s + 1"
proof -
  show "curr_task s = idle_task s" using simD(4) [OF assms(1)] assms(2) by simp
  have "if_set (eflags s)" using simD(1) [OF assms(1)] by (simp add: kinv_def at_user_def)
  then show "\<exists>s'. idle_task_entry s = Some s' \<and> sim SS MM (a_tick a) s' \<and> sys_tick s' = sys_tick s + 1"
    using sim_tick [OF assms(1)] by (auto simp: idle_task_entry_def hlt_def)
qed

lemma idle_run:
  assumes "sim SS MM a s" and "aready a = []" and "asleep a \<noteq> []" and "earliest (asleep a) = Suc m"
  shows "(\<forall>j\<le>m. \<exists>s'. idle_rounds j s = Some s' \<and> curr_task s' = idle_task s') \<and>
    (\<exists>s'. idle_rounds (Suc m) s = Some s' \<and> sys_tick s' = sys_tick s + of_nat (Suc m) \<and>
      curr_task s' = fst (hd (filter (\<lambda>(t, n). n = Suc m) (asleep a))))"
  using assms
proof (induction m arbitrary: a s)
  case 0
  obtain s' where s': "idle_task_entry s = Some s'" "sim SS MM (a_tick a) s'" "sys_tick s' = sys_tick s + 1"
    using idle_round(2) [OF 0(1,2)] by blast
  obtain t where "(t, 1) \<in> set (asleep a)" using earliest_in [OF 0(3)] 0(4) by auto
  then have "filter (\<lambda>(t, n). n = 1) (asleep a) \<noteq> []" by (auto simp: filter_empty_conv)
  then have "curr_task s' = fst (hd (filter (\<lambda>(t, n). n = 1) (asleep a)))"
    using sim_curr [OF s'(2)] idle_tick(1) [OF 0(2)] by (simp add: hd_map)
  then show ?case using idle_round(1) [OF 0(1,2)] s' by simp
next
  case (Suc m)
  obtain s' where s': "idle_task_entry s = Some s'" "sim SS MM (a_tick a) s'" "sys_tick s' = sys_tick s + 1"
    using idle_round(2) [OF Suc.prems(1,2)] by blast
  have "1 < earliest (asleep a)" using Suc.prems(4) by simp
  note e = earliest_later [OF Suc.prems(3) this]
  have a: "aready (a_tick a) = []" "asleep (a_tick a) = map (\<lambda>(t, n). (t, n - 1)) (asleep a)"
    using idle_tick [OF Suc.prems(2)] e(1,2) by simp_all
  have em: "earliest (asleep (a_tick a)) = Suc m" using e(3) Suc.prems(4) a(2) by simp
  obtain t where "(t, Suc (Suc m)) \<in> set (asleep a)" using earliest_in [OF Suc.prems(3)] Suc.prems(4) by auto
  then have ne: "filter (\<lambda>(t, n). n = Suc (Suc m)) (asleep a) \<noteq> []" by (auto simp: filter_empty_conv)
  have h: "fst (hd (filter (\<lambda>(t, n). n = Suc m) (asleep (a_tick a)))) = fst (hd (filter (\<lambda>(t, n). n = Suc (Suc m)) (asleep a)))"
    using e(4) Suc.prems(4) a(2) ne by (simp add: hd_map case_prod_unfold)
  have ih: "(\<forall>j\<le>m. \<exists>s2. idle_rounds j s' = Some s2 \<and> curr_task s2 = idle_task s2) \<and>
    (\<exists>s2. idle_rounds (Suc m) s' = Some s2 \<and> sys_tick s2 = sys_tick s' + of_nat (Suc m) \<and>
      curr_task s2 = fst (hd (filter (\<lambda>(t, n). n = Suc m) (asleep (a_tick a)))))"
    by (rule Suc.IH [OF s'(2) a(1) _ em]) (use a(2) Suc.prems(3) in simp)
  have r: "idle_rounds (Suc j) s = idle_rounds j s'" for j using idle_round(1) [OF Suc.prems(1,2)] s'(1) by simp
  have "\<exists>s2. idle_rounds j s = Some s2 \<and> curr_task s2 = idle_task s2" if "j \<le> Suc m" for j
    using that ih r idle_round(1) [OF Suc.prems(1,2)] by (cases j) auto
  moreover have "idle_rounds (Suc (Suc m)) s = idle_rounds (Suc m) s'" by (rule r)
  ultimately show ?case using ih h s'(3) by (auto simp: add.assoc simp del: idle_rounds.simps)
qed

section \<open>Properties\<close>

text \<open>The ticks the task due first has left.\<close>

definition shortest_sleep :: "kernel \<Rightarrow> nat" where
  "shortest_sleep s = Min ((\<lambda>t. unat (sleep_ticks (tasks s t))) ` set (tasks_on LSleep s))"

lemma sim_sleepers:
  assumes "sim SS MM a s"
  shows "map (\<lambda>t. (t, unat (sleep_ticks (tasks s t)))) (tasks_on LSleep s) = asleep a" "shortest_sleep s = earliest (asleep a)"
    "filter (\<lambda>t. unat (sleep_ticks (tasks s t)) = m) (tasks_on LSleep s) = map fst (filter (\<lambda>(t, n). n = m) (asleep a))"
proof -
  have u: "unat (sleep_ticks (tasks s t)) = n" if "(t, n) \<in> set (asleep a)" for t n
  proof -
    have "sleep_ticks (tasks s t) = of_nat n" "n < 2 ^ 31" using simD(2) [OF assms] that unfolding data_rel_def by blast+
    then show ?thesis by (simp add: unat_of_nat)
  qed
  have l: "tasks_on LSleep s = map fst (asleep a)" using sim_tasks_on(2) [OF assms] .
  show "map (\<lambda>t. (t, unat (sleep_ticks (tasks s t)))) (tasks_on LSleep s) = asleep a"
    unfolding l map_map by (rule map_idI) (auto simp: u)
  have "(\<lambda>t. unat (sleep_ticks (tasks s t))) ` set (tasks_on LSleep s) = snd ` set (asleep a)"
    unfolding l using u by (force simp: image_iff)
  then show "shortest_sleep s = earliest (asleep a)" by (simp add: shortest_sleep_def earliest_def)
  show "filter (\<lambda>t. unat (sleep_ticks (tasks s t)) = m) (tasks_on LSleep s) = map fst (filter (\<lambda>(t, n). n = m) (asleep a))"
    unfolding l filter_map by (intro arg_cong [where f = "map fst"] filter_cong) (auto simp: u)
qed

text \<open>C25. The idle task. When no task can run but some sleep, the loop of \<^verbatim>\<open>idle_task_entry\<close> halts exactly as many times
  as the sleeper due first has ticks left; until then it keeps the processor, and then the clock interrupt that ends
  the last halt dispatches that sleeper (of several due at once, the one that went to sleep first).\<close>

theorem idle_until_wake:
  assumes "sim SS MM a s" and "curr_task s = idle_task s" and "tasks_on LSleep s \<noteq> []"
  shows "(\<forall>j < shortest_sleep s. \<exists>s'. idle_rounds j s = Some s' \<and> curr_task s' = idle_task s') \<and>
    (\<exists>s'. idle_rounds (shortest_sleep s) s = Some s' \<and> sys_tick s' = sys_tick s + of_nat (shortest_sleep s) \<and>
      curr_task s' = hd (filter (\<lambda>t. unat (sleep_ticks (tasks s t)) = shortest_sleep s) (tasks_on LSleep s)))"
proof -
  have a: "aready a = []" "asleep a \<noteq> []" using simD(4) [OF assms(1)] assms(2,3) sim_tasks_on(2) [OF assms(1)] by auto
  obtain t where t: "(t, earliest (asleep a)) \<in> set (asleep a)" using earliest_in [OF a(2)] by blast
  have "sleep_wf a" using assms(1) by (simp add: sim_def awf_def)
  then have "0 < earliest (asleep a)" using t by (auto simp: sleep_wf_def)
  then obtain m where m: "earliest (asleep a) = Suc m" by (cases "earliest (asleep a)") auto
  have "filter (\<lambda>(t, n). n = Suc m) (asleep a) \<noteq> []" using t m by (auto simp: filter_empty_conv)
  then show ?thesis
    using idle_run [OF assms(1) a m] unfolding sim_sleepers(2,3) [OF assms(1)] m by (simp add: hd_map less_Suc_eq_le)
qed

theorem idle_until_wake_witness:
  "\<exists>s'. idle_rounds 51 (sys_sleep 500 (sys_sleep 1000 sample_running)) = Some s' \<and> curr_task s' = 0x11000"
proof -
  let ?s = "sys_sleep 500 (sys_sleep 1000 sample_running)"
  let ?a = "a_sleep 51 (a_sleep 101 (boot_spec sample_kernel))"
  have "sim {0x14200} {0x14000, 0x14100} (a_sleep 101 (boot_spec sample_kernel)) (sys_sleep 1000 sample_running)"
    using sim_sleep [OF sample_boots(2), of 1000] by (simp add: sample_spec spec_ticks_def)
  from sim_sleep [OF this, of 500] have s: "sim {0x14200} {0x14000, 0x14100} ?a ?s"
    by (simp add: a_sleep_def sample_spec spec_ticks_def)
  have a: "aready ?a = []" "asleep ?a = [(0x10028, 101), (0x11000, 51)]" by (simp_all add: a_sleep_def sample_spec)
  have e: "shortest_sleep ?s = 51" "tasks_on LSleep ?s \<noteq> []"
    "filter (\<lambda>t. unat (sleep_ticks (tasks ?s t)) = 51) (tasks_on LSleep ?s) = [0x11000]"
    using sim_sleepers(2,3) [OF s] sim_tasks_on(2) [OF s] by (simp_all add: a(2) earliest_def)
  have "curr_task ?s = idle_task ?s" using simD(4) [OF s] a(1) by simp
  from idle_until_wake [OF s this e(2)] show ?thesis unfolding e(1,3) by auto
qed

end
