(* ===== verification/Frame.thy ===== *)
theory Frame
  imports Kernel_Runs
begin

text \<open>
  What kernel calls and the clock interrupt leave alone: the byte memory, the symbol table, the ports (apart from the
  end-of-interrupt command of the clock), and the descriptor tables. No call of a task and no interrupt writes
  \<^verbatim>\<open>gdt_table\<close> or \<^verbatim>\<open>idt_table\<close>, apart from the busy bits the processor sets and clears in a task switch; only the start
  of the system and task creation do.
\<close>

text \<open>The tables, read with every busy bit cleared.\<close>

definition tables :: "kernel \<Rightarrow> segment_desc_t list \<times> gate_desc_t list \<times> (uint32_t \<times> uint16_t) \<times> (uint32_t \<times> uint16_t)" where
  "tables k = (map (set_busy False) (gdt_table k), idt_table k, gdtr k, idtr k)"

definition outside :: "kernel \<Rightarrow> (memory \<times> (string \<Rightarrow> addr) \<times> io_event list) \<times>
    segment_desc_t list \<times> gate_desc_t list \<times> (uint32_t \<times> uint16_t) \<times> (uint32_t \<times> uint16_t)" where
  "outside k = ((mem k, symaddr k, io k), tables k)"

lemma outside_fields:
  "outside k' = outside k \<longleftrightarrow> mem k' = mem k \<and> symaddr k' = symaddr k \<and> io k' = io k \<and> tables k' = tables k"
  by (simp add: outside_def)

lemma tables_fields:
  "tables k' = tables k \<longleftrightarrow> map (set_busy False) (gdt_table k') = map (set_busy False) (gdt_table k) \<and> idt_table k' = idt_table k \<and> gdtr k' = gdtr k \<and> idtr k' = idtr k"
  by (simp add: tables_def)

lemma outside_basic [simp]:
  "outside (enter_protected k) = outside k" "outside (leave_protected k) = outside k"
  "outside (upd_task t f k) = outside k" "outside (upd_sem p g k) = outside k" "outside (upd_mutex p h k) = outside k"
  "outside (task_set_ready t k) = outside k" "outside (task_set_block t k) = outside k"
  "outside (task_set_wakeup t k) = outside k" "outside (task_set_sleep t n k) = outside k"
  by (simp_all add: outside_def tables_def protection_defs upd_task_def upd_sem_def upd_mutex_def task_set_ready_def
      task_set_block_def task_set_wakeup_def task_set_sleep_def Let_def split: list.split prod.split)

lemma outside_switch [simp]: "outside (task_switch_from_to t u k) = outside k"
  by (simp add: outside_def tables_def task_switch_from_to_def switch_to_tss_def far_jump_def hw_task_switch_def Let_def)

lemma outside_updates [simp]:
  "outside (k\<lparr>curr_task := c\<rparr>) = outside k" "outside (k\<lparr>nodes := h\<rparr>) = outside k"
  by (simp_all add: outside_def tables_def)

lemma outside_dispatch [simp]: "outside (task_dispatch k) = outside k"
  by (simp add: task_dispatch_def Let_def)

lemma outside_calls [simp]:
  "outside (sem_wait p k) = outside k" "outside (sem_notify p k) = outside k" "outside (sys_sleep n k) = outside k"
  "outside (rein_mutex_lock p k) = outside k" "outside (sys_sched_yield k) = outside k"
  by (simp_all add: sem_wait_def sem_notify_def sys_sleep_def rein_mutex_lock_def sys_sched_yield_def Let_def split: prod.split)

text \<open>The same facts field by field.\<close>

lemmas call_frame = outside_calls [unfolded outside_fields]

lemma outside_unlock: "rein_mutex_unlock p k = Inr k' \<Longrightarrow> outside k' = outside k"
  by (auto simp: rein_mutex_unlock_def mutex_handoff_def Let_def split: prod.splits if_splits)

lemma outside_sleep_walk:
  assumes "sleep_walk n k = Some k'"
  shows "outside k' = outside k"
proof (rule sleep_walk.raw_induct [where P = "\<lambda>n k k'. outside k' = outside k", OF _ assms])
  fix f :: "addr \<Rightarrow> kernel \<Rightarrow> kernel option" and n k k'
  assume ih: "\<And>n k k'. f n k = Some k' \<Longrightarrow> outside k' = outside k"
    and step: "(if n = 0 then Some k else f (nxt (nodes k n)) (sleep_tick (CONTAINER_OF n OFFSET_run_node) k)) = Some k'"
  have "outside (sleep_tick t k) = outside k" for t by (simp add: sleep_tick_def Let_def)
  then show "outside k' = outside k" using step ih by (auto split: if_splits)
qed

lemma outside_timer:
  assumes "timer_interrupt k = Some k'"
  shows "mem k' = mem k" "symaddr k' = symaddr k" "\<exists>v. io k' = io k @ [Out 0x20 v]" "tables k' = tables k"
proof -
  have eoi: "pic_send_eoi IRQ0_TIMER s = s\<lparr>io := io s @ [Out 0x20 PIC_OCW2_EOI]\<rparr>" for s
    by (simp add: pic_send_eoi_def outb_def PIC0_OCW2_def IRQ0_TIMER_def IRQ_PIC_START_def Let_def)
  have sl: "outside (slice_tick s) = outside s" for s by (simp add: slice_tick_def Let_def)
  have "outside k' = ((mem k, symaddr k, io k @ [Out 0x20 PIC_OCW2_EOI]), tables k)"
    using assms outside_sleep_walk
    by (auto simp: timer_interrupt_def do_handler_timer_def task_time_tick_def eoi Let_def sl)
      (auto simp: outside_def tables_def enter_protected_simp)
  then show "mem k' = mem k" "symaddr k' = symaddr k" "\<exists>v. io k' = io k @ [Out 0x20 v]" "tables k' = tables k"
    by (auto simp: outside_def)
qed

lemma kstep_frame:
  assumes "kstep SS MM k op k'"
  shows "mem k' = mem k \<and> symaddr k' = symaddr k \<and> tables k' = tables k"
proof -
  have e: "kexec op k = Some k'" using assms by (rule kstepE)
  show ?thesis
  proof (cases "op = Tick")
    case True
    then show ?thesis using e outside_timer [of k k'] by (simp add: kexec_def)
  next
    case False
    then have "outside k' = outside k" using e outside_unlock by (cases op) (auto simp: kexec_def split: sum.splits)
    then show ?thesis by (simp add: outside_fields)
  qed
qed

text \<open>The frame is an invariant of the running system.\<close>

interpretation frame: transition_invariant "kstep SS MM" "\<lambda>k. mem k = m \<and> symaddr k = sy \<and> tables k = tb" for SS MM m sy tb
  by unfold_locales (use kstep_frame in auto)

lemma run_frame: "run (kstep SS MM) k ops k' \<Longrightarrow> mem k' = mem k \<and> symaddr k' = symaddr k \<and> tables k' = tables k"
  by (rule frame.inv_run) simp_all

end
