(* ===== verification/Exceptions.thy ===== *)
theory Exceptions
  imports Log
begin

text \<open>
  The exception handlers of \<^verbatim>\<open>src/source/kernel/cpu/irq.c\<close> and \<^verbatim>\<open>panic\<close> of
  \<^verbatim>\<open>src/source/kernel/tools/klib.c\<close>: they report on the serial log, then halt the processor. A handler
  runs behind an interrupt gate, with interrupts off, so the loop around \<^verbatim>\<open>hlt\<close> is never left. The frame is an
  argument (that the assembly stubs pass it is shown in a later theory); the addresses of string literals come from the symbol table, and
  \<open>str_buf\<close> is the address of the local buffer of \<^verbatim>\<open>log_printfln\<close>.
\<close>

section \<open>Operations\<close>

record exception_frame_t =
  f_gs :: cint
  f_fs :: cint
  f_es :: cint
  f_ds :: cint
  f_edi :: cint
  f_esi :: cint
  f_ebp :: cint
  f_esp :: cint
  f_ebx :: cint
  f_edx :: cint
  f_ecx :: cint
  f_eax :: cint
  f_num :: cint
  f_error_code :: cint
  f_eip :: cint
  f_cs :: cint
  f_eflags :: cint

definition halt_loop :: "kernel \<Rightarrow> unit outcome" where
  "halt_loop s = Halted s"

definition dump_core_regs :: "addr \<Rightarrow> exception_frame_t \<Rightarrow> kernel \<Rightarrow> unit outcome" where
  "dump_core_regs str_buf frame s0 =
    and_then (log_printfln str_buf (symaddr s0 ''str_irq'') [f_num frame, f_error_code frame] s0) (\<lambda>_ s1.
    and_then (log_printfln str_buf (symaddr s1 ''str_segments'')
      [f_cs frame, f_ds frame, f_es frame, f_ds frame, f_fs frame, f_gs frame] s1) (\<lambda>_ s2.
    and_then (log_printfln str_buf (symaddr s2 ''str_registers'')
      [f_eax frame, f_ebx frame, f_ecx frame, f_edx frame, f_edi frame, f_esi frame, f_ebp frame, f_esp frame] s2) (\<lambda>_ s3.
    log_printfln str_buf (symaddr s3 ''str_eip'') [f_eip frame, f_eflags frame] s3)))"

definition do_default_handler :: "addr \<Rightarrow> exception_frame_t \<Rightarrow> addr \<Rightarrow> kernel \<Rightarrow> unit outcome" where
  "do_default_handler str_buf frame msg s0 =
    and_then (log_println (symaddr s0 ''str_line'') s0) (\<lambda>_ s1.
    and_then (log_printfln str_buf (symaddr s1 ''str_happened'') [msg] s1) (\<lambda>_ s2.
    and_then (dump_core_regs str_buf frame s2) (\<lambda>_ s3.
    and_then (log_println (symaddr s3 ''str_line'') s3) (\<lambda>_ s4.
    halt_loop s4))))"

definition do_handler_unknown :: "addr \<Rightarrow> exception_frame_t \<Rightarrow> kernel \<Rightarrow> unit outcome" where
  "do_handler_unknown str_buf frame s = do_default_handler str_buf frame (symaddr s ''str_unknown'') s"

definition do_handler_divider :: "addr \<Rightarrow> exception_frame_t \<Rightarrow> kernel \<Rightarrow> unit outcome" where
  "do_handler_divider str_buf frame s = do_default_handler str_buf frame (symaddr s ''str_divider'') s"

definition do_handler_Debug :: "addr \<Rightarrow> exception_frame_t \<Rightarrow> kernel \<Rightarrow> unit outcome" where
  "do_handler_Debug str_buf frame s = do_default_handler str_buf frame (symaddr s ''str_Debug'') s"

definition do_handler_NMI :: "addr \<Rightarrow> exception_frame_t \<Rightarrow> kernel \<Rightarrow> unit outcome" where
  "do_handler_NMI str_buf frame s = do_default_handler str_buf frame (symaddr s ''str_NMI'') s"

definition do_handler_breakpoint :: "addr \<Rightarrow> exception_frame_t \<Rightarrow> kernel \<Rightarrow> unit outcome" where
  "do_handler_breakpoint str_buf frame s = do_default_handler str_buf frame (symaddr s ''str_breakpoint'') s"

definition do_handler_overflow :: "addr \<Rightarrow> exception_frame_t \<Rightarrow> kernel \<Rightarrow> unit outcome" where
  "do_handler_overflow str_buf frame s = do_default_handler str_buf frame (symaddr s ''str_overflow'') s"

definition do_handler_bound_range :: "addr \<Rightarrow> exception_frame_t \<Rightarrow> kernel \<Rightarrow> unit outcome" where
  "do_handler_bound_range str_buf frame s = do_default_handler str_buf frame (symaddr s ''str_bound_range'') s"

definition do_handler_invalid_opcode :: "addr \<Rightarrow> exception_frame_t \<Rightarrow> kernel \<Rightarrow> unit outcome" where
  "do_handler_invalid_opcode str_buf frame s = do_default_handler str_buf frame (symaddr s ''str_invalid_opcode'') s"

definition do_handler_device_unavailable :: "addr \<Rightarrow> exception_frame_t \<Rightarrow> kernel \<Rightarrow> unit outcome" where
  "do_handler_device_unavailable str_buf frame s = do_default_handler str_buf frame (symaddr s ''str_device_unavailable'') s"

definition do_handler_double_fault :: "addr \<Rightarrow> exception_frame_t \<Rightarrow> kernel \<Rightarrow> unit outcome" where
  "do_handler_double_fault str_buf frame s = do_default_handler str_buf frame (symaddr s ''str_double_fault'') s"

definition do_handler_coprocessor_segment_overrun :: "addr \<Rightarrow> exception_frame_t \<Rightarrow> kernel \<Rightarrow> unit outcome" where
  "do_handler_coprocessor_segment_overrun str_buf frame s = do_default_handler str_buf frame (symaddr s ''str_coprocessor_segment_overrun'') s"

definition do_handler_invalid_tss :: "addr \<Rightarrow> exception_frame_t \<Rightarrow> kernel \<Rightarrow> unit outcome" where
  "do_handler_invalid_tss str_buf frame s = do_default_handler str_buf frame (symaddr s ''str_invalid_tss'') s"

definition do_handler_segment_not_present :: "addr \<Rightarrow> exception_frame_t \<Rightarrow> kernel \<Rightarrow> unit outcome" where
  "do_handler_segment_not_present str_buf frame s = do_default_handler str_buf frame (symaddr s ''str_segment_not_present'') s"

definition do_handler_stack_segment_fault :: "addr \<Rightarrow> exception_frame_t \<Rightarrow> kernel \<Rightarrow> unit outcome" where
  "do_handler_stack_segment_fault str_buf frame s = do_default_handler str_buf frame (symaddr s ''str_stack_segment_fault'') s"

definition do_handler_general_protection :: "addr \<Rightarrow> exception_frame_t \<Rightarrow> kernel \<Rightarrow> unit outcome" where
  "do_handler_general_protection str_buf frame s = do_default_handler str_buf frame (symaddr s ''str_general_protection'') s"

definition do_handler_page_fault :: "addr \<Rightarrow> exception_frame_t \<Rightarrow> kernel \<Rightarrow> unit outcome" where
  "do_handler_page_fault str_buf frame s = do_default_handler str_buf frame (symaddr s ''str_page_fault'') s"

definition do_handler_fpu_error :: "addr \<Rightarrow> exception_frame_t \<Rightarrow> kernel \<Rightarrow> unit outcome" where
  "do_handler_fpu_error str_buf frame s = do_default_handler str_buf frame (symaddr s ''str_fpu_error'') s"

definition do_handler_alignment_check :: "addr \<Rightarrow> exception_frame_t \<Rightarrow> kernel \<Rightarrow> unit outcome" where
  "do_handler_alignment_check str_buf frame s = do_default_handler str_buf frame (symaddr s ''str_alignment_check'') s"

definition do_handler_machine_check :: "addr \<Rightarrow> exception_frame_t \<Rightarrow> kernel \<Rightarrow> unit outcome" where
  "do_handler_machine_check str_buf frame s = do_default_handler str_buf frame (symaddr s ''str_machine_check'') s"

definition do_handler_smd_exception :: "addr \<Rightarrow> exception_frame_t \<Rightarrow> kernel \<Rightarrow> unit outcome" where
  "do_handler_smd_exception str_buf frame s = do_default_handler str_buf frame (symaddr s ''str_smd_exception'') s"

definition do_handler_virtual_exception :: "addr \<Rightarrow> exception_frame_t \<Rightarrow> kernel \<Rightarrow> unit outcome" where
  "do_handler_virtual_exception str_buf frame s = do_default_handler str_buf frame (symaddr s ''str_virtual_exception'') s"

definition do_handler_control_protection_exception :: "addr \<Rightarrow> exception_frame_t \<Rightarrow> kernel \<Rightarrow> unit outcome" where
  "do_handler_control_protection_exception str_buf frame s = do_default_handler str_buf frame (symaddr s ''str_control_protection_exception'') s"

definition panic :: "addr \<Rightarrow> addr \<Rightarrow> cint \<Rightarrow> addr \<Rightarrow> addr \<Rightarrow> kernel \<Rightarrow> unit outcome" where
  "panic str_buf file line func cond s0 =
    and_then (log_printfln str_buf (symaddr s0 ''str_assert'') [cond] s0) (\<lambda>_ s1.
    and_then (log_printfln str_buf (symaddr s1 ''str_file'') [file] s1) (\<lambda>_ s2.
    and_then (log_printfln str_buf (symaddr s2 ''str_lineno'') [line] s2) (\<lambda>_ s3.
    and_then (log_printfln str_buf (symaddr s3 ''str_func'') [func] s3) (\<lambda>_ s4.
    halt_loop s4))))"

section \<open>The literals of the code\<close>

definition crlf :: string where "crlf = [CHR 0x0D, CHR 0x0A]"

definition report_literals :: "(string \<times> string) list" where
  "report_literals =
    [(''str_line'', ''-------------''),
     (''str_happened'', ''IRQ/EXCEPTION happened: %s''),
     (''str_irq'', ''IRQ: %d, error code: %d''),
     (''str_segments'', ''CS: %d'' @ crlf @ ''DS: %d'' @ crlf @ ''ES: %d'' @ crlf @ ''SS: %d'' @ crlf @
        ''FS: %d'' @ crlf @ ''GS: %d'' @ [CHR 0x0D]),
     (''str_registers'', ''EAX: 0x%x'' @ crlf @ ''EBX: 0x%x'' @ crlf @ ''ECX: 0x%x'' @ crlf @ ''EDX: 0x%x'' @ crlf @
        ''EDI: 0x%x'' @ crlf @ ''ESI: 0x%x'' @ crlf @ ''EBP: 0x%x'' @ crlf @ ''ESP: 0x%x'' @ [CHR 0x0D]),
     (''str_eip'', ''EIP: 0x%x'' @ crlf @ ''EFLAGS: 0x%x''),
     (''str_assert'', ''assert failed: %s''), (''str_file'', ''file:%s''), (''str_lineno'', ''line:%d''),
     (''str_func'', ''func:%s''), (''str_itoa_negative'', ''kernel_itoa: base16 when num < 0'')]"

text \<open>A string that the local buffer does not overlap.\<close>

definition string_at :: "addr \<Rightarrow> addr \<Rightarrow> uint8_t list \<Rightarrow> kernel \<Rightarrow> bool" where
  "string_at buf a bs s \<longleftrightarrow> cstr (mem s) a bs \<and> region a (Suc (length bs)) \<inter> region buf 128 = {}"

definition reporting :: "addr \<Rightarrow> kernel \<Rightarrow> bool" where
  "reporting buf s \<longleftrightarrow> mutex_open (log_mutex s) s \<and> unat buf + 160 \<le> 2 ^ 32 \<and>
     (\<forall>(name, lit)\<in>set report_literals. string_at buf (symaddr s name) (map chr lit) s)"

section \<open>The report\<close>

definition dec :: "cint \<Rightarrow> uint8_t list" where "dec v = itoa_text 10 (sint v)"
definition hex :: "cint \<Rightarrow> uint8_t list" where "hex v = itoa_text 16 (sint v)"

fun items :: "string \<Rightarrow> (string \<times> uint8_t list) list \<Rightarrow> uint8_t list" where
  "items sep [] = []"
| "items sep [(l, v)] = map chr l @ v"
| "items sep ((l, v) # it # its) = map chr l @ v @ map chr sep @ items sep (it # its)"

definition segment_items :: "exception_frame_t \<Rightarrow> (string \<times> uint8_t list) list" where
  "segment_items f = [(''CS: '', dec (f_cs f)), (''DS: '', dec (f_ds f)), (''ES: '', dec (f_es f)),
    (''SS: '', dec (f_ds f)), (''FS: '', dec (f_fs f)), (''GS: '', dec (f_gs f))]"

definition register_items :: "exception_frame_t \<Rightarrow> (string \<times> uint8_t list) list" where
  "register_items f = [(''EAX: 0x'', hex (f_eax f)), (''EBX: 0x'', hex (f_ebx f)), (''ECX: 0x'', hex (f_ecx f)),
    (''EDX: 0x'', hex (f_edx f)), (''EDI: 0x'', hex (f_edi f)), (''ESI: 0x'', hex (f_esi f)),
    (''EBP: 0x'', hex (f_ebp f)), (''ESP: 0x'', hex (f_esp f))]"

definition core_report :: "exception_frame_t \<Rightarrow> uint8_t list list" where
  "core_report f =
    [items [] [(''IRQ: '', dec (f_num f)), ('', error code: '', dec (f_error_code f))],
     items crlf (segment_items f) @ [chr (CHR 0x0D)],
     items crlf (register_items f) @ [chr (CHR 0x0D)],
     items crlf [(''EIP: 0x'', hex (f_eip f)), (''EFLAGS: 0x'', hex (f_eflags f))]]"

definition exception_report :: "uint8_t list \<Rightarrow> exception_frame_t \<Rightarrow> uint8_t list list" where
  "exception_report msg f =
    [map chr ''-------------'', map chr ''IRQ/EXCEPTION happened: '' @ msg] @ core_report f @ [map chr ''-------------'']"

text \<open>The registers printed in hexadecimal, the last two on a line of their own.\<close>

definition general_regs :: "exception_frame_t \<Rightarrow> cint list" where
  "general_regs f = [f_eax f, f_ebx f, f_ecx f, f_edx f, f_edi f, f_esi f, f_ebp f, f_esp f]"

definition flow_regs :: "exception_frame_t \<Rightarrow> cint list" where
  "flow_regs f = [f_eip f, f_eflags f]"

definition hex_regs :: "exception_frame_t \<Rightarrow> cint list" where
  "hex_regs f = general_regs f @ flow_regs f"

definition signed_ok :: "cint list \<Rightarrow> bool" where
  "signed_ok rs \<longleftrightarrow> (\<forall>r\<in>set rs. 0 \<le> sint r)"

lemma signed_ok_simps [simp]:
  "signed_ok []" "signed_ok (r # rs) \<longleftrightarrow> 0 \<le> sint r \<and> signed_ok rs" "signed_ok (rs @ rs') \<longleftrightarrow> signed_ok rs \<and> signed_ok rs'"
  by (auto simp: signed_ok_def)

text \<open>What is printed when one of them is negative as \<^verbatim>\<open>int\<close>: the lines before the one it is on, then the message
  of \<^verbatim>\<open>kernel_itoa\<close>.\<close>

definition stopped_report :: "uint8_t list \<Rightarrow> exception_frame_t \<Rightarrow> uint8_t list list" where
  "stopped_report msg f =
    [map chr ''-------------'', map chr ''IRQ/EXCEPTION happened: '' @ msg] @
    take (if signed_ok (general_regs f) then 3 else 2) (core_report f) @ [map chr ''kernel_itoa: base16 when num < 0'']"

definition handler_table :: "(string \<times> (addr \<Rightarrow> exception_frame_t \<Rightarrow> kernel \<Rightarrow> unit outcome) \<times> string \<times> string) list" where
  "handler_table =
    [(''exception_handler_unknown'', do_handler_unknown, ''str_unknown'', ''unknown exception''),
     (''exception_handler_divider'', do_handler_divider, ''str_divider'', ''divider exception''),
     (''exception_handler_Debug'', do_handler_Debug, ''str_Debug'', ''Debug exception''),
     (''exception_handler_NMI'', do_handler_NMI, ''str_NMI'', ''NMI exception''),
     (''exception_handler_breakpoint'', do_handler_breakpoint, ''str_breakpoint'', ''breakpoint exception''),
     (''exception_handler_overflow'', do_handler_overflow, ''str_overflow'', ''overflow exception''),
     (''exception_handler_bound_range'', do_handler_bound_range, ''str_bound_range'', ''bound_range exception''),
     (''exception_handler_invalid_opcode'', do_handler_invalid_opcode, ''str_invalid_opcode'', ''invalid_opcode exception''),
     (''exception_handler_device_unavailable'', do_handler_device_unavailable, ''str_device_unavailable'', ''device_unavailable exception''),
     (''exception_handler_double_fault'', do_handler_double_fault, ''str_double_fault'', ''double_fault exception''),
     (''exception_handler_coprocessor_segment_overrun'', do_handler_coprocessor_segment_overrun, ''str_coprocessor_segment_overrun'', ''coprocessor_segment_overrun exception''),
     (''exception_handler_invalid_tss'', do_handler_invalid_tss, ''str_invalid_tss'', ''invalid_tss exception''),
     (''exception_handler_segment_not_present'', do_handler_segment_not_present, ''str_segment_not_present'', ''segment_not_present exception''),
     (''exception_handler_stack_segment_fault'', do_handler_stack_segment_fault, ''str_stack_segment_fault'', ''stack_segment_fault exception''),
     (''exception_handler_general_protection'', do_handler_general_protection, ''str_general_protection'', ''general_protection exception''),
     (''exception_handler_page_fault'', do_handler_page_fault, ''str_page_fault'', ''page_fault exception''),
     (''exception_handler_fpu_error'', do_handler_fpu_error, ''str_fpu_error'', ''fpu_fault exception''),
     (''exception_handler_alignment_check'', do_handler_alignment_check, ''str_alignment_check'', ''alignment_check exception''),
     (''exception_handler_machine_check'', do_handler_machine_check, ''str_machine_check'', ''machine_check exception''),
     (''exception_handler_smd_exception'', do_handler_smd_exception, ''str_smd_exception'', ''smd_exception exception''),
     (''exception_handler_virtual_exception'', do_handler_virtual_exception, ''str_virtual_exception'', ''virtual_exception exception''),
     (''exception_handler_control_protection_exception'', do_handler_control_protection_exception, ''str_control_protection_exception'', ''control_protection_exception exception'')]"

section \<open>Printing one line of a report\<close>

lemma string_at_kept: "string_at buf a bs s \<Longrightarrow> logged buf ls s s' \<Longrightarrow> string_at buf a bs s'"
  using cstr_cong [of a bs "mem s'" "mem s"] by (auto simp: string_at_def logged_def simp del: region.simps)

lemma reporting_kept: "reporting buf s \<Longrightarrow> logged buf ls s s' \<Longrightarrow> reporting buf s'"
  using string_at_kept [of buf _ _ s ls s'] by (fastforce simp: reporting_def logged_def simp del: region.simps)

lemma itoa_text_nonzero: "itoa_base_ok b n \<Longrightarrow> 0 \<notin> set (itoa_text b n)"
proof -
  assume b: "itoa_base_ok b n"
  have "num2ch d \<noteq> 0" if "d \<in> set (digits (nat b) (nat \<bar>n\<bar>))" for d
    using digits_bound [OF _ that] b num2ch_digit [of d] by (auto simp: itoa_base_ok_def)
  then show ?thesis by (auto simp: itoa_text_def chr_def)
qed

lemma dec_nonzero: "0 \<notin> set (dec v)"
  by (simp add: dec_def itoa_text_nonzero itoa_base_ok_def)

lemma hex_nonzero: "0 \<le> sint v \<Longrightarrow> 0 \<notin> set (hex v)"
  by (simp add: hex_def itoa_text_nonzero itoa_base_ok_def)

lemma print_logged:
  assumes r: "reporting buf s" and lit: "(name, lit) \<in> set report_literals"
    and out: "fmt_out str (map chr lit) args = Some out" "0 \<notin> set out" "length out \<le> 127"
    and args: "\<forall>a\<in>set (str_args (map chr lit) args). string_at buf a (str a) s"
  shows "\<exists>s'. log_printfln buf (symaddr s name) args s = Done () s' \<and> logged buf [out] s s'"
proof (rule log_printfln_logged [OF _ out(1,2) _ out(3)])
  have sub: "region buf (Suc (length out)) \<subseteq> region buf 128"
    using region_append [of buf "Suc (length out)" "127 - length out"] out(3) by (auto simp del: region.simps)
  have l: "string_at buf (symaddr s name) (map chr lit) s" using r lit by (auto simp: reporting_def)
  have sep: "cstr (mem s) a bs \<and> region a (Suc (length bs)) \<inter> region buf (Suc (length out)) = {}" if "string_at buf a bs s" for a bs
    using that sub by (auto simp: string_at_def simp del: region.simps)
  have "unat buf + length out + 33 \<le> 2 ^ 32" using r out(3) by (simp add: reporting_def)
  then show "fmt_ready str (mem s) (symaddr s name) (map chr lit) args buf (length out)"
    unfolding fmt_ready_def using sep [OF l] args sep by blast
qed (use r in \<open>simp add: reporting_def\<close>)

lemma println_logged:
  assumes "reporting buf s" and "(name, lit) \<in> set report_literals"
  shows "\<exists>s'. log_println (symaddr s name) s = Done () s' \<and> logged buf [map chr lit] s s'"
  using assms by (intro log_println_logged) (auto simp: reporting_def string_at_def)

text \<open>Parts of a report in sequence.\<close>

definition reports :: "addr \<Rightarrow> uint8_t list list \<Rightarrow> kernel \<Rightarrow> unit outcome \<Rightarrow> bool" where
  "reports buf ls s c \<longleftrightarrow> (\<exists>s'. c = Done () s' \<and> logged buf ls s s')"

definition halts :: "addr \<Rightarrow> uint8_t list list \<Rightarrow> kernel \<Rightarrow> unit outcome \<Rightarrow> bool" where
  "halts buf ls s c \<longleftrightarrow> (\<exists>s'. c = Halted s' \<and> logged buf ls s s')"

lemma reports_then:
  assumes "reports buf ls s c" and "\<And>s1. logged buf ls s s1 \<Longrightarrow> reports buf ls' s1 (f () s1)"
  shows "reports buf (ls @ ls') s (and_then c f)"
  using assms logged_trans by (fastforce simp: reports_def)

lemma halts_then:
  assumes "reports buf ls s c" and "\<And>s1. logged buf ls s s1 \<Longrightarrow> halts buf ls' s1 (f () s1)"
  shows "halts buf (ls @ ls') s (and_then c f)"
  using assms logged_trans by (fastforce simp: reports_def halts_def)

lemma halts_loop: "mutex_open (log_mutex s) s \<Longrightarrow> halts buf [] s (halt_loop s)"
  by (simp add: halts_def halt_loop_def logged_nil)

lemma fmt_out_plain: "c \<noteq> chr (CHR ''%'') \<Longrightarrow> fmt_out str (c # fs) args = map_option ((@) [c]) (fmt_out str fs args)"
  by (cases fs) simp_all

lemma core_formats_dec:
  "fmt_out str (map chr ''IRQ: %d, error code: %d'') [f_num f, f_error_code f] = Some (core_report f ! 0)"
  "fmt_out str (map chr (''CS: %d'' @ crlf @ ''DS: %d'' @ crlf @ ''ES: %d'' @ crlf @ ''SS: %d'' @ crlf @
      ''FS: %d'' @ crlf @ ''GS: %d'' @ [CHR 0x0D])) [f_cs f, f_ds f, f_es f, f_ds f, f_fs f, f_gs f] = Some (core_report f ! 1)"
  by (simp_all add: core_report_def segment_items_def dec_def chr_def crlf_def)

lemma core_formats_hex:
  "signed_ok (general_regs f) \<Longrightarrow> fmt_out str (map chr (''EAX: 0x%x'' @ crlf @ ''EBX: 0x%x'' @ crlf @ ''ECX: 0x%x'' @ crlf @ ''EDX: 0x%x'' @ crlf @
        ''EDI: 0x%x'' @ crlf @ ''ESI: 0x%x'' @ crlf @ ''EBP: 0x%x'' @ crlf @ ''ESP: 0x%x'' @ [CHR 0x0D]))
      [f_eax f, f_ebx f, f_ecx f, f_edx f, f_edi f, f_esi f, f_ebp f, f_esp f] = Some (core_report f ! 2)"
  "signed_ok (flow_regs f) \<Longrightarrow>
    fmt_out str (map chr (''EIP: 0x%x'' @ crlf @ ''EFLAGS: 0x%x'')) [f_eip f, f_eflags f] = Some (core_report f ! 3)"
  by (simp_all add: general_regs_def flow_regs_def core_report_def register_items_def hex_def chr_def crlf_def)

lemma core_nonzero_dec: "0 \<notin> set (core_report f ! 0)" "0 \<notin> set (core_report f ! 1)"
  by (simp_all add: core_report_def segment_items_def dec_nonzero chr_def crlf_def)

lemma core_nonzero:
  "signed_ok (general_regs f) \<Longrightarrow> 0 \<notin> set (core_report f ! 2)"
  "signed_ok (flow_regs f) \<Longrightarrow> 0 \<notin> set (core_report f ! 3)"
  by (simp_all add: general_regs_def flow_regs_def core_report_def register_items_def hex_nonzero chr_def crlf_def)

lemma core_str_args:
  "str_args (map chr ''IRQ: %d, error code: %d'') [a1, a2] = []"
  "str_args (map chr (''CS: %d'' @ crlf @ ''DS: %d'' @ crlf @ ''ES: %d'' @ crlf @ ''SS: %d'' @ crlf @
      ''FS: %d'' @ crlf @ ''GS: %d'' @ [CHR 0x0D])) [a1, a2, a3, a4, a5, a6] = []"
  "str_args (map chr (''EAX: 0x%x'' @ crlf @ ''EBX: 0x%x'' @ crlf @ ''ECX: 0x%x'' @ crlf @ ''EDX: 0x%x'' @ crlf @
      ''EDI: 0x%x'' @ crlf @ ''ESI: 0x%x'' @ crlf @ ''EBP: 0x%x'' @ crlf @ ''ESP: 0x%x'' @ [CHR 0x0D]))
      [a1, a2, a3, a4, a5, a6, a7, a8] = []"
  "str_args (map chr (''EIP: 0x%x'' @ crlf @ ''EFLAGS: 0x%x'')) [a1, a2] = []"
  by (simp_all add: chr_def crlf_def)

lemma print_reports:
  assumes "reporting buf s" and "(name, lit) \<in> set report_literals"
    and "fmt_out (\<lambda>a. []) (map chr lit) args = Some out" and "str_args (map chr lit) args = []"
    and "0 \<notin> set out" and "length out \<le> 127"
  shows "reports buf [out] s (log_printfln buf (symaddr s name) args s)"
  using print_logged [OF assms(1-3,5,6)] assms(4) by (simp add: reports_def)

lemma core_line_reports:
  assumes "i < 4" "reporting buf s" "(name, lit) \<in> set report_literals"
    "fmt_out (\<lambda>a. []) (map chr lit) args = Some (core_report f ! i)" "str_args (map chr lit) args = []"
    "0 \<notin> set (core_report f ! i)" "\<forall>l\<in>set (core_report f). length l \<le> 127"
  shows "reports buf [core_report f ! i] s (log_printfln buf (symaddr s name) args s)"
proof -
  have "core_report f ! i \<in> set (core_report f)" using assms(1) by (intro nth_mem) (simp add: core_report_def)
  then show ?thesis using print_reports [OF assms(2-6)] assms(7) by simp
qed

lemma core_dec_reports:
  assumes fits: "\<forall>l\<in>set (core_report f). length l \<le> 127" and r: "reporting buf s"
  shows "reports buf [core_report f ! 0] s (log_printfln buf (symaddr s ''str_irq'') [f_num f, f_error_code f] s)"
    "reports buf [core_report f ! 1] s (log_printfln buf (symaddr s ''str_segments'')
       [f_cs f, f_ds f, f_es f, f_ds f, f_fs f, f_gs f] s)"
  by (rule core_line_reports [OF _ r _ core_formats_dec(1) core_str_args(1) core_nonzero_dec(1) fits]
      core_line_reports [OF _ r _ core_formats_dec(2) core_str_args(2) core_nonzero_dec(2) fits],
    simp, simp add: report_literals_def)+

lemma core_hex_reports:
  assumes fits: "\<forall>l\<in>set (core_report f). length l \<le> 127" and r: "reporting buf s"
  shows "signed_ok (general_regs f) \<Longrightarrow> reports buf [core_report f ! 2] s (log_printfln buf (symaddr s ''str_registers'')
      [f_eax f, f_ebx f, f_ecx f, f_edx f, f_edi f, f_esi f, f_ebp f, f_esp f] s)"
    "signed_ok (flow_regs f) \<Longrightarrow>
      reports buf [core_report f ! 3] s (log_printfln buf (symaddr s ''str_eip'') [f_eip f, f_eflags f] s)"
  by (rule core_line_reports [OF _ r _ core_formats_hex(1) core_str_args(3) core_nonzero(1) fits]
      core_line_reports [OF _ r _ core_formats_hex(2) core_str_args(4) core_nonzero(2) fits],
    simp, simp add: report_literals_def, assumption, assumption)+

lemma dump_core_regs_reports:
  assumes pos: "signed_ok (hex_regs f)" and fits: "\<forall>l\<in>set (core_report f). length l \<le> 127"
    and r: "reporting buf s"
  shows "reports buf (core_report f) s (dump_core_regs buf f s)"
proof -
  let ?c = "\<lambda>i. core_report f ! i"
  have split: "core_report f = [?c 0] @ [?c 1] @ [?c 2] @ [?c 3]" by (simp add: core_report_def)
  have "reports buf ([?c 0] @ [?c 1] @ [?c 2] @ [?c 3]) s (dump_core_regs buf f s)"
    unfolding dump_core_regs_def
  proof (intro reports_then)
    have p: "signed_ok (general_regs f)" "signed_ok (flow_regs f)" using pos by (simp_all add: hex_regs_def)
    note dec = core_dec_reports [OF fits] and hex = core_hex_reports(1) [OF fits _ p(1)] core_hex_reports(2) [OF fits _ p(2)]
    show "reports buf [?c 0] s (log_printfln buf (symaddr s ''str_irq'') [f_num f, f_error_code f] s)" by (rule dec(1) [OF r])
    fix s1 assume "logged buf [?c 0] s s1"
    note r1 = reporting_kept [OF r this]
    show "reports buf [?c 1] s1 (log_printfln buf (symaddr s1 ''str_segments'')
      [f_cs f, f_ds f, f_es f, f_ds f, f_fs f, f_gs f] s1)" by (rule dec(2) [OF r1])
    fix s2 assume "logged buf [?c 1] s1 s2"
    note r2 = reporting_kept [OF r1 this]
    show "reports buf [?c 2] s2 (log_printfln buf (symaddr s2 ''str_registers'')
      [f_eax f, f_ebx f, f_ecx f, f_edx f, f_edi f, f_esi f, f_ebp f, f_esp f] s2)" by (rule hex(1) [OF r2])
    fix s3 assume "logged buf [?c 2] s2 s3"
    then show "reports buf [?c 3] s3 (log_printfln buf (symaddr s3 ''str_eip'') [f_eip f, f_eflags f] s3)"
      by (rule hex(2) [OF reporting_kept [OF r2]])
  qed
  then show ?thesis using split by simp
qed

text \<open>The two lines every report starts with, and the last one.\<close>

lemma string_reports:
  assumes "reporting buf s" and "(name, px @ ''%s'') \<in> set report_literals"
    and "fmt_out (\<lambda>a. bs) (map chr (px @ ''%s'')) [a] = Some (map chr px @ bs)"
    and "str_args (map chr (px @ ''%s'')) [a] = [a]" and "string_at buf a bs s"
    and "0 \<notin> chr ` set px" and "length (map chr px @ bs) \<le> 127"
  shows "reports buf [map chr px @ bs] s (log_printfln buf (symaddr s name) [a] s)"
  unfolding reports_def
  by (rule print_logged [OF assms(1-3) _ assms(7)]) (use assms(4-6) in \<open>auto simp: string_at_def cstr_def\<close>)

lemma line_reports: "reporting buf s \<Longrightarrow> reports buf [map chr ''-------------''] s (log_println (symaddr s ''str_line'') s)"
  using println_logged [of buf s "''str_line''" "''-------------''"] by (simp add: reports_def report_literals_def)

lemma happened_reports:
  assumes "reporting buf s" and "string_at buf a bs s" and "length bs \<le> 100"
  shows "reports buf [map chr ''IRQ/EXCEPTION happened: '' @ bs] s (log_printfln buf (symaddr s ''str_happened'') [a] s)"
  by (rule string_reports [OF assms(1) _ _ _ assms(2)]) (use assms(3) in \<open>simp_all add: report_literals_def chr_def\<close>)

lemma do_default_handler_halts:
  assumes pos: "signed_ok (hex_regs f)" and fits: "\<forall>l\<in>set (core_report f). length l \<le> 127"
    and r: "reporting buf s" and msg: "string_at buf a bs s" "length bs \<le> 100"
  shows "halts buf (exception_report bs f) s (do_default_handler buf f a s)"
proof -
  let ?ln = "map chr ''-------------''" and ?h = "map chr ''IRQ/EXCEPTION happened: '' @ bs"
  have split: "exception_report bs f = [?ln] @ [?h] @ core_report f @ [?ln] @ []" by (simp add: exception_report_def)
  show ?thesis
    unfolding do_default_handler_def split
  proof (intro halts_then)
    show "reports buf [?ln] s (log_println (symaddr s ''str_line'') s)" using r by (rule line_reports)
    fix s1 assume s1: "logged buf [?ln] s s1"
    show "reports buf [?h] s1 (log_printfln buf (symaddr s1 ''str_happened'') [a] s1)"
      by (rule happened_reports [OF reporting_kept [OF r s1] string_at_kept [OF msg(1) s1] msg(2)])
    fix s2 assume s2: "logged buf [?h] s1 s2"
    note r2 = reporting_kept [OF reporting_kept [OF r s1] s2]
    show "reports buf (core_report f) s2 (dump_core_regs buf f s2)" by (rule dump_core_regs_reports [OF pos fits r2])
    fix s3 assume s3: "logged buf (core_report f) s2 s3"
    show "reports buf [?ln] s3 (log_println (symaddr s3 ''str_line'') s3)" by (rule line_reports [OF reporting_kept [OF r2 s3]])
    fix s4 assume "logged buf [?ln] s3 s4"
    then show "halts buf [] s4 (halt_loop s4)" by (intro halts_loop) (simp add: logged_def)
  qed
qed

section \<open>A register that is not printed\<close>

definition stops :: "addr \<Rightarrow> uint8_t list list \<Rightarrow> kernel \<Rightarrow> unit outcome \<Rightarrow> bool" where
  "stops buf ls s c \<longleftrightarrow> (\<exists>s'. c = Looping s' \<and> logged buf ls s s')"

lemma stops_then:
  assumes "reports buf ls s c" and "\<And>s1. logged buf ls s s1 \<Longrightarrow> stops buf ls' s1 (f () s1)"
  shows "stops buf (ls @ ls') s (and_then c f)"
  using assms logged_trans by (fastforce simp: reports_def stops_def)

lemma stops_first: "stops buf ls s c \<Longrightarrow> stops buf ls s (and_then c f)"
  by (auto simp: stops_def)

lemma print_cut_short:
  assumes r: "reporting buf s" and lit: "(name, lit) \<in> set report_literals"
    and out: "fmt_stop (\<lambda>a. []) (map chr lit) args = Some out" "length out \<le> 127" and args: "str_args (map chr lit) args = []"
  shows "stops buf [map chr ''kernel_itoa: base16 when num < 0''] s (log_printfln buf (symaddr s name) args s)"
proof -
  have at: "string_at buf (symaddr s n) (map chr l) s" if "(n, l) \<in> set report_literals" for n l
    using r that by (auto simp: reporting_def)
  have "region buf (Suc (length out)) \<subseteq> region buf 128"
    using region_append [of buf "Suc (length out)" "127 - length out"] out(2) by (auto simp del: region.simps)
  moreover have "unat buf + length out + 33 \<le> 2 ^ 32" "mutex_open (log_mutex s) s" using r out(2) by (simp_all add: reporting_def)
  ultimately have "fmt_ready (\<lambda>a. []) (mem s) (symaddr s name) (map chr lit) args buf (length out)"
    using at [OF lit] args by (auto simp: fmt_ready_def string_at_def simp del: region.simps)
  moreover have "string_at buf (symaddr s ''str_itoa_negative'') (map chr ''kernel_itoa: base16 when num < 0'') s"
    by (rule at) (simp add: report_literals_def)
  ultimately show ?thesis
    using log_printfln_stops [OF \<open>mutex_open (log_mutex s) s\<close> out(1) _ out(2)] unfolding stops_def string_at_def by blast
qed

text \<open>The text before the first negative register is no longer than the line would be.\<close>

lemma core_stops:
  "\<not> signed_ok (general_regs f) \<Longrightarrow>
    \<exists>out. fmt_stop str (map chr (''EAX: 0x%x'' @ crlf @ ''EBX: 0x%x'' @ crlf @ ''ECX: 0x%x'' @ crlf @ ''EDX: 0x%x'' @ crlf @
        ''EDI: 0x%x'' @ crlf @ ''ESI: 0x%x'' @ crlf @ ''EBP: 0x%x'' @ crlf @ ''ESP: 0x%x'' @ [CHR 0x0D]))
      [f_eax f, f_ebx f, f_ecx f, f_edx f, f_edi f, f_esi f, f_ebp f, f_esp f] = Some out \<and> length out \<le> length (core_report f ! 2)"
  "\<not> signed_ok (flow_regs f) \<Longrightarrow>
    \<exists>out. fmt_stop str (map chr (''EIP: 0x%x'' @ crlf @ ''EFLAGS: 0x%x'')) [f_eip f, f_eflags f] = Some out \<and>
      length out \<le> length (core_report f ! 3)"
  by (auto simp: general_regs_def flow_regs_def core_report_def register_items_def hex_def chr_def crlf_def fmt_piece_def)

lemma core_line_stops:
  assumes fits: "\<forall>l\<in>set (core_report f). length l \<le> 127" and r: "reporting buf s"
  shows "\<not> signed_ok (general_regs f) \<Longrightarrow> stops buf [map chr ''kernel_itoa: base16 when num < 0''] s
      (log_printfln buf (symaddr s ''str_registers'')
        [f_eax f, f_ebx f, f_ecx f, f_edx f, f_edi f, f_esi f, f_ebp f, f_esp f] s)"
    "\<not> signed_ok (flow_regs f) \<Longrightarrow> stops buf [map chr ''kernel_itoa: base16 when num < 0''] s
      (log_printfln buf (symaddr s ''str_eip'') [f_eip f, f_eflags f] s)"
proof -
  have l: "length (core_report f ! 2) \<le> 127" "length (core_report f ! 3) \<le> 127"
    using fits by (simp_all add: core_report_def)
  show "stops buf [map chr ''kernel_itoa: base16 when num < 0''] s (log_printfln buf (symaddr s ''str_registers'')
        [f_eax f, f_ebx f, f_ecx f, f_edx f, f_edi f, f_esi f, f_ebp f, f_esp f] s)" if n: "\<not> signed_ok (general_regs f)"
  proof -
    obtain out where "fmt_stop (\<lambda>a. []) (map chr (''EAX: 0x%x'' @ crlf @ ''EBX: 0x%x'' @ crlf @ ''ECX: 0x%x'' @ crlf @
        ''EDX: 0x%x'' @ crlf @ ''EDI: 0x%x'' @ crlf @ ''ESI: 0x%x'' @ crlf @ ''EBP: 0x%x'' @ crlf @ ''ESP: 0x%x'' @ [CHR 0x0D]))
      [f_eax f, f_ebx f, f_ecx f, f_edx f, f_edi f, f_esi f, f_ebp f, f_esp f] = Some out" "length out \<le> 127"
      using core_stops(1) [OF n] l(1) order_trans by blast
    then show ?thesis by (intro print_cut_short [OF r _ _ _ core_str_args(3)]) (simp add: report_literals_def)
  qed
  show "stops buf [map chr ''kernel_itoa: base16 when num < 0''] s
      (log_printfln buf (symaddr s ''str_eip'') [f_eip f, f_eflags f] s)" if n: "\<not> signed_ok (flow_regs f)"
  proof -
    obtain out where "fmt_stop (\<lambda>a. []) (map chr (''EIP: 0x%x'' @ crlf @ ''EFLAGS: 0x%x'')) [f_eip f, f_eflags f] = Some out"
      "length out \<le> 127" using core_stops(2) [OF n] l(2) order_trans by blast
    then show ?thesis by (intro print_cut_short [OF r _ _ _ core_str_args(4)]) (simp add: report_literals_def)
  qed
qed

lemma dump_core_regs_stops:
  assumes neg: "\<not> signed_ok (hex_regs f)" and fits: "\<forall>l\<in>set (core_report f). length l \<le> 127" and r: "reporting buf s"
  shows "stops buf (take (if signed_ok (general_regs f) then 3 else 2) (core_report f) @
    [map chr ''kernel_itoa: base16 when num < 0'']) s (dump_core_regs buf f s)"
proof -
  let ?c = "\<lambda>i. core_report f ! i" and ?m = "map chr ''kernel_itoa: base16 when num < 0''"
  have split: "take 2 (core_report f) = [?c 0] @ [?c 1]" "take 3 (core_report f) = [?c 0] @ [?c 1] @ [?c 2]"
    by (simp_all add: core_report_def)
  have tail: "stops buf ((if signed_ok (general_regs f) then [?c 2] else []) @ [?m]) s2
      (and_then (log_printfln buf (symaddr s2 ''str_registers'')
        [f_eax f, f_ebx f, f_ecx f, f_edx f, f_edi f, f_esi f, f_ebp f, f_esp f] s2)
        (\<lambda>_ s3. log_printfln buf (symaddr s3 ''str_eip'') [f_eip f, f_eflags f] s3))" if r2: "reporting buf s2" for s2
  proof (cases "signed_ok (general_regs f)")
    case True
    then have "\<not> signed_ok (flow_regs f)" using neg by (simp add: hex_regs_def)
    then show ?thesis
      using True core_line_stops(2) [OF fits reporting_kept [OF r2]]
      by (auto intro!: stops_then [OF core_hex_reports(1) [OF fits r2 True]] simp del: append.simps)
  next
    case False
    then show ?thesis using core_line_stops(1) [OF fits r2 False] by (simp add: stops_first)
  qed
  have "stops buf ([?c 0] @ [?c 1] @ (if signed_ok (general_regs f) then [?c 2] else []) @ [?m]) s (dump_core_regs buf f s)"
    unfolding dump_core_regs_def
  proof (rule stops_then [OF core_dec_reports(1) [OF fits r]])
    fix s1 assume "logged buf [?c 0] s s1"
    note r1 = reporting_kept [OF r this]
    show "stops buf ([?c 1] @ (if signed_ok (general_regs f) then [?c 2] else []) @ [?m]) s1
      (and_then (log_printfln buf (symaddr s1 ''str_segments'') [f_cs f, f_ds f, f_es f, f_ds f, f_fs f, f_gs f] s1)
        (\<lambda>_ s2. and_then (log_printfln buf (symaddr s2 ''str_registers'')
          [f_eax f, f_ebx f, f_ecx f, f_edx f, f_edi f, f_esi f, f_ebp f, f_esp f] s2)
          (\<lambda>_ s3. log_printfln buf (symaddr s3 ''str_eip'') [f_eip f, f_eflags f] s3)))"
      by (rule stops_then [OF core_dec_reports(2) [OF fits r1]]) (rule tail [OF reporting_kept [OF r1]])
  qed
  then show ?thesis by (simp add: split split: if_splits)
qed

lemma do_default_handler_stops:
  assumes neg: "\<not> signed_ok (hex_regs f)" and fits: "\<forall>l\<in>set (core_report f). length l \<le> 127"
    and r: "reporting buf s" and msg: "string_at buf a bs s" "length bs \<le> 100"
  shows "stops buf (stopped_report bs f) s (do_default_handler buf f a s)"
proof -
  let ?ln = "map chr ''-------------''" and ?h = "map chr ''IRQ/EXCEPTION happened: '' @ bs"
  let ?c = "take (if signed_ok (general_regs f) then 3 else 2) (core_report f) @ [map chr ''kernel_itoa: base16 when num < 0'']"
  have split: "stopped_report bs f = [?ln] @ [?h] @ ?c" by (simp add: stopped_report_def)
  show ?thesis
    unfolding do_default_handler_def split
  proof (rule stops_then [OF line_reports [OF r]])
    fix s1 assume s1: "logged buf [?ln] s s1"
    note r1 = reporting_kept [OF r s1]
    show "stops buf ([?h] @ ?c) s1 (and_then (log_printfln buf (symaddr s1 ''str_happened'') [a] s1)
      (\<lambda>_ s2. and_then (dump_core_regs buf f s2)
        (\<lambda>_ s3. and_then (log_println (symaddr s3 ''str_line'') s3) (\<lambda>_ s4. halt_loop s4))))"
      by (rule stops_then [OF happened_reports [OF r1 string_at_kept [OF msg(1) s1] msg(2)]])
        (rule stops_first [OF dump_core_regs_stops [OF neg fits reporting_kept [OF r1]]])
  qed
qed

section \<open>Failed assertions\<close>

text \<open>\<^verbatim>\<open>panic\<close> reports the condition, the file, the line and the function, then halts.\<close>

lemma panic_halts:
  assumes r: "reporting buf s" and c: "string_at buf cond cs s" "length cs \<le> 100"
    and fl: "string_at buf file fs s" "length fs \<le> 100" and fn: "string_at buf func ns s" "length ns \<le> 100"
  shows "halts buf [map chr ''assert failed: '' @ cs, map chr ''file:'' @ fs, map chr ''line:'' @ dec line,
    map chr ''func:'' @ ns] s (panic buf file line func cond s)"
proof -
  have "length (dec line) \<le> 33" using itoa_text_len [of 10 line] by (simp add: dec_def itoa_base_ok_def)
  then have ln: "reports buf [map chr ''line:'' @ dec line] s' (log_printfln buf (symaddr s' ''str_lineno'') [line] s')"
    if "reporting buf s'" for s'
    by (intro print_reports [OF that, of _ "''line:%d''"]) (simp_all add: report_literals_def dec_nonzero chr_def, simp add: dec_def)
  have "halts buf ([map chr ''assert failed: '' @ cs] @ [map chr ''file:'' @ fs] @ [map chr ''line:'' @ dec line] @
      [map chr ''func:'' @ ns] @ []) s (panic buf file line func cond s)"
    unfolding panic_def
  proof (intro halts_then)
    show "reports buf [map chr ''assert failed: '' @ cs] s (log_printfln buf (symaddr s ''str_assert'') [cond] s)"
      by (rule string_reports [OF r _ _ _ c(1)]) (use c(2) in \<open>simp_all add: report_literals_def chr_def\<close>)
    fix s1 assume l1: "logged buf [map chr ''assert failed: '' @ cs] s s1"
    note r1 = reporting_kept [OF r l1]
    show "reports buf [map chr ''file:'' @ fs] s1 (log_printfln buf (symaddr s1 ''str_file'') [file] s1)"
      by (rule string_reports [OF r1 _ _ _ string_at_kept [OF fl(1) l1]]) (use fl(2) in \<open>simp_all add: report_literals_def chr_def\<close>)
    fix s2 assume l2: "logged buf [map chr ''file:'' @ fs] s1 s2"
    note r2 = reporting_kept [OF r1 l2]
    show "reports buf [map chr ''line:'' @ dec line] s2 (log_printfln buf (symaddr s2 ''str_lineno'') [line] s2)" by (rule ln [OF r2])
    fix s3 assume l3: "logged buf [map chr ''line:'' @ dec line] s2 s3"
    note r3 = reporting_kept [OF r2 l3]
    show "reports buf [map chr ''func:'' @ ns] s3 (log_printfln buf (symaddr s3 ''str_func'') [func] s3)"
      by (rule string_reports [OF r3 _ _ _ string_at_kept [OF string_at_kept [OF string_at_kept [OF fn(1) l1] l2] l3]])
        (use fn(2) in \<open>simp_all add: report_literals_def chr_def\<close>)
    fix s4 assume "logged buf [map chr ''func:'' @ ns] s3 s4"
    then show "halts buf [] s4 (halt_loop s4)" by (intro halts_loop) (simp add: logged_def)
  qed
  then show ?thesis by simp
qed

text \<open>All handlers of the table are the default handler with their message.\<close>

lemmas handler_defs = handler_table_def do_handler_unknown_def do_handler_divider_def do_handler_Debug_def do_handler_NMI_def
    do_handler_breakpoint_def do_handler_overflow_def do_handler_bound_range_def do_handler_invalid_opcode_def
    do_handler_device_unavailable_def do_handler_double_fault_def do_handler_coprocessor_segment_overrun_def
    do_handler_invalid_tss_def do_handler_segment_not_present_def do_handler_stack_segment_fault_def
    do_handler_general_protection_def do_handler_page_fault_def do_handler_fpu_error_def
    do_handler_alignment_check_def do_handler_machine_check_def do_handler_smd_exception_def
    do_handler_virtual_exception_def do_handler_control_protection_exception_def

lemma table_handler:
  assumes "(stub, h, name, msg) \<in> set handler_table"
  shows "h buf f s = do_default_handler buf f (symaddr s name) s" "length (map chr msg) \<le> 100"
  using assms by (auto simp: handler_defs)

lemma table_handler_reports:
  assumes "(stub, h, name, msg) \<in> set handler_table" and "reporting buf s"
    and "string_at buf (symaddr s name) (map chr msg) s" and "\<forall>l\<in>set (core_report f). length l \<le> 127"
  shows "if signed_ok (hex_regs f)
    then \<exists>s'. h buf f s = Halted s' \<and> logged buf (exception_report (map chr msg) f) s s'
    else \<exists>s'. h buf f s = Looping s' \<and> logged buf (stopped_report (map chr msg) f) s s'"
  using do_default_handler_halts [OF _ assms(4,2,3) table_handler(2) [OF assms(1)]]
    do_default_handler_stops [OF _ assms(4,2,3) table_handler(2) [OF assms(1)]]
  unfolding table_handler(1) [OF assms(1)] halts_def stops_def by simp

section \<open>Properties\<close>

text \<open>C24. Exceptions. Every vector that \<^verbatim>\<open>irq_init\<close> installs for an exception has a handler here. Let the mutex of the
  log be free or held by the interrupted task, the literals be in memory outside the local buffer, and let every line fit the
  127 bytes the buffer holds (the line of the eight general registers does when they have at most 56 hexadecimal digits
  together; with 64 digits it has 135 bytes and the code overruns the buffer, which is not covered here). If no register
  printed in hexadecimal is negative as \<^verbatim>\<open>int\<close>, a handler prints a line, what happened, the vector and error code, the
  segments, the general registers, instruction pointer and flags, and a line, and halts. The segment line shows the value of
  DS a second time under the name SS, which is what the code passes (its comment says ES). If one of these registers is
  negative, the handler prints the lines before the one with that register, then the message of \<^verbatim>\<open>kernel_itoa\<close>, and
  loops for ever.\<close>

theorem exception_halts:
  assumes "(stub, h, name, msg) \<in> set handler_table" and "reporting buf s"
    and "string_at buf (symaddr s name) (map chr msg) s" and "\<forall>l\<in>set (core_report f). length l \<le> 127"
  shows "snd ` set exception_handlers \<subseteq> fst ` set handler_table \<and>
    (if \<forall>r\<in>set (hex_regs f). 0 \<le> sint r
     then \<exists>s'. h buf f s = Halted s' \<and> logged buf (exception_report (map chr msg) f) s s'
     else \<exists>s'. h buf f s = Looping s' \<and> logged buf (stopped_report (map chr msg) f) s s')"
proof
  show "snd ` set exception_handlers \<subseteq> fst ` set handler_table"
    by (simp add: exception_handlers_eq handler_table_def)
qed (use table_handler_reports [OF assms] in \<open>simp only: signed_ok_def\<close>)

text \<open>A kernel with its literals 4096 bytes apart, and a frame.\<close>

definition sample_texts :: "(string \<times> string) list" where
  "sample_texts = (''str_divider'', ''divider exception'') # report_literals"

definition sample_text :: memory where
  "sample_text a = (let k = unat a div 4096; i = unat a mod 4096; t = snd (sample_texts ! k)
     in if k < length sample_texts \<and> i < length t then chr (t ! i) else 0)"

definition sample_sym :: "string \<Rightarrow> addr" where
  "sample_sym n = (case map_of (zip (map fst sample_texts) [0..<length sample_texts]) n of Some k \<Rightarrow> of_nat (4096 * k) | None \<Rightarrow> 0)"

definition sample_reporting :: kernel where
  "sample_reporting = blank_kernel\<lparr>mem := sample_text, symaddr := sample_sym\<rparr>"

definition sample_frame :: exception_frame_t where
  "sample_frame = \<lparr>f_gs = 16, f_fs = 16, f_es = 16, f_ds = 16, f_edi = 0, f_esi = 1, f_ebp = 0x7BF0, f_esp = 0x7BC0, f_ebx = 2,
     f_edx = 3, f_ecx = 4, f_eax = 0xABC, f_num = 0, f_error_code = 0, f_eip = 0x10123, f_cs = 8, f_eflags = 0x202\<rparr>"

lemma sample_text_cstr:
  assumes "k < length sample_texts" and "t = snd (sample_texts ! k)" and "length t < 4096" and "0 \<notin> chr ` set t"
  shows "cstr sample_text (of_nat (4096 * k)) (map chr t)"
proof -
  have len: "length sample_texts = 12" by (simp add: sample_texts_def report_literals_def)
  have "sample_text (of_nat (4096 * k) + of_nat i) = (map chr t @ [0]) ! i" if i: "i < Suc (length t)" for i
  proof -
    have "unat (of_nat (4096 * k) + of_nat i :: addr) = 4096 * k + i"
      using assms(1,3) i len by (simp add: unat_of_nat flip: of_nat_mult of_nat_add)
    then show ?thesis using assms(1-3) i by (simp add: sample_text_def nth_append Let_def)
  qed
  then have "stored sample_text (of_nat (4096 * k)) (map chr t @ [0])" unfolding stored_nth by simp
  then show ?thesis using assms(4) by (auto simp: cstr_def)
qed

lemma sample_string_at:
  assumes "(name, t) \<in> set sample_texts"
  shows "string_at 0x20000 (symaddr sample_reporting name) (map chr t) sample_reporting"
proof -
  have len: "length sample_texts = 12" by (simp add: sample_texts_def report_literals_def)
  obtain k where k: "k < length sample_texts" "sample_texts ! k = (name, t)" using assms by (auto simp: in_set_conv_nth)
  have d: "distinct (map fst sample_texts)" by (simp add: sample_texts_def report_literals_def)
  have "map_of (zip (map fst sample_texts) [0..<length sample_texts]) (map fst sample_texts ! k) = Some ([0..<length sample_texts] ! k)"
    using k(1) by (intro map_of_zip_nth d) simp_all
  then have a: "symaddr sample_reporting name = of_nat (4096 * k)"
    using k by (simp add: sample_reporting_def sample_sym_def)
  have l: "length t < 4000" "0 \<notin> chr ` set t"
    using assms by (auto simp: sample_texts_def report_literals_def crlf_def chr_def)
  have c: "cstr sample_text (of_nat (4096 * k)) (map chr t)" using k l by (intro sample_text_cstr) simp_all
  have u: "unat (of_nat (4096 * k) :: addr) = 4096 * k" using k(1) len by (subst unat_of_nat) simp
  have "region (of_nat (4096 * k)) (Suc (length (map chr t))) \<inter> region 0x20000 128 = {}"
    using k(1) len l(1) u by (intro region_apart) (simp del: of_nat_mult)
  then show ?thesis using c unfolding string_at_def a by (simp add: sample_reporting_def del: region.simps of_nat_mult)
qed

lemma sample_reporting_ok: "reporting 0x20000 sample_reporting"
proof -
  have "set report_literals \<subseteq> set sample_texts" by (auto simp: sample_texts_def)
  moreover have "mutex_open (log_mutex sample_reporting) sample_reporting"
    by (simp add: mutex_open_def mutex_idle_def sample_reporting_def blank_kernel_def list_init_def)
  ultimately show ?thesis using sample_string_at by (auto simp: reporting_def)
qed

theorem exception_halts_witness:
  "\<exists>s'. do_handler_divider 0x20000 sample_frame sample_reporting = Halted s' \<and>
    io s' = concat (map line_events (exception_report (map chr ''divider exception'') sample_frame))"
proof -
  have t: "(''exception_handler_divider'', do_handler_divider, ''str_divider'', ''divider exception'') \<in> set handler_table"
    by (simp add: handler_table_def)
  have m: "(''str_divider'', ''divider exception'') \<in> set sample_texts" by (simp add: sample_texts_def)
  have fit: "\<forall>l\<in>set (core_report sample_frame). length l \<le> 127"
    by (simp add: core_report_def segment_items_def register_items_def sample_frame_def dec_def hex_def itoa_text_def
        digits_def digits_rev.simps crlf_def)
  have "\<forall>r\<in>set (hex_regs sample_frame). 0 \<le> sint r" by (simp add: hex_regs_def general_regs_def flow_regs_def sample_frame_def)
  moreover have "io sample_reporting = []" by (simp add: sample_reporting_def blank_kernel_def)
  ultimately show ?thesis
    using exception_halts [OF t sample_reporting_ok sample_string_at [OF m] fit] by (auto simp: logged_def simp del: region.simps)
qed

end
