(* ===== verification/Demo.thy ===== *)
theory Demo
  imports Frame Exceptions
begin

text \<open>
  The demonstration program of \<^verbatim>\<open>src/source/kernel/init/init.c\<close>: the endless loop of \<^verbatim>\<open>init_main\<close>, which
  prints a line, notifies a semaphore and sleeps, and \<^verbatim>\<open>new_task_entry\<close>, which waits for the semaphore and
  prints a line. The tasks run interleaved, with clock interrupts anywhere between two steps. A step is
  one kernel call or one byte sent by the log, so printing is cut into the steps of \<^verbatim>\<open>log_printfln\<close>: format into
  the local buffer, lock, send byte by byte, unlock. A call that blocks has its effect when it is made;
  its task goes on when it is resumed.
\<close>

section \<open>The program\<close>

datatype demo_pc = Format | Lock | Puts addr | Unlock | Notify | Sleeps | Waits

record demo =
  dk :: kernel
  pc_of :: "addr \<Rightarrow> demo_pc"
  cnt :: "addr \<Rightarrow> cint"
  sbuf :: "addr \<Rightarrow> addr"

definition goto :: "addr \<Rightarrow> demo_pc \<Rightarrow> kernel \<Rightarrow> demo \<Rightarrow> demo" where
  "goto t c k d = d\<lparr>dk := k, pc_of := (pc_of d)(t := c)\<rparr>"

text \<open>One round of the output loop: a byte, or the end of the line.\<close>

definition put_step :: "addr \<Rightarrow> kernel \<Rightarrow> (addr option \<times> kernel) option" where
  "put_step p k =
    (if mem k p \<noteq> 0
     then map_option (\<lambda>k1. (Some (p + 1), outb COM1_PORT (mem k1 p) k1)) (uart_wait k)
     else Some (None, outb COM1_PORT (chr (CHR 0x0A)) (outb COM1_PORT (chr (CHR 0x0D)) k)))"

text \<open>The steps of \<^verbatim>\<open>log_printfln(fmt, count++)\<close>, after which the task goes on at \<open>next\<close>: what \<^verbatim>\<open>log_printfln\<close>
  does in one piece, cut where a clock interrupt can come between. The two bytes that end a line are sent in one step; they
  are sent under the mutex, so no other line can come between them. The formats have \<^verbatim>\<open>%d\<close> only, which never fails.\<close>

definition print_step :: "addr \<Rightarrow> addr \<Rightarrow> demo_pc \<Rightarrow> demo \<Rightarrow> demo option" where
  "print_step t fmt next d =
    (let k = dk d
     in case pc_of d t of
          Format \<Rightarrow> (case kernel_vsprintf (sbuf d t) fmt [cnt d t] (mem k) of
              Some (Inr m) \<Rightarrow> Some ((goto t Lock (k\<lparr>mem := m\<rparr>) d)\<lparr>cnt := (cnt d)(t := cnt d t + 1)\<rparr>)
            | _ \<Rightarrow> None)
        | Lock \<Rightarrow> Some (goto t (Puts (sbuf d t)) (rein_mutex_lock (log_mutex k) k) d)
        | Puts p \<Rightarrow> map_option (\<lambda>(q, k1). goto t (case q of Some p' \<Rightarrow> Puts p' | None \<Rightarrow> Unlock) k1 d) (put_step p k)
        | Unlock \<Rightarrow> (case rein_mutex_unlock (log_mutex k) k of Inl e \<Rightarrow> None | Inr k1 \<Rightarrow> Some (goto t next k1 d))
        | _ \<Rightarrow> None)"

definition init_main_loop :: "demo \<Rightarrow> demo option" where
  "init_main_loop d =
    (let k = dk d; t = main_task k
     in case pc_of d t of
          Notify \<Rightarrow> Some (goto t Sleeps (sem_notify (notify_sem k) k) d)
        | Sleeps \<Rightarrow> Some (goto t Format (sys_sleep 1000 k) d)
        | _ \<Rightarrow> print_step t (symaddr k ''str_sending'') Notify d)"

definition new_task_entry :: "demo \<Rightarrow> demo option" where
  "new_task_entry d =
    (let k = dk d; t = new_task k
     in case pc_of d t of
          Waits \<Rightarrow> Some (goto t Format (sem_wait (notify_sem k) k) d)
        | _ \<Rightarrow> print_step t (symaddr k ''str_recv'') Waits d)"

datatype actor = Main | New | Clock

inductive demo_step :: "demo \<Rightarrow> actor \<Rightarrow> demo \<Rightarrow> bool" where
  "curr_task (dk d) = main_task (dk d) \<Longrightarrow> init_main_loop d = Some d' \<Longrightarrow> demo_step d Main d'"
| "curr_task (dk d) = new_task (dk d) \<Longrightarrow> new_task_entry d = Some d' \<Longrightarrow> demo_step d New d'"
| "timer_interrupt (dk d) = Some k \<Longrightarrow> demo_step d Clock (d\<lparr>dk := k\<rparr>)"

inductive_cases demo_stepE: "demo_step d w d'"

text \<open>Both tasks at the start of their code.\<close>

definition demo_start :: "(addr \<Rightarrow> addr) \<Rightarrow> kernel \<Rightarrow> demo" where
  "demo_start buf k = \<lparr>dk = k, pc_of = (\<lambda>t. if t = main_task k then Format else Waits), cnt = (\<lambda>t. 0), sbuf = buf\<rparr>"

text \<open>The rounds of the output loop together are the loop of \<^verbatim>\<open>log_printfln\<close>.\<close>

lemma log_puts_rounds: "log_puts p k = Option.bind (put_step p k) (\<lambda>(q, k1). case q of
    Some p' \<Rightarrow> log_puts p' k1 | None \<Rightarrow> Some k)"
  by (subst log_puts.simps) (simp add: put_step_def uart_wait_once outb_def)

section \<open>Memory and ports\<close>

text \<open>The relation to the specification does not look at memory and ports.\<close>

lemma sim_outside [simp]: "sim SS MM a (k\<lparr>mem := m\<rparr>) \<longleftrightarrow> sim SS MM a k" "sim SS MM a (k\<lparr>io := es\<rparr>) \<longleftrightarrow> sim SS MM a k"
proof -
  have "cpu_inv T (k\<lparr>mem := m\<rparr>) \<longleftrightarrow> cpu_inv T k" "cpu_inv T (k\<lparr>io := es\<rparr>) \<longleftrightarrow> cpu_inv T k" for T
    by (auto intro: cpu_inv_cong)
  then show "sim SS MM a (k\<lparr>mem := m\<rparr>) \<longleftrightarrow> sim SS MM a k" "sim SS MM a (k\<lparr>io := es\<rparr>) \<longleftrightarrow> sim SS MM a k"
    by (simp_all add: sim_def live_def kinv_def kstatic_def ticks_ok_def idle_task_def at_user_def data_rel_def)
qed

section \<open>Control: where each task can be waiting\<close>

definition crit :: "demo_pc \<Rightarrow> bool" where
  "crit c \<longleftrightarrow> c = Unlock \<or> (\<exists>p. c = Puts p)"

lemma crit_simps [simp]: "crit (Puts p)" "crit Unlock" "\<not> crit Format" "\<not> crit Lock" "\<not> crit Notify" "\<not> crit Sleeps" "\<not> crit Waits"
  by (simp_all add: crit_def)

definition parked_ok :: "addr \<Rightarrow> addr \<Rightarrow> addr \<Rightarrow> addr \<Rightarrow> (addr \<Rightarrow> addr) \<Rightarrow> (addr \<Rightarrow> demo_pc) \<Rightarrow> aspec \<Rightarrow> bool" where
  "parked_ok M N S G buf pc a \<longleftrightarrow>
     (\<forall>u\<in>fst ` set (asleep a). u = M \<and> pc u = Format) \<and>
     (\<forall>p. \<forall>u\<in>set (asemq a p). u = N \<and> p = S \<and> pc u = Format) \<and>
     (\<forall>p. \<forall>u\<in>set (amtxq a p). p = G \<and> pc u = Puts (buf u))"

definition owner_ok :: "addr \<Rightarrow> addr \<Rightarrow> addr \<Rightarrow> (addr \<Rightarrow> demo_pc) \<Rightarrow> aspec \<Rightarrow> bool" where
  "owner_ok M N G pc a \<longleftrightarrow> (\<forall>t n. amtx a G = Some (t, n) \<longrightarrow> n = 1 \<and> t \<in> {M, N}) \<and>
     (\<forall>t\<in>{M, N}. crit (pc t) \<longleftrightarrow> amtx a G = Some (t, 1) \<or> t \<in> set (amtxq a G)) \<and>
     (\<forall>t\<in>{M, N}. t \<in> set (amtxq a G) \<longrightarrow> amtx a G \<noteq> Some (t, 1))"

definition ctl :: "addr \<Rightarrow> addr \<Rightarrow> addr \<Rightarrow> addr \<Rightarrow> (addr \<Rightarrow> addr) \<Rightarrow> (addr \<Rightarrow> demo_pc) \<Rightarrow> aspec \<Rightarrow> bool" where
  "ctl M N S G buf pc a \<longleftrightarrow> M \<noteq> N \<and> aall a = [M, N] \<and> awf a \<and> uniq (alist a) \<and>
     pc M \<noteq> Waits \<and> pc N \<noteq> Notify \<and> pc N \<noteq> Sleeps \<and> parked_ok M N S G buf pc a \<and> owner_ok M N G pc a"

lemma uniq_ready:
  assumes "uniq (alist a)" and "t \<in> set (aready a)"
  shows "t \<notin> fst ` set (asleep a)" "t \<notin> set (asemq a p)" "t \<notin> set (amtxq a p)"
proof -
  have "t \<notin> set (alist a i)" if "i \<noteq> QReady" for i
    using assms that by (auto simp: uniq_def) (metis alist.simps(1) disjoint_iff)
  from this [of QSleep] this [of "QSem p"] this [of "QMtx p"]
  show "t \<notin> fst ` set (asleep a)" "t \<notin> set (asemq a p)" "t \<notin> set (amtxq a p)" by simp_all
qed

lemma ctl_astep: "ctl M N S G buf pc a \<Longrightarrow> astep op a = Some b \<Longrightarrow> aall b = [M, N] \<and> awf b \<and> uniq (alist b)"
  using astep_awf [of op a b] astep_uniq [of op a b] astep_frame(1) [of op a b] by (simp add: ctl_def)

text \<open>A task that is on no list may be anywhere in its code.\<close>

lemma parked_free:
  assumes "parked_ok M N S G buf pc a" and "fst ` set (asleep b) \<subseteq> fst ` set (asleep a) - {t}"
    and "\<And>p. set (asemq b p) \<subseteq> set (asemq a p) - {t}" and "\<And>p. set (amtxq b p) \<subseteq> set (amtxq a p) - {t}"
  shows "parked_ok M N S G buf (pc(t := c)) b"
proof -
  have q: "u \<in> fst ` set (asleep a) \<and> u \<noteq> t" if "u \<in> fst ` set (asleep b)" for u using assms(2) that by blast
  have s: "u \<in> set (asemq a p) \<and> u \<noteq> t" if "u \<in> set (asemq b p)" for u p using assms(3) that by blast
  have m: "u \<in> set (amtxq a p) \<and> u \<noteq> t" if "u \<in> set (amtxq b p)" for u p using assms(4) that by blast
  show ?thesis
    unfolding parked_ok_def
  proof (intro conjI ballI allI)
    fix u assume "u \<in> fst ` set (asleep b)"
    from q [OF this] show "u = M" "(pc(t := c)) u = Format" using assms(1) unfolding parked_ok_def fun_upd_apply by auto
  next
    fix p u assume "u \<in> set (asemq b p)"
    from s [OF this] show "u = N" "p = S" "(pc(t := c)) u = Format" using assms(1) unfolding parked_ok_def fun_upd_apply by auto
  next
    fix p u assume "u \<in> set (amtxq b p)"
    from m [OF this] show "p = G" "(pc(t := c)) u = Puts (buf u)" using assms(1) unfolding parked_ok_def fun_upd_apply by auto
  qed
qed

lemma parked_mono:
  assumes "parked_ok M N S G buf pc a" and "fst ` set (asleep b) \<subseteq> fst ` set (asleep a)"
    and "\<And>p. set (asemq b p) \<subseteq> set (asemq a p)" and "\<And>p. set (amtxq b p) \<subseteq> set (amtxq a p)"
  shows "parked_ok M N S G buf pc b"
  using assms unfolding parked_ok_def by (meson subsetD)

lemma parked_insert:
  assumes "parked_ok M N S G buf pc a"
  shows "pc t = Puts (buf t) \<Longrightarrow> parked_ok M N S G buf pc (a\<lparr>aready := R, amtxq := (amtxq a)(G := amtxq a G @ [t])\<rparr>)"
    and "pc N = Format \<Longrightarrow> parked_ok M N S G buf pc (a\<lparr>aready := R, asemq := (asemq a)(S := asemq a S @ [N])\<rparr>)"
    and "pc M = Format \<Longrightarrow> parked_ok M N S G buf pc (a\<lparr>aready := R, asleep := asleep a @ [(M, n)]\<rparr>)"
  using assms by (auto simp: parked_ok_def)

lemma owner_keep:
  assumes "owner_ok M N G pc a" and "amtx b G = amtx a G" and "amtxq b G = amtxq a G" and "crit c \<longleftrightarrow> crit (pc t)"
  shows "owner_ok M N G (pc(t := c)) b"
  using assms by (auto simp: owner_ok_def)

lemma ctl_tick:
  assumes "ctl M N S G buf pc a"
  shows "ctl M N S G buf pc (a_tick a)"
proof -
  have f: "asemq (a_tick a) = asemq a" "amtxq (a_tick a) = amtxq a" "amtx (a_tick a) = amtx a"
    by (simp_all add: a_tick_def Let_def)
  have "fst ` set (asleep (a_tick a)) \<subseteq> fst ` set (asleep a)" by (force simp: a_tick_def Let_def)
  moreover have "parked_ok M N S G buf pc a" using assms by (simp add: ctl_def)
  ultimately have "parked_ok M N S G buf pc (a_tick a)" by (elim parked_mono) (simp_all add: f)
  moreover have "owner_ok M N G pc (a_tick a)" using assms by (simp add: ctl_def owner_ok_def f)
  moreover have "astep Tick a = Some (a_tick a)" by (simp add: astep_def acall_def)
  ultimately show ?thesis using ctl_astep [OF assms] assms by (simp add: ctl_def)
qed

text \<open>The running task is on no other list.\<close>

lemma ctl_running:
  assumes "ctl M N S G buf pc a" and "t \<in> set (aready a)" and "fst ` set (asleep b) \<subseteq> fst ` set (asleep a)"
    and "\<And>p. set (asemq b p) \<subseteq> set (asemq a p)" and "\<And>p. set (amtxq b p) \<subseteq> set (amtxq a p)"
  shows "parked_ok M N S G buf (pc(t := c)) b"
proof -
  have "uniq (alist a)" "parked_ok M N S G buf pc a" using assms(1) by (simp_all add: ctl_def)
  note r = uniq_ready [OF this(1) assms(2)] and p = this(2)
  show ?thesis by (rule parked_free [OF p]) (use r assms(3-5) in blast)+
qed

text \<open>A step of a running task that makes no call.\<close>

lemma ctl_local:
  assumes "ctl M N S G buf pc a" and "t \<in> set (aready a)" and "crit c \<longleftrightarrow> crit (pc t)"
    and "c \<noteq> Waits" "c \<noteq> Notify" "c \<noteq> Sleeps"
  shows "ctl M N S G buf (pc(t := c)) a"
  using ctl_running [OF assms(1,2), of a c] owner_keep [of M N G pc a a c t] assms by (simp add: ctl_def)

lemma ctl_lock:
  assumes c: "ctl M N S G buf pc a" and t: "t \<in> {M, N}" "aready a = t # R" and p: "pc t = Lock"
  shows "ctl M N S G buf (pc(t := Puts (buf t))) (a_lock G a)"
proof -
  let ?pc = "pc(t := Puts (buf t))"
  have o: "owner_ok M N G pc a" "awf a" using c by (simp_all add: ctl_def)
  have own: "amtx a G \<noteq> Some (t, n)" "t \<notin> set (amtxq a G)" for n using o(1) t p by (auto simp: owner_ok_def)
  have run: "parked_ok M N S G buf ?pc a" by (rule ctl_running [OF c]) (use t in simp_all)
  have "astep (MutexLock G) a = Some (a_lock G a)" using t by (simp add: astep_def acall_def)
  note b = ctl_astep [OF c this]
  have "parked_ok M N S G buf ?pc (a_lock G a) \<and> owner_ok M N G ?pc (a_lock G a)"
  proof (cases "amtx a G")
    case None
    have "mtx_wf a G" using o(2) by (simp add: awf_def)
    then have "amtxq a G = []" using None by (simp add: mtx_wf_def)
    then have "owner_ok M N G ?pc (a\<lparr>amtx := (amtx a)(G := Some (t, 1))\<rparr>)"
      using o(1) t(1) None by (auto simp: owner_ok_def)
    moreover have "parked_ok M N S G buf ?pc (a\<lparr>amtx := (amtx a)(G := Some (t, 1))\<rparr>)" by (rule parked_mono [OF run]) simp_all
    ultimately show ?thesis using None t by (simp add: a_lock_def)
  next
    case (Some x)
    then obtain u where u: "amtx a G = Some (u, 1)" "u \<noteq> t" using own o(1) by (cases x) (auto simp: owner_ok_def)
    then have al: "a_lock G a = a\<lparr>aready := R, amtxq := (amtxq a)(G := amtxq a G @ [t])\<rparr>" using t by (simp add: a_lock_def)
    have "owner_ok M N G ?pc (a_lock G a)" unfolding al using o(1) u by (auto simp: owner_ok_def)
    then show ?thesis using parked_insert(1) [OF run, of t R] by (simp add: al)
  qed
  then show ?thesis using b c by (simp add: ctl_def)
qed

lemma ctl_unlock:
  assumes c: "ctl M N S G buf pc a" and t: "t \<in> {M, N}" "aready a = t # R" and p: "pc t = Unlock"
    and n: "next = (if t = M then Notify else Waits)"
  shows "\<exists>b. a_unlock G a = Some b \<and> asem b = asem a \<and> asemq b = asemq a \<and> ctl M N S G buf (pc(t := next)) b"
proof -
  have o: "owner_ok M N G pc a" "awf a" "uniq (alist a)" using c by (simp_all add: ctl_def)
  have q: "t \<notin> set (amtxq a G)" using uniq_ready(3) [OF o(3), of t G] t by simp
  have own: "amtx a G = Some (t, 1)" using o(1) t p q by (auto simp: owner_ok_def)
  define b where "b = (case amtxq a G of [] \<Rightarrow> a\<lparr>amtx := (amtx a)(G := None)\<rparr>
    | w # ws \<Rightarrow> a\<lparr>amtx := (amtx a)(G := Some (w, 1)), amtxq := (amtxq a)(G := ws), aready := aready a @ [w]\<rparr>)"
  have al: "a_unlock G a = Some b" using own t by (simp add: a_unlock_def b_def split: list.split)
  have st: "aall b = [M, N] \<and> awf b \<and> uniq (alist b)"
    using ctl_astep [OF c, of "MutexUnlock G" b] al t by (simp add: astep_def acall_def)
  have f: "asleep b = asleep a" "asem b = asem a" "asemq b = asemq a" "\<And>p. set (amtxq b p) \<subseteq> set (amtxq a p)"
    by (auto simp: b_def split: list.split)
  have "parked_ok M N S G buf (pc(t := next)) b" by (rule ctl_running [OF c]) (use t f in simp_all)
  moreover have "owner_ok M N G (pc(t := next)) b"
  proof (cases "amtxq a G")
    case Nil
    then show ?thesis using o(1) own n by (auto simp: owner_ok_def b_def)
  next
    case (Cons w ws)
    have "w \<in> placed a" using Cons by (auto simp: in_placed intro: exI [of _ G])
    then have "w \<in> {M, N}" using c by (auto simp: ctl_def awf_def)
    moreover have "distinct (alist a (QMtx G))" using o(3) unfolding uniq_def by blast
    ultimately show ?thesis using o(1) own n q Cons by (auto simp: owner_ok_def b_def)
  qed
  moreover have "next \<noteq> Waits \<or> t = N" "next \<noteq> Notify \<or> t = M" "next \<noteq> Sleeps" using n t by auto
  ultimately have "ctl M N S G buf (pc(t := next)) b" using st c by (auto simp: ctl_def)
  then show ?thesis using al f by blast
qed

lemma ctl_notify:
  assumes c: "ctl M N S G buf pc a" and t: "aready a = M # R" and p: "pc M = Notify"
  shows "ctl M N S G buf (pc(M := Sleeps)) (a_notify S a)"
proof -
  have f: "asleep (a_notify S a) = asleep a" "\<And>p. set (asemq (a_notify S a) p) \<subseteq> set (asemq a p)"
    "amtxq (a_notify S a) = amtxq a" "amtx (a_notify S a) = amtx a"
    by (auto simp: a_notify_def split: list.split)
  have "parked_ok M N S G buf (pc(M := Sleeps)) (a_notify S a)" by (rule ctl_running [OF c]) (use t f in simp_all)
  moreover have "owner_ok M N G (pc(M := Sleeps)) (a_notify S a)"
    by (rule owner_keep [of M N G pc a]) (use c f p in \<open>simp_all add: ctl_def\<close>)
  moreover have "astep (SemNotify S) a = Some (a_notify S a)" using t by (simp add: astep_def acall_def)
  ultimately show ?thesis using ctl_astep [OF c] c by (auto simp: ctl_def)
qed

lemma ctl_sleep:
  assumes c: "ctl M N S G buf pc a" and t: "aready a = M # R" and p: "pc M = Sleeps"
    and st: "astep (Sleep ms) a = Some b"
  shows "ctl M N S G buf (pc(M := Format)) b"
proof -
  have b: "b = a\<lparr>aready := R, asleep := asleep a @ [(M, spec_ticks (unat ms))]\<rparr>"
    using st t by (simp add: astep_def acall_def a_sleep_def)
  have "parked_ok M N S G buf (pc(M := Format)) a" by (rule ctl_running [OF c]) (use t in simp_all)
  then have "parked_ok M N S G buf (pc(M := Format)) b" unfolding b by (rule parked_insert(3)) simp
  moreover have "owner_ok M N G (pc(M := Format)) b"
    by (rule owner_keep [of M N G pc a]) (use c b p in \<open>simp_all add: ctl_def\<close>)
  ultimately show ?thesis using ctl_astep [OF c st] c by (simp add: ctl_def)
qed

lemma ctl_wait:
  assumes c: "ctl M N S G buf pc a" and t: "aready a = N # R" and p: "pc N = Waits"
  shows "ctl M N S G buf (pc(N := Format)) (a_wait S a)"
proof -
  have run: "parked_ok M N S G buf (pc(N := Format)) a" by (rule ctl_running [OF c]) (use t in simp_all)
  have "parked_ok M N S G buf (pc(N := Format)) (a_wait S a)"
  proof (cases "0 < asem a S")
    case True
    then show ?thesis by (intro parked_mono [OF run]) (simp_all add: a_wait_def)
  next
    case False
    then show ?thesis using parked_insert(2) [OF run, of R] t by (simp add: a_wait_def)
  qed
  moreover have "owner_ok M N G (pc(N := Format)) (a_wait S a)"
    by (rule owner_keep [of M N G pc a]) (use c p in \<open>simp_all add: ctl_def a_wait_def\<close>)
  moreover have "astep (SemWait S) a = Some (a_wait S a)" using t by (simp add: astep_def acall_def)
  ultimately show ?thesis using ctl_astep [OF c] c by (auto simp: ctl_def)
qed

section \<open>Accounting: lines announced and notifications\<close>

definition announcing :: "demo_pc \<Rightarrow> bool" where
  "announcing c \<longleftrightarrow> c = Lock \<or> crit c \<or> c = Notify"

definition acct :: "addr \<Rightarrow> addr \<Rightarrow> addr \<Rightarrow> (addr \<Rightarrow> demo_pc) \<Rightarrow> (addr \<Rightarrow> nat) \<Rightarrow> aspec \<Rightarrow> bool" where
  "acct M N S pc f a \<longleftrightarrow> asem a S + int (f N) + (if pc N = Format \<and> N \<notin> set (asemq a S) then 1 else 0)
     + (if announcing (pc M) then 1 else 0) = int (f M)"

lemma announcing_simps [simp]:
  "announcing Lock" "announcing (Puts p)" "announcing Unlock" "announcing Notify"
  "\<not> announcing Format" "\<not> announcing Sleeps" "\<not> announcing Waits"
  by (simp_all add: announcing_def)

lemma acct_notify:
  assumes c: "ctl M N S G buf pc a" and a: "acct M N S pc f a" and p: "pc M = Notify"
  shows "acct M N S (pc(M := Sleeps)) f (a_notify S a)"
proof (cases "asemq a S")
  case Nil
  then show ?thesis using a p c by (auto simp: acct_def a_notify_def ctl_def)
next
  case (Cons w ws)
  have "w \<in> set (asemq a S)" using Cons by simp
  then have "w = N \<and> pc w = Format" using c unfolding ctl_def parked_ok_def by blast
  then have w: "w = N" "pc N = Format" by auto
  have "distinct (alist a (QSem S))" using c unfolding ctl_def uniq_def by blast
  then have "N \<notin> set ws" using Cons w by simp
  then show ?thesis using a p c w Cons by (auto simp: acct_def a_notify_def ctl_def)
qed

lemma acct_wait:
  assumes c: "ctl M N S G buf pc a" and a: "acct M N S pc f a" and t: "aready a = N # R" and p: "pc N = Waits"
  shows "acct M N S (pc(N := Format)) f (a_wait S a)"
proof -
  have "N \<notin> set (asemq a S)" using uniq_ready(2) [of a N S] c t by (simp add: ctl_def)
  then show ?thesis using a p c t by (auto simp: acct_def a_wait_def ctl_def)
qed

lemma acct_same:
  assumes "acct M N S pc f a" and "asem b = asem a" and "asemq b = asemq a" and "M \<noteq> N"
    and "t = M \<Longrightarrow> announcing c \<longleftrightarrow> announcing (pc M)" and "t = N \<Longrightarrow> c = Format \<longleftrightarrow> pc N = Format"
  shows "acct M N S (pc(t := c)) f b"
  using assms by (auto simp: acct_def)

lemma acct_format:
  assumes c: "ctl M N S G buf pc a" and a: "acct M N S pc f a" and t: "t \<in> {M, N}" "aready a = t # R" and p: "pc t = Format"
  shows "acct M N S (pc(t := Lock)) (f(t := Suc (f t))) a"
proof -
  have "t \<notin> set (asemq a S)" using uniq_ready(2) [of a t S] c t by (simp add: ctl_def)
  then show ?thesis using a p c t by (auto simp: acct_def ctl_def)
qed

section \<open>The lines on the serial port\<close>

definition uart_out :: "io_event list \<Rightarrow> uint8_t list" where
  "uart_out es = concat (map (\<lambda>e. case e of Out p b \<Rightarrow> if p = 0x3F8 then [b] else [] | In p \<Rightarrow> []) es)"

lemma uart_out_simps [simp]: "uart_out [] = []" "uart_out (es @ es') = uart_out es @ uart_out es'"
  "uart_out (In p # es) = uart_out es" "uart_out (Out p b # es) = (if p = 0x3F8 then [b] else []) @ uart_out es"
  by (simp_all add: uart_out_def)

datatype msg = Sent nat | Received nat

fun body :: "msg \<Rightarrow> uint8_t list" where
  "body (Sent i) = map chr ''sending notify: '' @ dec (of_nat i)"
| "body (Received i) = map chr ''recv notify: '' @ dec (of_nat i)"

definition line_text :: "msg \<Rightarrow> uint8_t list" where
  "line_text m = body m @ [13, 10]"

fun sents :: "msg list \<Rightarrow> nat list" where
  "sents [] = []"
| "sents (Sent i # ms) = i # sents ms"
| "sents (Received i # ms) = sents ms"

fun recvs :: "msg list \<Rightarrow> nat list" where
  "recvs [] = []"
| "recvs (Sent i # ms) = recvs ms"
| "recvs (Received i # ms) = i # recvs ms"

lemma sents_append [simp]: "sents (ms @ ns) = sents ms @ sents ns"
  by (induction ms rule: sents.induct) auto

lemma recvs_append [simp]: "recvs (ms @ ns) = recvs ms @ recvs ns"
  by (induction ms rule: recvs.induct) auto

text \<open>The log of a run: both kinds of line are numbered from 0 without gaps, and no line reports a
  notification whose announcement has not been printed before.\<close>

definition causal :: "msg list \<Rightarrow> bool" where
  "causal L \<longleftrightarrow> sents L = [0..<length (sents L)] \<and> recvs L = [0..<length (recvs L)] \<and>
     (\<forall>n. length (recvs (take n L)) \<le> length (sents (take n L)))"

lemma causal_snoc:
  assumes "causal L"
  shows "causal (L @ [Sent (length (sents L))])"
    and "length (recvs L) < length (sents L) \<Longrightarrow> causal (L @ [Received (length (recvs L))])"
proof -
  have a: "length (recvs (take n L)) \<le> length (sents (take n L))" for n using assms by (simp add: causal_def)
  have "take n (L @ [m]) = (if n \<le> length L then take n L else L @ [m])" for n and m :: msg by simp
  then show "causal (L @ [Sent (length (sents L))])"
    "length (recvs L) < length (sents L) \<Longrightarrow> causal (L @ [Received (length (recvs L))])"
    using assms a a [of "length L"] by (simp_all add: causal_def)
qed

section \<open>The invariant of the demonstration\<close>

text \<open>The format literals, and the two local buffers, apart from each other and from the literals.\<close>

definition demo_env :: "(addr \<Rightarrow> addr) \<Rightarrow> kernel \<Rightarrow> bool" where
  "demo_env buf k \<longleftrightarrow> (\<forall>t\<in>{main_task k, new_task k}. unat (buf t) + 160 \<le> 2 ^ 32 \<and>
       string_at (buf t) (symaddr k ''str_sending'') (map chr ''sending notify: %d'') k \<and>
       string_at (buf t) (symaddr k ''str_recv'') (map chr ''recv notify: %d'') k) \<and>
     region (buf (main_task k)) 128 \<inter> region (buf (new_task k)) 128 = {}"

definition msg_of :: "addr \<Rightarrow> addr \<Rightarrow> nat \<Rightarrow> msg" where
  "msg_of M t i = (if t = M then Sent i else Received i)"

definition writing :: "demo_pc \<Rightarrow> bool" where
  "writing c \<longleftrightarrow> c = Lock \<or> (\<exists>p. c = Puts p)"

definition unsent :: "addr \<Rightarrow> (addr \<Rightarrow> addr) \<Rightarrow> (addr \<Rightarrow> demo_pc) \<Rightarrow> (addr \<Rightarrow> nat) \<Rightarrow> addr \<Rightarrow> uint8_t list" where
  "unsent M buf pc f t = (case pc t of Puts p \<Rightarrow> take (unat (p - buf t)) (body (msg_of M t (f t - 1))) | _ \<Rightarrow> [])"

definition text_ok :: "addr \<Rightarrow> addr \<Rightarrow> memory \<Rightarrow> (addr \<Rightarrow> addr) \<Rightarrow> (addr \<Rightarrow> demo_pc) \<Rightarrow> (addr \<Rightarrow> nat) \<Rightarrow> aspec \<Rightarrow> addr \<Rightarrow> bool" where
  "text_ok M G m buf pc f a t \<longleftrightarrow>
     (writing (pc t) \<longrightarrow> 0 < f t \<and> cstr m (buf t) (body (msg_of M t (f t - 1)))) \<and>
     (\<forall>p. pc t = Puts p \<longrightarrow> (\<exists>j\<le>length (body (msg_of M t (f t - 1))). p = buf t + of_nat j) \<and>
        (p \<noteq> buf t \<longrightarrow> amtx a G = Some (t, 1)))"

definition lines_ok :: "addr \<Rightarrow> addr \<Rightarrow> (addr \<Rightarrow> demo_pc) \<Rightarrow> (addr \<Rightarrow> nat) \<Rightarrow> msg list \<Rightarrow> bool" where
  "lines_ok M N pc f L \<longleftrightarrow> causal L \<and> length (sents L) = f M - (if writing (pc M) then 1 else 0) \<and>
     length (recvs L) = f N - (if writing (pc N) then 1 else 0)"

definition dinv :: "nat \<Rightarrow> uint8_t list \<Rightarrow> kernel \<Rightarrow> (addr \<Rightarrow> addr) \<Rightarrow> demo \<Rightarrow> aspec \<Rightarrow> (addr \<Rightarrow> nat) \<Rightarrow> msg list \<Rightarrow> bool" where
  "dinv n out0 k0 buf d a f L \<longleftrightarrow>
     symaddr (dk d) = symaddr k0 \<and> sbuf d = buf \<and> demo_env buf (dk d) \<and>
     sim {notify_sem k0} {cpu_mutex k0, log_mutex k0} a (dk d) \<and>
     ctl (main_task k0) (new_task k0) (notify_sem k0) (log_mutex k0) buf (pc_of d) a \<and>
     acct (main_task k0) (new_task k0) (notify_sem k0) (pc_of d) f a \<and>
     (\<forall>t\<in>{main_task k0, new_task k0}. f t \<le> n \<and> cnt d t = of_nat (f t) \<and>
        text_ok (main_task k0) (log_mutex k0) (mem (dk d)) buf (pc_of d) f a t) \<and>
     lines_ok (main_task k0) (new_task k0) (pc_of d) f L \<and>
     uart_out (io (dk d)) = out0 @ concat (map line_text L) @
       unsent (main_task k0) buf (pc_of d) f (main_task k0) @ unsent (main_task k0) buf (pc_of d) f (new_task k0)"

lemma same_symbols:
  assumes "symaddr k = symaddr k0"
  shows "main_task k = main_task k0" "new_task k = new_task k0" "notify_sem k = notify_sem k0"
    "log_mutex k = log_mutex k0" "cpu_mutex k = cpu_mutex k0"
  using assms by (simp_all add: main_task_def new_task_def notify_sem_def log_mutex_def cpu_mutex_def)

lemma demo_env_outside: "demo_env buf k \<Longrightarrow> mem k' = mem k \<Longrightarrow> symaddr k' = symaddr k \<Longrightarrow> demo_env buf k'"
  using same_symbols [of k' k] by (simp add: demo_env_def string_at_def del: region.simps)

lemma writing_simps [simp]: "writing Lock" "writing (Puts p)" "\<not> writing Format" "\<not> writing Unlock" "\<not> writing Notify"
  "\<not> writing Sleeps" "\<not> writing Waits"
  by (simp_all add: writing_def)

lemma running_ready:
  assumes "sim SS MM a k" and "t \<in> set (aall a)" and "curr_task k = t"
  shows "\<exists>R. aready a = t # R"
proof -
  have "kstatic (live a k) (queues_of SS MM a) k" using simD(1) [OF assms(1)] by (simp add: kinv_def)
  then have "idle_task k \<notin> qset (queues_of SS MM a) LAll" unfolding kstatic_def by blast
  then have "t \<noteq> idle_task k" using assms(2) by (auto simp: qset_def)
  then show ?thesis using simD(3) [OF assms(1)] assms(3) by (cases "aready a") auto
qed

text \<open>A call that blocks or wakes tasks but prints nothing.\<close>

lemma dinv_call:
  assumes d: "dinv n out0 k0 buf d a f L" and k: "outside k' = outside (dk d)"
    and a': "sim {notify_sem k0} {cpu_mutex k0, log_mutex k0} a' k'"
    "ctl (main_task k0) (new_task k0) (notify_sem k0) (log_mutex k0) buf ((pc_of d)(t := c)) a'"
    "acct (main_task k0) (new_task k0) (notify_sem k0) ((pc_of d)(t := c)) f a'"
    and c: "writing c \<longleftrightarrow> writing (pc_of d t)" "\<And>p. c = Puts p \<Longrightarrow> p = buf t" "\<And>p. pc_of d t \<noteq> Puts p"
    and o: "\<And>u. u \<noteq> t \<Longrightarrow> amtx a (log_mutex k0) = Some (u, 1) \<Longrightarrow> amtx a' (log_mutex k0) = Some (u, 1)"
  shows "dinv (Suc n) out0 k0 buf (goto t c k' d) a' f L"
proof -
  let ?M = "main_task k0" and ?N = "new_task k0" and ?G = "log_mutex k0" and ?pc = "(pc_of d)(t := c)"
  have k': "mem k' = mem (dk d)" "symaddr k' = symaddr (dk d)" "io k' = io (dk d)" using k by (simp_all add: outside_def)
  have pc: "pc_of d u = Puts p" "u \<noteq> t" if "?pc u = Puts p" "u \<noteq> t" for u p using that by auto
  have tx: "text_ok ?M ?G (mem k') buf ?pc f a' u" if u: "text_ok ?M ?G (mem (dk d)) buf (pc_of d) f a u" for u
  proof (cases "u = t")
    case True
    then show ?thesis using u c k'(1) by (auto simp: text_ok_def intro: exI [of _ 0])
  next
    case False
    then show ?thesis using u o [of u] k'(1) by (auto simp: text_ok_def)
  qed
  have un: "unsent ?M buf ?pc f u = unsent ?M buf (pc_of d) f u" for u
  proof (cases "u = t")
    case True
    have "unsent ?M buf ?pc f t = []" using c(2) by (cases c) (auto simp: unsent_def)
    moreover have "unsent ?M buf (pc_of d) f t = []" using c(3) by (cases "pc_of d t") (auto simp: unsent_def)
    ultimately show ?thesis using True by simp
  next
    case False
    then show ?thesis by (simp add: unsent_def)
  qed
  have "lines_ok ?M ?N ?pc f L" using d c(1) by (auto simp: dinv_def lines_ok_def)
  moreover have "demo_env buf k'" using d k' demo_env_outside unfolding dinv_def by metis
  ultimately show ?thesis using d a' k' tx un by (auto simp: dinv_def goto_def)
qed

lemma dinv_clock:
  assumes d: "dinv n out0 k0 buf d a f L" and k: "timer_interrupt (dk d) = Some k'"
  shows "dinv (Suc n) out0 k0 buf (d\<lparr>dk := k'\<rparr>) (a_tick a) f L"
proof -
  let ?M = "main_task k0" and ?N = "new_task k0" and ?S = "notify_sem k0" and ?G = "log_mutex k0"
  have d1: "sim {?S} {cpu_mutex k0, ?G} a (dk d)" "ctl ?M ?N ?S ?G buf (pc_of d) a" "demo_env buf (dk d)"
    using d by (simp_all add: dinv_def)
  note o = outside_timer [OF k]
  have "sim {?S} {cpu_mutex k0, ?G} (a_tick a) k'" using sim_tick [OF d1(1)] k by auto
  moreover have "asem (a_tick a) = asem a" "asemq (a_tick a) = asemq a" "amtx (a_tick a) = amtx a"
    by (simp_all add: a_tick_def Let_def)
  moreover have "demo_env buf k'" using demo_env_outside [OF d1(3) o(1,2)] .
  ultimately show ?thesis using d o ctl_tick [OF d1(2)] by (auto simp: dinv_def acct_def text_ok_def)
qed

text \<open>Formatting a line into the local buffer.\<close>

lemma body_facts: "length (body m) \<le> 127" "0 \<notin> set (body m)"
proof -
  have "length (dec v) \<le> 33" for v using itoa_text_len [of 10 v] by (simp add: dec_def itoa_base_ok_def)
  then have "length (dec v) \<le> 100" for v by (rule order_trans) simp
  then show "length (body m) \<le> 127" by (cases m) (simp_all add: order_trans [of _ 100])
  show "0 \<notin> set (body m)" by (cases m) (simp_all add: dec_nonzero chr_def)
qed

lemma demo_formats:
  "fmt_out str (map chr ''sending notify: %d'') [of_nat i] = Some (body (Sent i))"
  "fmt_out str (map chr ''recv notify: %d'') [of_nat i] = Some (body (Received i))"
  "str_args (map chr ''sending notify: %d'') [v] = []" "str_args (map chr ''recv notify: %d'') [v] = []"
  by (simp_all add: dec_def chr_def)

lemma format_writes:
  assumes "demo_env buf k" and "t \<in> {main_task k, new_task k}"
    and "fmt = (if t = main_task k then symaddr k ''str_sending'' else symaddr k ''str_recv'')"
  shows "\<exists>m. kernel_vsprintf (buf t) fmt [of_nat i] (mem k) = Some (Inr m) \<and>
    cstr m (buf t) (body (msg_of (main_task k) t i)) \<and> (\<forall>x. x \<notin> region (buf t) 128 \<longrightarrow> m x = mem k x)"
proof -
  let ?b = "body (msg_of (main_task k) t i)"
  define lit where "lit = (if t = main_task k then ''sending notify: %d'' else ''recv notify: %d'')"
  have out: "fmt_out (\<lambda>a. []) (map chr lit) [of_nat i] = Some ?b" "str_args (map chr lit) [of_nat i] = []"
  proof -
    have "lit = ''sending notify: %d'' \<and> msg_of (main_task k) t i = Sent i \<or>
        lit = ''recv notify: %d'' \<and> msg_of (main_task k) t i = Received i" by (simp add: lit_def msg_of_def)
    then show "fmt_out (\<lambda>a. []) (map chr lit) [of_nat i] = Some ?b" "str_args (map chr lit) [of_nat i] = []"
      by (elim disjE conjE, simp_all only: demo_formats)+
  qed
  have e0: "unat (buf t) + 160 \<le> 2 ^ 32" "string_at (buf t) (symaddr k ''str_sending'') (map chr ''sending notify: %d'') k"
    "string_at (buf t) (symaddr k ''str_recv'') (map chr ''recv notify: %d'') k"
    using assms(1,2) unfolding demo_env_def by blast+
  have e: "unat (buf t) + 160 \<le> 2 ^ 32" "string_at (buf t) fmt (map chr lit) k"
    using e0 unfolding lit_def assms(3) by presburger+
  have len: "length ?b \<le> 127" "0 \<notin> set ?b" by (rule body_facts)+
  have sub: "region (buf t) (Suc (length ?b)) \<subseteq> region (buf t) 128"
    using region_append [of "buf t" "Suc (length ?b)" "127 - length ?b"] len(1) by (auto simp del: region.simps)
  have "region fmt (Suc (length (map chr lit))) \<inter> region (buf t) (Suc (length ?b)) = {}" "cstr (mem k) fmt (map chr lit)"
    using e(2) sub unfolding string_at_def by blast+
  moreover have "unat (buf t) + length ?b + 33 \<le> 2 ^ 32" using e(1) len(1) by linarith
  ultimately have "fmt_ready (\<lambda>a. []) (mem k) fmt (map chr lit) [of_nat i] (buf t) (length ?b)"
    unfolding fmt_ready_def out(2) by simp
  from vsprintf_loop_writes [OF out(1) this] obtain m where
    m: "kernel_vsprintf (buf t) fmt [of_nat i] (mem k) = Some (Inr m)" "writes (mem k) (buf t) (?b @ [0]) m"
    by (auto simp: kernel_vsprintf_def)
  have "cstr m (buf t) ?b" using m(2) len(2) by (simp add: writes_def cstr_def)
  moreover have "\<forall>x. x \<notin> region (buf t) 128 \<longrightarrow> m x = mem k x"
    using m(2) sub unfolding writes_def by (metis length_append_singleton subsetD)
  ultimately show ?thesis using m(1) by blast
qed

lemma string_at_mem:
  assumes "string_at b p bs k" and "\<And>x. x \<notin> A \<Longrightarrow> m x = mem k x" and "region p (Suc (length bs)) \<inter> A = {}"
  shows "string_at b p bs (k\<lparr>mem := m\<rparr>)"
proof -
  have "cstr m p bs \<longleftrightarrow> cstr (mem k) p bs" using assms(2,3) by (intro cstr_cong) blast
  then show ?thesis using assms(1) by (simp add: string_at_def del: region.simps)
qed

lemma demo_env_mem:
  assumes e: "demo_env buf k" and t: "t \<in> {main_task k, new_task k}" and m: "\<And>x. x \<notin> region (buf t) 128 \<Longrightarrow> m x = mem k x"
  shows "demo_env buf (k\<lparr>mem := m\<rparr>)"
proof -
  let ?k = "k\<lparr>mem := m\<rparr>"
  have s: "main_task ?k = main_task k" "new_task ?k = new_task k" "symaddr ?k = symaddr k"
    by (simp_all add: main_task_def new_task_def)
  have "string_at (buf t) (symaddr k ''str_sending'') (map chr ''sending notify: %d'') k"
    "string_at (buf t) (symaddr k ''str_recv'') (map chr ''recv notify: %d'') k"
    using e t unfolding demo_env_def by blast+
  then have d: "region (symaddr k ''str_sending'') (Suc (length (map chr ''sending notify: %d''))) \<inter> region (buf t) 128 = {}"
    "region (symaddr k ''str_recv'') (Suc (length (map chr ''recv notify: %d''))) \<inter> region (buf t) 128 = {}"
    unfolding string_at_def by blast+
  show ?thesis
    using e string_at_mem [OF _ m d(1)] string_at_mem [OF _ m d(2)] unfolding demo_env_def s by blast
qed

lemma dinv_format:
  assumes d: "dinv n out0 k0 buf d a f L" and t: "t \<in> {main_task k0, new_task k0}" "aready a = t # R" "pc_of d t = Format"
    and m: "cstr m (buf t) (body (msg_of (main_task k0) t (f t)))" "\<And>x. x \<notin> region (buf t) 128 \<Longrightarrow> m x = mem (dk d) x"
  shows "dinv (Suc n) out0 k0 buf ((goto t Lock ((dk d)\<lparr>mem := m\<rparr>) d)\<lparr>cnt := (cnt d)(t := cnt d t + 1)\<rparr>) a (f(t := Suc (f t))) L"
proof -
  let ?M = "main_task k0" and ?N = "new_task k0" and ?S = "notify_sem k0" and ?G = "log_mutex k0"
  let ?pc = "(pc_of d)(t := Lock)" and ?f = "f(t := Suc (f t))"
  have d1: "ctl ?M ?N ?S ?G buf (pc_of d) a" "acct ?M ?N ?S (pc_of d) f a" "demo_env buf (dk d)" "symaddr (dk d) = symaddr k0"
    using d by (simp_all add: dinv_def)
  note s = same_symbols [OF d1(4)]
  have env: "demo_env buf ((dk d)\<lparr>mem := m\<rparr>)" using t(1) s by (intro demo_env_mem [OF d1(3) _ m(2)]) simp
  have c: "ctl ?M ?N ?S ?G buf ?pc a" by (rule ctl_local [OF d1(1)]) (use t in simp_all)
  have tx: "text_ok ?M ?G m buf ?pc ?f a u" if u: "u \<in> {?M, ?N}" "text_ok ?M ?G (mem (dk d)) buf (pc_of d) f a u" for u
  proof (cases "u = t")
    case True
    then show ?thesis using m(1) by (simp add: text_ok_def del: body.simps)
  next
    case False
    let ?b = "body (msg_of ?M u (f u - 1))"
    have "region (buf u) 128 \<inter> region (buf t) 128 = {}"
      using d1(3) t(1) u(1) False unfolding demo_env_def s by blast
    moreover have "region (buf u) (Suc (length ?b)) \<subseteq> region (buf u) 128"
      using region_append [of "buf u" "Suc (length ?b)" "127 - length ?b"] body_facts(1) [of "msg_of ?M u (f u - 1)"]
      by (auto simp del: region.simps)
    ultimately have "cstr m (buf u) ?b \<longleftrightarrow> cstr (mem (dk d)) (buf u) ?b" using m(2) by (intro cstr_cong) blast
    then show ?thesis using u(2) False by (simp add: text_ok_def del: body.simps)
  qed
  have un: "unsent ?M buf ?pc ?f u = unsent ?M buf (pc_of d) f u" for u
    using t(3) by (cases "u = t") (simp_all add: unsent_def split: demo_pc.split)
  have "lines_ok ?M ?N ?pc ?f L" using d t(3) by (auto simp: dinv_def lines_ok_def)
  then show ?thesis
    using d env c acct_format [OF d1(1,2) t(1-3)] tx un t by (auto simp: dinv_def goto_def add.commute)
qed

text \<open>The running task that prints owns the mutex, and the other task is not in the middle of a line.\<close>

lemma dinv_printing:
  assumes d: "dinv n out0 k0 buf d a f L" and t: "t \<in> {main_task k0, new_task k0}" "aready a = t # R" "pc_of d t = Puts p"
  shows "amtx a (log_mutex k0) = Some (t, 1)"
    "u \<in> {main_task k0, new_task k0} \<Longrightarrow> u \<noteq> t \<Longrightarrow> unsent (main_task k0) buf (pc_of d) f u = []"
proof -
  let ?M = "main_task k0" and ?N = "new_task k0" and ?G = "log_mutex k0"
  have "uniq (alist a)" "owner_ok ?M ?N ?G (pc_of d) a" using d by (simp_all add: dinv_def ctl_def)
  then show o: "amtx a ?G = Some (t, 1)" using uniq_ready(3) [of a t ?G] t by (auto simp: owner_ok_def)
  show "unsent ?M buf (pc_of d) f u = []" if u: "u \<in> {?M, ?N}" "u \<noteq> t"
  proof -
    have "q = buf u" if "pc_of d u = Puts q" for q using d u o that by (auto simp: dinv_def text_ok_def)
    then show ?thesis by (cases "pc_of d u") (auto simp: unsent_def)
  qed
qed

text \<open>How far the output of the line is: the position in the buffer and in the text.\<close>

lemma dinv_position:
  assumes d: "dinv n out0 k0 buf d a f L" and t: "t \<in> {main_task k0, new_task k0}" "pc_of d t = Puts p"
  shows "\<exists>j\<le>length (body (msg_of (main_task k0) t (f t - 1))). p = buf t + of_nat j \<and> unat (p - buf t) = j \<and> 0 < f t \<and>
    (if j = length (body (msg_of (main_task k0) t (f t - 1))) then mem (dk d) p = 0
     else mem (dk d) p = body (msg_of (main_task k0) t (f t - 1)) ! j \<and> mem (dk d) p \<noteq> 0)"
proof -
  let ?b = "body (msg_of (main_task k0) t (f t - 1))"
  have x: "text_ok (main_task k0) (log_mutex k0) (mem (dk d)) buf (pc_of d) f a t" using d t(1) by (auto simp: dinv_def)
  then obtain j where j: "j \<le> length ?b" "p = buf t + of_nat j" using t(2) by (auto simp: text_ok_def simp del: body.simps)
  have c: "cstr (mem (dk d)) (buf t) ?b" "0 < f t" using x t(2) by (auto simp: text_ok_def simp del: body.simps)
  have "j < 2 ^ 32" using j(1) body_facts(1) [of "msg_of (main_task k0) t (f t - 1)"] by simp
  then have "unat (p - buf t) = j" by (simp add: j(2) unat_of_nat)
  then show ?thesis using j c cstr_nth [OF c(1)] by (intro exI [of _ j]) auto
qed

lemma dinv_put:
  assumes d: "dinv n out0 k0 buf d a f L" and t: "t \<in> {main_task k0, new_task k0}" "aready a = t # R" "pc_of d t = Puts p"
    and b: "mem (dk d) p \<noteq> 0"
  shows "dinv (Suc n) out0 k0 buf (goto t (Puts (p + 1)) ((dk d)\<lparr>io := io (dk d) @ [In 0x3FD, Out 0x3F8 (mem (dk d) p)]\<rparr>) d) a f L"
proof -
  let ?M = "main_task k0" and ?N = "new_task k0" and ?S = "notify_sem k0" and ?G = "log_mutex k0"
  let ?pc = "(pc_of d)(t := Puts (p + 1))" and ?b = "body (msg_of ?M t (f t - 1))"
  let ?k = "(dk d)\<lparr>io := io (dk d) @ [In 0x3FD, Out 0x3F8 (mem (dk d) p)]\<rparr>"
  have d1: "ctl ?M ?N ?S ?G buf (pc_of d) a" "acct ?M ?N ?S (pc_of d) f a" "demo_env buf (dk d)" "?M \<noteq> ?N"
    using d by (simp_all add: dinv_def ctl_def)
  note own = dinv_printing(1) [OF d t] and quiet = dinv_printing(2) [OF d t]
  obtain j where j: "j < length ?b" "p = buf t + of_nat j" "unat (p - buf t) = j" "mem (dk d) p = ?b ! j" "0 < f t"
    using dinv_position [OF d t(1,3)] b by (auto simp: order_le_less split: if_splits simp del: body.simps)
  have p1: "p + 1 = buf t + of_nat (Suc j)" by (simp add: j(2) add.assoc add.commute)
  have "Suc j < 2 ^ 32" using j(1) body_facts(1) [of "msg_of ?M t (f t - 1)"] by simp
  then have u1: "unat (p + 1 - buf t) = Suc j" unfolding p1 add_diff_cancel_left' by (subst unat_of_nat) simp
  have c: "ctl ?M ?N ?S ?G buf ?pc a" by (rule ctl_local [OF d1(1)]) (use t in simp_all)
  have ac: "acct ?M ?N ?S ?pc f a" by (rule acct_same [OF d1(2)]) (use t d1(4) in auto)
  have tx: "text_ok ?M ?G (mem ?k) buf ?pc f a u" if "text_ok ?M ?G (mem (dk d)) buf (pc_of d) f a u" for u
  proof (cases "u = t")
    case True
    have "\<exists>i\<le>length ?b. p + 1 = buf t + of_nat i" using p1 j(1) Suc_leI by blast
    then show ?thesis using that t(3) own True by (simp add: text_ok_def del: body.simps)
  next
    case False
    then show ?thesis using that by (simp add: text_ok_def del: body.simps)
  qed
  have "unsent ?M buf ?pc f t = unsent ?M buf (pc_of d) f t @ [mem (dk d) p]"
    using t(3) j u1 by (simp add: unsent_def take_Suc_conv_app_nth del: body.simps)
  moreover have "unsent ?M buf ?pc f u = unsent ?M buf (pc_of d) f u" if "u \<noteq> t" for u using that by (simp add: unsent_def)
  ultimately have out: "uart_out (io ?k) = out0 @ concat (map line_text L) @ unsent ?M buf ?pc f ?M @ unsent ?M buf ?pc f ?N"
    using d t(1) d1(4) quiet by (cases "t = ?M") (auto simp: dinv_def)
  have "lines_ok ?M ?N ?pc f L" using d t(3) by (auto simp: dinv_def lines_ok_def)
  moreover have "demo_env buf ?k" by (rule demo_env_outside [OF d1(3)]) simp_all
  ultimately show ?thesis using d c ac tx out by (auto simp: dinv_def goto_def)
qed

lemma dinv_end:
  assumes d: "dinv n out0 k0 buf d a f L" and t: "t \<in> {main_task k0, new_task k0}" "aready a = t # R" "pc_of d t = Puts p"
    and b: "mem (dk d) p = 0"
  shows "dinv (Suc n) out0 k0 buf (goto t Unlock ((dk d)\<lparr>io := io (dk d) @ [Out 0x3F8 13, Out 0x3F8 10]\<rparr>) d) a f
    (L @ [msg_of (main_task k0) t (f t - 1)])"
proof -
  let ?M = "main_task k0" and ?N = "new_task k0" and ?S = "notify_sem k0" and ?G = "log_mutex k0"
  let ?pc = "(pc_of d)(t := Unlock)" and ?m = "msg_of ?M t (f t - 1)"
  let ?k = "(dk d)\<lparr>io := io (dk d) @ [Out 0x3F8 13, Out 0x3F8 10]\<rparr>"
  have d1: "ctl ?M ?N ?S ?G buf (pc_of d) a" "acct ?M ?N ?S (pc_of d) f a" "demo_env buf (dk d)" "?M \<noteq> ?N"
    "lines_ok ?M ?N (pc_of d) f L" "awf a"
    using d by (simp_all add: dinv_def ctl_def)
  note quiet = dinv_printing(2) [OF d t]
  have j: "unat (p - buf t) = length (body ?m)" "0 < f t"
    using dinv_position [OF d t(1,3)] b by (auto split: if_splits simp del: body.simps)
  have c: "ctl ?M ?N ?S ?G buf ?pc a" by (rule ctl_local [OF d1(1)]) (use t in simp_all)
  have ac: "acct ?M ?N ?S ?pc f a" by (rule acct_same [OF d1(2)]) (use t d1(4) in auto)
  have tx: "text_ok ?M ?G (mem ?k) buf ?pc f a u" if "text_ok ?M ?G (mem (dk d)) buf (pc_of d) f a u" for u
    using that by (cases "u = t") (simp_all add: text_ok_def del: body.simps)
  have "unsent ?M buf ?pc f t = []" "unsent ?M buf (pc_of d) f t = body ?m" "line_text ?m = body ?m @ [13, 10]"
    using t(3) j by (simp_all add: unsent_def line_text_def del: body.simps)
  moreover have "unsent ?M buf ?pc f u = unsent ?M buf (pc_of d) f u" if "u \<noteq> t" for u using that by (simp add: unsent_def)
  ultimately have out: "uart_out (io ?k) = out0 @ concat (map line_text (L @ [?m])) @ unsent ?M buf ?pc f ?M @ unsent ?M buf ?pc f ?N"
    using d t(1) d1(4) quiet by (cases "t = ?M") (auto simp: dinv_def)
  have l: "causal L" "length (sents L) = f ?M - (if writing (pc_of d ?M) then 1 else 0)"
    "length (recvs L) = f ?N - (if writing (pc_of d ?N) then 1 else 0)" using d1(5) by (simp_all add: lines_ok_def)
  have "lines_ok ?M ?N ?pc f (L @ [?m])"
  proof (cases "t = ?M")
    case True
    then have "?m = Sent (length (sents L))" using l(2) t(3) by (simp add: msg_of_def)
    then show ?thesis using causal_snoc(1) [OF l(1)] l True d1(4) t(3) j(2) by (simp add: lines_ok_def)
  next
    case False
    then have tn: "t = ?N" "?m = Received (length (recvs L))" using l(3) t(1,3) by (simp_all add: msg_of_def)
    have "0 \<le> asem a ?S" using d1(6) by (simp add: awf_def sem_wf_def)
    then have "int (f ?N) + (if announcing (pc_of d ?M) then 1 else 0) \<le> int (f ?M)" using d1(2) unfolding acct_def by (auto split: if_splits)
    then have "length (recvs L) < length (sents L)"
      using l(2,3) t(3) tn j(2) by (auto simp: announcing_def writing_def crit_def split: if_splits)
    then show ?thesis using causal_snoc(2) [OF l(1)] l tn d1(4) t(3) j(2) by (simp add: lines_ok_def)
  qed
  moreover have "demo_env buf ?k" by (rule demo_env_outside [OF d1(3)]) simp_all
  ultimately show ?thesis using d c ac tx out by (auto simp: dinv_def goto_def)
qed

section \<open>Every step keeps the invariant, and every step can be taken\<close>

definition fmt_of :: "kernel \<Rightarrow> addr \<Rightarrow> addr" where
  "fmt_of k t = (if t = main_task k then symaddr k ''str_sending'' else symaddr k ''str_recv'')"

text \<open>What one step of a task does to its place in the code, to the specification state, to the numbers of lines
  formatted and to the lines printed.\<close>

definition task_change :: "kernel \<Rightarrow> (addr \<Rightarrow> addr) \<Rightarrow> addr \<Rightarrow> demo_pc \<Rightarrow> demo_pc \<Rightarrow>
    aspec \<times> (addr \<Rightarrow> nat) \<times> msg list \<Rightarrow> aspec \<times> (addr \<Rightarrow> nat) \<times> msg list \<Rightarrow> bool" where
  "task_change k0 buf t c c' v v' = (case v of (a, f, L) \<Rightarrow> (case c of
      Format \<Rightarrow> c' = Lock \<and> v' = (a, f(t := Suc (f t)), L)
    | Lock \<Rightarrow> c' = Puts (buf t) \<and> v' = (a_lock (log_mutex k0) a, f, L)
    | Puts p \<Rightarrow> c' = Puts (p + 1) \<and> v' = (a, f, L) \<or> c' = Unlock \<and> v' = (a, f, L @ [msg_of (main_task k0) t (f t - 1)])
    | Unlock \<Rightarrow> c' = (if t = main_task k0 then Notify else Waits) \<and>
        (\<exists>b. a_unlock (log_mutex k0) a = Some b \<and> v' = (b, f, L))
    | Notify \<Rightarrow> c' = Sleeps \<and> v' = (a_notify (notify_sem k0) a, f, L)
    | Sleeps \<Rightarrow> c' = Format \<and> v' = (a_sleep (spec_ticks (unat (1000 :: uint32_t))) a, f, L)
    | Waits \<Rightarrow> c' = Format \<and> v' = (a_wait (notify_sem k0) a, f, L)))"

definition task_stepped :: "kernel \<Rightarrow> (addr \<Rightarrow> addr) \<Rightarrow> addr \<Rightarrow> demo \<Rightarrow> demo \<Rightarrow>
    aspec \<times> (addr \<Rightarrow> nat) \<times> msg list \<Rightarrow> aspec \<times> (addr \<Rightarrow> nat) \<times> msg list \<Rightarrow> bool" where
  "task_stepped k0 buf t d d' v v' \<longleftrightarrow> pc_of d' = (pc_of d)(t := pc_of d' t) \<and>
     task_change k0 buf t (pc_of d t) (pc_of d' t) v v'"

lemma task_stepped_goto:
  "task_change k0 buf t (pc_of d t) c v v' \<Longrightarrow> task_stepped k0 buf t d (goto t c k d) v v'"
  "task_change k0 buf t (pc_of d t) c v v' \<Longrightarrow> task_stepped k0 buf t d ((goto t c k d)\<lparr>cnt := n\<rparr>) v v'"
  by (simp_all add: task_stepped_def goto_def)

lemma lock_steps:
  assumes d: "dinv n out0 k0 buf d a f L" and t: "t \<in> {main_task k0, new_task k0}" "aready a = t # R" "pc_of d t = Lock"
  shows "dinv (Suc n) out0 k0 buf (goto t (Puts (buf t)) (rein_mutex_lock (log_mutex k0) (dk d)) d) (a_lock (log_mutex k0) a) f L"
proof -
  let ?M = "main_task k0" and ?N = "new_task k0" and ?S = "notify_sem k0" and ?G = "log_mutex k0"
  have d1: "sim {?S} {cpu_mutex k0, ?G} a (dk d)" "ctl ?M ?N ?S ?G buf (pc_of d) a" "acct ?M ?N ?S (pc_of d) f a"
    using d by (simp_all add: dinv_def)
  have "n' = 1" if "amtx a ?G = Some (u, n')" for u n' using d1(2) that by (auto simp: ctl_def owner_ok_def)
  then have "sint (locker (mutexes (dk d) ?G)) < 2 ^ 31 - 1"
    using sim_mtx [OF d1(1), of ?G] by (auto simp: mtx_rel_def split: option.splits)
  then have s: "sim {?S} {cpu_mutex k0, ?G} (a_lock ?G a) (rein_mutex_lock ?G (dk d))"
    using t(2) by (intro sim_lock [OF d1(1)]) simp_all
  have f: "asem (a_lock ?G a) = asem a" "asemq (a_lock ?G a) = asemq a"
    by (simp_all add: a_lock_def split: option.split prod.split)
  show ?thesis
  proof (rule dinv_call [OF d _ s ctl_lock [OF d1(2) t]])
    show "acct ?M ?N ?S ((pc_of d)(t := Puts (buf t))) f (a_lock ?G a)"
      by (rule acct_same [OF d1(3) f]) (use t d1(2) in \<open>auto simp: ctl_def\<close>)
    show "amtx (a_lock ?G a) ?G = Some (u, 1)" if "u \<noteq> t" "amtx a ?G = Some (u, 1)" for u
      using that t(2) by (simp add: a_lock_def)
  qed (use t(3) in simp_all)
qed

lemma unlock_steps:
  assumes d: "dinv n out0 k0 buf d a f L" and t: "t \<in> {main_task k0, new_task k0}" "aready a = t # R" "pc_of d t = Unlock"
    and nx: "next = (if t = main_task k0 then Notify else Waits)"
  shows "\<exists>k' b. rein_mutex_unlock (log_mutex k0) (dk d) = Inr k' \<and> a_unlock (log_mutex k0) a = Some b \<and>
    dinv (Suc n) out0 k0 buf (goto t next k' d) b f L"
proof -
  let ?M = "main_task k0" and ?N = "new_task k0" and ?S = "notify_sem k0" and ?G = "log_mutex k0"
  have d1: "sim {?S} {cpu_mutex k0, ?G} a (dk d)" "ctl ?M ?N ?S ?G buf (pc_of d) a" "acct ?M ?N ?S (pc_of d) f a"
    using d by (simp_all add: dinv_def)
  obtain b where b: "a_unlock ?G a = Some b" "asem b = asem a" "asemq b = asemq a" "ctl ?M ?N ?S ?G buf ((pc_of d)(t := next)) b"
    using ctl_unlock [OF d1(2) t nx] by blast
  have "astep (MutexUnlock ?G) a = Some b" using b(1) t(2) by (simp add: astep_def acall_def)
  moreover have "allowed {?S} {cpu_mutex k0, ?G} (MutexUnlock ?G) (dk d)"
    using simD(4) [OF d1(1)] t(2) by (simp add: allowed_def)
  ultimately obtain k' where "kexec (MutexUnlock ?G) (dk d) = Some k'" and k: "sim {?S} {cpu_mutex k0, ?G} b k'"
    using kexec_refines [OF d1(1)] by fastforce
  then have u: "rein_mutex_unlock ?G (dk d) = Inr k'" by (simp add: kexec_def split: sum.splits)
  have o: "u = t" if "amtx a ?G = Some (u, 1)" for u
    using b(1) t(2) that by (simp add: a_unlock_def split: if_splits)
  have nf: "next \<noteq> Format" "\<not> writing next" "\<And>p. next \<noteq> Puts p" "t = ?M \<Longrightarrow> announcing next" by (simp_all add: nx)
  have "dinv (Suc n) out0 k0 buf (goto t next k' d) b f L"
  proof (rule dinv_call [OF d outside_unlock [OF u] k b(4)])
    show "acct ?M ?N ?S ((pc_of d)(t := next)) f b"
      by (rule acct_same [OF d1(3) b(2,3)]) (use t(3) d1(2) nf in \<open>auto simp: ctl_def\<close>)
  qed (use t(3) o nf in auto)
  then show ?thesis using u b(1) by blast
qed

text \<open>The steps of a line.\<close>

lemma print_steps:
  assumes d: "dinv n out0 k0 buf d a f L" and t: "t \<in> {main_task k0, new_task k0}" "aready a = t # R"
    and pc: "pc_of d t \<in> {Format, Lock, Unlock} \<or> (\<exists>p. pc_of d t = Puts p)"
    and nx: "next = (if t = main_task k0 then Notify else Waits)"
  shows "\<exists>d' a' f' L'. print_step t (fmt_of (dk d) t) next d = Some d' \<and> dinv (Suc n) out0 k0 buf d' a' f' L' \<and>
    task_stepped k0 buf t d d' (a, f, L) (a', f', L')"
proof -
  have sy: "symaddr (dk d) = symaddr k0" "sbuf d = buf" "demo_env buf (dk d)" "cnt d t = of_nat (f t)"
    using d t(1) by (auto simp: dinv_def)
  note s = same_symbols [OF sy(1)]
  consider "pc_of d t = Format" | "pc_of d t = Lock" | p where "pc_of d t = Puts p" | "pc_of d t = Unlock" using pc by blast
  then show ?thesis
  proof cases
    case 1
    have tk: "t \<in> {main_task (dk d), new_task (dk d)}" using t(1) s by simp
    obtain m where m: "kernel_vsprintf (buf t) (fmt_of (dk d) t) [of_nat (f t)] (mem (dk d)) = Some (Inr m)"
      "cstr m (buf t) (body (msg_of (main_task k0) t (f t)))" "\<forall>x. x \<notin> region (buf t) 128 \<longrightarrow> m x = mem (dk d) x"
      using format_writes [OF sy(3) tk fmt_of_def, of "f t"] unfolding s by blast
    have "print_step t (fmt_of (dk d) t) next d =
        Some ((goto t Lock ((dk d)\<lparr>mem := m\<rparr>) d)\<lparr>cnt := (cnt d)(t := cnt d t + 1)\<rparr>)"
      using 1 m(1) sy by (simp add: print_step_def)
    moreover have "task_change k0 buf t (pc_of d t) Lock (a, f, L) (a, f(t := Suc (f t)), L)" using 1 by (simp add: task_change_def)
    ultimately show ?thesis using dinv_format [OF d t 1 m(2)] m(3) task_stepped_goto(2) by blast
  next
    case 2
    have "task_change k0 buf t (pc_of d t) (Puts (buf t)) (a, f, L) (a_lock (log_mutex k0) a, f, L)"
      using 2 by (simp add: task_change_def)
    moreover have "print_step t (fmt_of (dk d) t) next d = Some (goto t (Puts (buf t)) (rein_mutex_lock (log_mutex k0) (dk d)) d)"
      using 2 sy s by (simp add: print_step_def)
    ultimately show ?thesis using lock_steps [OF d t 2] task_stepped_goto(1) by blast
  next
    case 3
    show ?thesis
    proof (cases "mem (dk d) p = 0")
      case True
      let ?k = "(dk d)\<lparr>io := io (dk d) @ [Out 0x3F8 13, Out 0x3F8 10]\<rparr>" and ?m = "msg_of (main_task k0) t (f t - 1)"
      have "task_change k0 buf t (pc_of d t) Unlock (a, f, L) (a, f, L @ [?m])" using 3 by (simp add: task_change_def)
      moreover have "print_step t (fmt_of (dk d) t) next d = Some (goto t Unlock ?k d)"
        using True 3 by (simp add: print_step_def put_step_def outb_def COM1_PORT_def chr_def Let_def)
      ultimately show ?thesis using dinv_end [OF d t 3 True] task_stepped_goto(1) by blast
    next
      case False
      let ?k = "(dk d)\<lparr>io := io (dk d) @ [In 0x3FD, Out 0x3F8 (mem (dk d) p)]\<rparr>"
      have "task_change k0 buf t (pc_of d t) (Puts (p + 1)) (a, f, L) (a, f, L)" using 3 by (simp add: task_change_def)
      moreover have "print_step t (fmt_of (dk d) t) next d = Some (goto t (Puts (p + 1)) ?k d)"
        using False 3 by (simp add: print_step_def put_step_def uart_wait_once outb_def COM1_PORT_def Let_def)
      ultimately show ?thesis using dinv_put [OF d t 3 False] task_stepped_goto(1) by blast
    qed
  next
    case 4
    obtain k' b where u: "rein_mutex_unlock (log_mutex k0) (dk d) = Inr k'" "a_unlock (log_mutex k0) a = Some b"
      "dinv (Suc n) out0 k0 buf (goto t next k' d) b f L"
      using unlock_steps [OF d t 4 nx] by blast
    then have "print_step t (fmt_of (dk d) t) next d = Some (goto t next k' d)" using 4 s by (simp add: print_step_def)
    moreover have "task_change k0 buf t (pc_of d t) next (a, f, L) (b, f, L)" using 4 u(2) nx by (simp add: task_change_def)
    ultimately show ?thesis using u(3) task_stepped_goto(1) by blast
  qed
qed

lemma main_steps:
  assumes d: "dinv n out0 k0 buf d a f L" and n: "n < 2 ^ 31 - 1" and t: "aready a = main_task k0 # R"
  shows "\<exists>d' a' f' L'. init_main_loop d = Some d' \<and> dinv (Suc n) out0 k0 buf d' a' f' L' \<and>
    task_stepped k0 buf (main_task k0) d d' (a, f, L) (a', f', L')"
proof -
  let ?M = "main_task k0" and ?N = "new_task k0" and ?S = "notify_sem k0" and ?G = "log_mutex k0"
  have d1: "sim {?S} {cpu_mutex k0, ?G} a (dk d)" "ctl ?M ?N ?S ?G buf (pc_of d) a" "acct ?M ?N ?S (pc_of d) f a"
    "symaddr (dk d) = symaddr k0" "f ?M \<le> n" "?M \<noteq> ?N" using d by (auto simp: dinv_def ctl_def)
  note s = same_symbols [OF d1(4)]
  consider "pc_of d ?M = Notify" | "pc_of d ?M = Sleeps" | "pc_of d ?M \<in> {Format, Lock, Unlock} \<or> (\<exists>p. pc_of d ?M = Puts p)"
    using d1(2) by (cases "pc_of d ?M") (auto simp: ctl_def)
  then show ?thesis
  proof cases
    case 1
    have "asem a ?S \<le> int (f ?M)" using d1(3) by (auto simp: acct_def split: if_splits)
    then have "sint (sem_cnt (sems (dk d) ?S)) < 2 ^ 31 - 1" using simD(2) [OF d1(1)] d1(5) n by (auto simp: data_rel_def)
    then have k: "sim {?S} {cpu_mutex k0, ?G} (a_notify ?S a) (sem_notify ?S (dk d))" using t by (intro sim_notify [OF d1(1)]) simp_all
    have "dinv (Suc n) out0 k0 buf (goto ?M Sleeps (sem_notify ?S (dk d)) d) (a_notify ?S a) f L"
      by (rule dinv_call [OF d _ k ctl_notify [OF d1(2) t 1] acct_notify [OF d1(2,3) 1]])
        (use 1 in \<open>auto simp: a_notify_def split: list.splits\<close>)
    moreover have "init_main_loop d = Some (goto ?M Sleeps (sem_notify ?S (dk d)) d)" using 1 s by (simp add: init_main_loop_def)
    moreover have "task_change k0 buf ?M (pc_of d ?M) Sleeps (a, f, L) (a_notify ?S a, f, L)" using 1 by (simp add: task_change_def)
    ultimately show ?thesis using task_stepped_goto(1) by blast
  next
    case 2
    let ?b = "a_sleep (spec_ticks (unat (1000 :: uint32_t))) a"
    have st: "astep (Sleep 1000) a = Some ?b" using t by (simp add: astep_def acall_def)
    have k: "sim {?S} {cpu_mutex k0, ?G} ?b (sys_sleep 1000 (dk d))" using sim_sleep [OF d1(1), of 1000] t by simp
    have ac: "acct ?M ?N ?S ((pc_of d)(?M := Format)) f ?b"
      by (rule acct_same [OF d1(3)]) (use 2 d1(6) in \<open>auto simp: a_sleep_def\<close>)
    have "dinv (Suc n) out0 k0 buf (goto ?M Format (sys_sleep 1000 (dk d)) d) ?b f L"
      by (rule dinv_call [OF d _ k ctl_sleep [OF d1(2) t 2 st] ac]) (use 2 in \<open>auto simp: a_sleep_def\<close>)
    moreover have "init_main_loop d = Some (goto ?M Format (sys_sleep 1000 (dk d)) d)" using 2 s by (simp add: init_main_loop_def)
    moreover have "task_change k0 buf ?M (pc_of d ?M) Format (a, f, L) (?b, f, L)" using 2 by (simp add: task_change_def)
    ultimately show ?thesis using task_stepped_goto(1) by blast
  next
    case 3
    have "init_main_loop d = print_step ?M (fmt_of (dk d) ?M) Notify d"
      using 3 s by (auto simp: init_main_loop_def fmt_of_def Let_def)
    then show ?thesis using print_steps [OF d _ t 3 refl] by simp
  qed
qed

lemma new_steps:
  assumes d: "dinv n out0 k0 buf d a f L" and t: "aready a = new_task k0 # R"
  shows "\<exists>d' a' f' L'. new_task_entry d = Some d' \<and> dinv (Suc n) out0 k0 buf d' a' f' L' \<and>
    task_stepped k0 buf (new_task k0) d d' (a, f, L) (a', f', L')"
proof -
  let ?M = "main_task k0" and ?N = "new_task k0" and ?S = "notify_sem k0" and ?G = "log_mutex k0"
  have d1: "sim {?S} {cpu_mutex k0, ?G} a (dk d)" "ctl ?M ?N ?S ?G buf (pc_of d) a" "acct ?M ?N ?S (pc_of d) f a"
    "symaddr (dk d) = symaddr k0" "?M \<noteq> ?N" using d by (auto simp: dinv_def ctl_def)
  note s = same_symbols [OF d1(4)]
  consider "pc_of d ?N = Waits" | "pc_of d ?N \<in> {Format, Lock, Unlock} \<or> (\<exists>p. pc_of d ?N = Puts p)"
    using d1(2) by (cases "pc_of d ?N") (auto simp: ctl_def)
  then show ?thesis
  proof cases
    case 1
    have k: "sim {?S} {cpu_mutex k0, ?G} (a_wait ?S a) (sem_wait ?S (dk d))" using t by (intro sim_wait [OF d1(1)]) simp_all
    have "dinv (Suc n) out0 k0 buf (goto ?N Format (sem_wait ?S (dk d)) d) (a_wait ?S a) f L"
      by (rule dinv_call [OF d _ k ctl_wait [OF d1(2) t 1] acct_wait [OF d1(2,3) t 1]])
        (use 1 in \<open>auto simp: a_wait_def\<close>)
    moreover have "new_task_entry d = Some (goto ?N Format (sem_wait ?S (dk d)) d)" using 1 s by (simp add: new_task_entry_def)
    moreover have "task_change k0 buf ?N (pc_of d ?N) Format (a, f, L) (a_wait ?S a, f, L)" using 1 by (simp add: task_change_def)
    ultimately show ?thesis using task_stepped_goto(1) by blast
  next
    case 2
    have "new_task_entry d = print_step ?N (fmt_of (dk d) ?N) Waits d"
      using 2 s d1(5) by (auto simp: new_task_entry_def fmt_of_def Let_def)
    moreover have "Waits = (if ?N = ?M then Notify else Waits)" using d1(5) by simp
    ultimately show ?thesis using print_steps [OF d _ t 2] by simp
  qed
qed

text \<open>A step of the system, by one of the tasks or by the clock.\<close>

lemma demo_step_changes:
  assumes d: "dinv n out0 k0 buf d a f L" and n: "n < 2 ^ 31 - 1" and st: "demo_step d w d'"
  shows "\<exists>a' f' L'. dinv (Suc n) out0 k0 buf d' a' f' L' \<and>
    (if w = Clock then pc_of d' = pc_of d \<and> a' = a_tick a \<and> f' = f \<and> L' = L
     else let t = (if w = Main then main_task k0 else new_task k0)
       in aready a \<noteq> [] \<and> hd (aready a) = t \<and> task_stepped k0 buf t d d' (a, f, L) (a', f', L'))"
proof -
  have d1: "sim {notify_sem k0} {cpu_mutex k0, log_mutex k0} a (dk d)" "aall a = [main_task k0, new_task k0]"
    "symaddr (dk d) = symaddr k0" using d by (auto simp: dinv_def ctl_def)
  note s = same_symbols [OF d1(3)]
  have R: "\<exists>R. aready a = t # R" if "curr_task (dk d) = t" "t \<in> {main_task k0, new_task k0}" for t
    using running_ready [OF d1(1) _ that(1)] that(2) d1(2) by simp
  show ?thesis
    using st
  proof cases
    case 1
    then obtain R where "aready a = main_task k0 # R" using R [OF _ insertI1] s(1) by metis
    with main_steps [OF d n this] 1 show ?thesis by auto
  next
    case 2
    have "new_task k0 \<in> {main_task k0, new_task k0}" by simp
    then obtain R where "aready a = new_task k0 # R" using 2 R s(2) by metis
    with new_steps [OF d this] 2 show ?thesis by auto
  next
    case (3 k)
    then show ?thesis using dinv_clock [OF d, of k] by auto
  qed
qed

lemma demo_step_dinv:
  assumes "dinv n out0 k0 buf d a f L" and "n < 2 ^ 31 - 1" and "demo_step d w d'"
  shows "\<exists>a' f' L'. dinv (Suc n) out0 k0 buf d' a' f' L'"
  using demo_step_changes [OF assms] by blast

lemma demo_run_dinv:
  "run demo_step d ws d' \<Longrightarrow> dinv n out0 k0 buf d a f L \<Longrightarrow> n + length ws < 2 ^ 31 \<Longrightarrow>
    \<exists>a' f' L'. dinv (n + length ws) out0 k0 buf d' a' f' L'"
proof (induction arbitrary: n a f L rule: run.induct)
  case (run_Cons d w d1 ws d2)
  obtain a1 f1 L1 where "dinv (Suc n) out0 k0 buf d1 a1 f1 L1"
    using demo_step_dinv [OF run_Cons.prems(1) _ run_Cons.hyps(1)] run_Cons.prems(2) by auto
  from run_Cons.IH [OF this] run_Cons.prems(2) show ?case by simp
qed auto

text \<open>Two local buffers that overlap neither each other nor the formats.\<close>

definition demo_bufs :: "(addr \<Rightarrow> addr) \<Rightarrow> kernel \<Rightarrow> bool" where
  "demo_bufs buf s \<longleftrightarrow> (\<forall>t\<in>{main_task s, new_task s}. unat (buf t) + 160 \<le> 2 ^ 32 \<and>
       region (symaddr s ''str_sending'') 33 \<inter> region (buf t) 128 = {} \<and>
       region (symaddr s ''str_recv'') 33 \<inter> region (buf t) 128 = {}) \<and>
     region (buf (main_task s)) 128 \<inter> region (buf (new_task s)) 128 = {}"

lemma demo_bufs_env:
  assumes "boot_ok s" and "boot s = Done () k" and b: "demo_bufs buf s"
  shows "demo_env buf k"
proof -
  have k: "symaddr k = symaddr s" "boot_literals k"
    using boot_ready [OF assms(1)] assms(2) by (auto simp: booting_def)
  note s = same_symbols [OF k(1)]
  have at: "string_at p (symaddr k n) (map chr lit) k"
    if "literal_at k n lit" "length lit \<le> 32" "region (symaddr s n) 33 \<inter> region p 128 = {}" for p n lit
  proof -
    have "region (symaddr k n) (Suc (length (map chr lit))) \<subseteq> region (symaddr s n) 33"
      unfolding k(1) using that(2) by (intro region_mono) simp
    then show ?thesis using that(1,3) unfolding string_at_def literal_at_def by blast
  qed
  have l: "literal_at k ''str_sending'' ''sending notify: %d''" "literal_at k ''str_recv'' ''recv notify: %d''"
    using k(2) by (simp_all add: boot_literals_def)
  have len: "length ''sending notify: %d'' \<le> 32" "length ''recv notify: %d'' \<le> 32" by simp_all
  show ?thesis
    using b at [OF l(1) len(1)] at [OF l(2) len(2)] unfolding demo_env_def demo_bufs_def s by blast
qed

lemma dinv_start:
  assumes ok: "boot_ok s" and b: "boot s = Done () k" and e: "demo_env buf k"
  shows "dinv 0 (uart_out (io k)) k buf (demo_start buf k) (boot_spec s) (\<lambda>t. 0) []"
proof -
  have k: "sim {notify_sem s} {cpu_mutex s, log_mutex s} (boot_spec s) k" "symaddr k = symaddr s"
    using boot_ready [OF ok] b by auto
  note s = same_symbols [OF k(2)]
  have ne: "main_task s \<noteq> new_task s" using ok by (simp add: boot_ok_def)
  let ?pc = "\<lambda>t. if t = main_task s then Format else Waits"
  have "ctl (main_task s) (new_task s) (notify_sem s) (log_mutex s) buf ?pc (boot_spec s)"
    using sim_wf [OF k(1)] ne by (simp add: ctl_def parked_ok_def owner_ok_def boot_spec_def)
  moreover have "acct (main_task s) (new_task s) (notify_sem s) ?pc (\<lambda>t. 0) (boot_spec s)"
    using ne by (simp add: acct_def boot_spec_def)
  ultimately show ?thesis
    using k(1) e ne by (auto simp: dinv_def demo_start_def s text_ok_def lines_ok_def causal_def unsent_def)
qed

lemma demo_reach:
  assumes "boot_ok s" and "boot s = Done () k" and "demo_bufs buf s" and "run demo_step (demo_start buf k) ws d" and "length ws < 2 ^ 31"
  shows "\<exists>a f L. dinv (length ws) (uart_out (io k)) k buf d a f L"
  using demo_run_dinv [OF assms(4) dinv_start [OF assms(1,2) demo_bufs_env [OF assms(1-3)]]] assms(5) by simp

text \<open>What is on the port after the last complete line is the start of the next line of one task.\<close>

lemma dinv_output:
  assumes d: "dinv n out0 k0 buf d a f L"
  shows "\<exists>m j. m \<in> {Sent (length (sents L)), Received (length (recvs L))} \<and>
    uart_out (io (dk d)) = out0 @ concat (map line_text L) @ take j (body m)"
proof -
  let ?M = "main_task k0" and ?N = "new_task k0" and ?u = "unsent (main_task k0) buf (pc_of d) f"
  have l: "length (sents L) = f ?M - (if writing (pc_of d ?M) then 1 else 0)"
    "length (recvs L) = f ?N - (if writing (pc_of d ?N) then 1 else 0)" "?M \<noteq> ?N"
    using d by (simp_all add: dinv_def lines_ok_def ctl_def)
  have M: "?u ?M = [] \<or> amtx a (log_mutex k0) = Some (?M, 1) \<and> (\<exists>j. ?u ?M = take j (body (Sent (length (sents L)))))"
    using d l(1) by (cases "pc_of d ?M") (auto simp: unsent_def dinv_def text_ok_def msg_of_def simp del: body.simps)
  have N: "?u ?N = [] \<or> amtx a (log_mutex k0) = Some (?N, 1) \<and> (\<exists>j. ?u ?N = take j (body (Received (length (recvs L)))))"
    using d l(2,3) by (cases "pc_of d ?N") (auto simp: unsent_def dinv_def text_ok_def msg_of_def simp del: body.simps)
  have out: "uart_out (io (dk d)) = out0 @ concat (map line_text L) @ ?u ?M @ ?u ?N" using d by (simp add: dinv_def)
  consider "?u ?M = []" "?u ?N = []" | "?u ?N = []" "?u ?M \<noteq> []" | "?u ?M = []" "?u ?N \<noteq> []" using M N l(3) by auto
  then show ?thesis
  proof cases
    case 1
    then show ?thesis using out by (intro exI [of _ "Sent (length (sents L))"] exI [of _ 0]) simp
  next
    case 2
    then obtain j where "?u ?M = take j (body (Sent (length (sents L))))" using M by blast
    then show ?thesis using out 2 by (intro exI [of _ "Sent (length (sents L))"] exI [of _ j]) (simp del: body.simps)
  next
    case 3
    then obtain j where "?u ?N = take j (body (Received (length (recvs L))))" using N by blast
    then show ?thesis using out 3 by (intro exI [of _ "Received (length (recvs L))"] exI [of _ j]) (simp del: body.simps)
  qed
qed

text \<open>In every state reached some step can be taken.\<close>

lemma demo_enabled:
  assumes "boot_ok s" and "boot s = Done () k" and "demo_bufs buf s"
    and "run demo_step (demo_start buf k) ws d" and "length ws < 2 ^ 31 - 1"
  shows "(\<exists>d'. demo_step d Clock d') \<and>
    (curr_task (dk d) = main_task (dk d) \<and> (\<exists>d'. demo_step d Main d') \<or>
     curr_task (dk d) = new_task (dk d) \<and> (\<exists>d'. demo_step d New d') \<or> curr_task (dk d) = idle_task (dk d))"
proof -
  obtain a f L where d: "dinv (length ws) (uart_out (io k)) k buf d a f L"
    using demo_reach [OF assms(1-4)] assms(5) by fastforce
  then have d1: "sim {notify_sem k} {cpu_mutex k, log_mutex k} a (dk d)" "aall a = [main_task k, new_task k]"
    "symaddr (dk d) = symaddr k" "awf a" by (simp_all add: dinv_def ctl_def)
  note s = same_symbols [OF d1(3)]
  have "\<exists>d'. demo_step d Clock d'" using sim_tick [OF d1(1)] demo_step.intros(3) by blast
  moreover have "curr_task (dk d) = main_task (dk d) \<and> (\<exists>d'. demo_step d Main d') \<or>
     curr_task (dk d) = new_task (dk d) \<and> (\<exists>d'. demo_step d New d') \<or> curr_task (dk d) = idle_task (dk d)"
  proof (cases "aready a")
    case Nil
    then show ?thesis using simD(3) [OF d1(1)] by simp
  next
    case (Cons t R)
    have "t \<in> placed a" using Cons by (simp add: in_placed)
    then have "t = main_task k \<or> t = new_task k" using d1(2,4) by (auto simp: awf_def)
    moreover have c: "curr_task (dk d) = t" using simD(3) [OF d1(1)] Cons by simp
    ultimately show ?thesis
      using main_steps [OF d assms(5), of R] new_steps [OF d, of R] Cons s demo_step.intros(1,2) by metis
  qed
  ultimately show ?thesis by blast
qed

section \<open>Properties\<close>

text \<open>C6. The log of the demonstration. However the two tasks and the clock are interleaved (in runs of fewer than
  \<open>2 ^ 31\<close> steps), the bytes on the serial port are whole lines, never mixed, followed by a part of the next line
  of one task; the lines of each task are numbered from 0 without gaps, and a line that reports notification
  \<open>i\<close> comes after the line that announces it.\<close>

theorem demo_log_causal:
  assumes "boot_ok s" and "boot s = Done () k" and "demo_bufs buf s"
    and "run demo_step (demo_start buf k) ws d" and "length ws < 2 ^ 31"
  shows "\<exists>L m j. uart_out (io (dk d)) = uart_out (io k) @ concat (map line_text L) @ take j (body m) \<and>
    causal L \<and> m \<in> {Sent (length (sents L)), Received (length (recvs L))}"
proof -
  obtain a f L where d: "dinv (length ws) (uart_out (io k)) k buf d a f L" using demo_reach [OF assms] by blast
  then have "causal L" by (simp add: dinv_def lines_ok_def)
  then show ?thesis using dinv_output [OF d] by blast
qed

text \<open>The sample machine, with the buffers of the two tasks at 128 KB and above.\<close>

definition sample_bufs :: "addr \<Rightarrow> addr" where
  "sample_bufs t = (if t = 0x10028 then 0x20000 else 0x21000)"

lemma sample_demo_bufs: "demo_bufs sample_bufs sample_kernel"
  unfolding demo_bufs_def sample_symaddr sample_objects sample_bufs_def
  by (auto intro!: region_apart simp del: region.simps)

lemma sample_demo_clock: "\<exists>d. run demo_step (demo_start sample_bufs sample_running) [Clock] d"
proof -
  obtain k where "timer_interrupt sample_running = Some k" using sim_tick [OF sample_boots(2)] by blast
  then have "demo_step (demo_start sample_bufs sample_running) Clock ((demo_start sample_bufs sample_running)\<lparr>dk := k\<rparr>)"
    by (intro demo_step.intros(3)) (simp add: demo_start_def)
  then show ?thesis by auto
qed

theorem demo_log_causal_witness:
  "\<exists>d L m j. run demo_step (demo_start sample_bufs sample_running) [Clock] d \<and> causal L \<and>
    uart_out (io (dk d)) = uart_out (io sample_running) @ concat (map line_text L) @ take j (body m)"
proof -
  obtain d where r: "run demo_step (demo_start sample_bufs sample_running) [Clock] d" using sample_demo_clock by blast
  have "length [Clock] < 2 ^ 31" by simp
  from demo_log_causal [OF sample_boot_ok sample_boots(1) sample_demo_bufs r this] r show ?thesis by blast
qed

text \<open>C7. The demonstration is never stuck. In every state it reaches, the clock interrupt returns, the running
  task is one of the two tasks or the idle task, and the next step of the running task can be taken: no
  assertion fails and no call or formatting hangs.\<close>

theorem demo_never_stuck:
  assumes "boot_ok s" and "boot s = Done () k" and "demo_bufs buf s"
    and "run demo_step (demo_start buf k) ws d" and "length ws < 2 ^ 31 - 1"
  shows "(\<exists>d'. demo_step d Clock d') \<and>
    (curr_task (dk d) = main_task (dk d) \<and> (\<exists>d'. demo_step d Main d') \<or>
     curr_task (dk d) = new_task (dk d) \<and> (\<exists>d'. demo_step d New d') \<or> curr_task (dk d) = idle_task (dk d))"
  by (rule demo_enabled [OF assms])

theorem demo_never_stuck_witness: "\<exists>d. demo_step (demo_start sample_bufs sample_running) Main d"
proof -
  let ?d = "demo_start sample_bufs sample_running"
  have m: "main_task sample_running = 0x10028" "new_task sample_running = 0x11000"
    using same_symbols [OF sample_boots(4)] sample_objects by simp_all
  have "run demo_step ?d [] ?d" "length ([] :: actor list) < 2 ^ 31 - 1" by simp_all
  from demo_never_stuck [OF sample_boot_ok sample_boots(1) sample_demo_bufs this] show ?thesis
    using sample_curr m by (auto simp: demo_start_def)
qed

end
