(* ===== verification/Demo_Pace.thy ===== *)
theory Demo_Pace
  imports Demo
begin

text \<open>
  The demonstration at a realistic pace. If the task that runs makes at least one step between two clock
  interrupts (a step is one kernel call or one byte sent, a clock interrupt comes every 10 ms), then the receiving task has
  always finished its line before the sending task wakes up: the log alternates strictly between the two, and it never
  stops growing.
\<close>

section \<open>Paced runs\<close>

text \<open>The flag says that the running task has made a step since the last clock interrupt.\<close>

inductive paced_step :: "bool \<times> demo \<Rightarrow> actor \<Rightarrow> bool \<times> demo \<Rightarrow> bool" where
  paced_task: "w \<noteq> Clock \<Longrightarrow> demo_step d w d' \<Longrightarrow> paced_step (b, d) w (True, d')"
| paced_clock: "b \<or> curr_task (dk d) = idle_task (dk d) \<Longrightarrow> demo_step d Clock d' \<Longrightarrow> paced_step (b, d) Clock (False, d')"

inductive_cases paced_stepE: "paced_step (b, d) w (b', d')"

lemma paced_demo_step: "paced_step (b, d) w (b', d') \<Longrightarrow> demo_step d w d'"
  by (auto elim: paced_stepE)

lemma paced_run_demo: "run paced_step x ws y \<Longrightarrow> run demo_step (snd x) ws (snd y)"
  by (induction rule: run.induct) (auto intro: run.intros dest!: paced_demo_step)

section \<open>Alternation\<close>

definition rounds :: "nat \<Rightarrow> msg list" where
  "rounds k = concat (map (\<lambda>i. [Sent i, Received i]) [0..<k])"

definition alternates :: "msg list \<Rightarrow> bool" where
  "alternates L \<longleftrightarrow> (\<exists>k. L = rounds k \<or> L = rounds k @ [Sent k])"

lemma rounds_simps [simp]: "rounds 0 = []" "rounds (Suc k) = rounds k @ [Sent k, Received k]"
  by (simp_all add: rounds_def)

lemma rounds_counts [simp]: "length (sents (rounds k)) = k" "length (recvs (rounds k)) = k"
  by (induction k) simp_all

lemma alternates_snoc:
  assumes "alternates L"
  shows "length (sents L) = length (recvs L) \<Longrightarrow> alternates (L @ [Sent (length (sents L))])"
    and "length (sents L) = Suc (length (recvs L)) \<Longrightarrow> alternates (L @ [Received (length (recvs L))])"
proof -
  obtain k where "L = rounds k \<or> L = rounds k @ [Sent k]" using assms by (auto simp: alternates_def)
  then show "length (sents L) = length (recvs L) \<Longrightarrow> alternates (L @ [Sent (length (sents L))])"
    "length (sents L) = Suc (length (recvs L)) \<Longrightarrow> alternates (L @ [Received (length (recvs L))])"
    by (auto simp: alternates_def intro: exI [of _ k] exI [of _ "Suc k"])
qed

section \<open>How much is left to do\<close>

text \<open>A bound on the steps a task makes before it is back at the formatting of a line.\<close>

fun slack :: "addr \<Rightarrow> demo_pc \<Rightarrow> nat" where
  "slack s Format = 0"
| "slack s Lock = 65"
| "slack s (Puts p) = 4 + (60 - unat (p - s))"
| "slack s Unlock = 3"
| "slack s Notify = 2"
| "slack s Sleeps = 1"
| "slack s Waits = 1"

lemma slack_le: "slack s c \<le> 65"
  by (cases c) simp_all

lemma body_short: "length (body m) \<le> 60"
proof -
  have "length (dec v) \<le> 33" for v using itoa_text_len [of 10 v] by (simp add: dec_def itoa_base_ok_def)
  then have "length (dec v) \<le> 40" for v by (rule order_trans) simp
  then show ?thesis by (cases m) (simp_all add: order_trans [of _ 40])
qed

lemma slack_step:
  assumes d: "dinv n out0 k0 buf d a f L" "dinv n' out0 k0 buf d' a' f' L'" and t: "t \<in> {main_task k0, new_task k0}"
    and st: "task_stepped k0 buf t d d' (a, f, L) (a', f', L')"
  shows "if pc_of d t = Format then pc_of d' t = Lock else slack (buf t) (pc_of d' t) < slack (buf t) (pc_of d t)"
proof (cases "pc_of d t")
  case (Puts p)
  have small: "j \<le> 60" if "j \<le> length (body m)" for j m using that body_short order_trans by blast
  obtain j where j: "j \<le> 60" "p = buf t + of_nat j" "unat (p - buf t) = j"
    using dinv_position [OF d(1) t Puts] small by blast
  have "slack (buf t) (Puts (p + 1)) < slack (buf t) (Puts p)" if x: "pc_of d' t = Puts (p + 1)"
  proof -
    obtain i where i: "i \<le> 60" "unat (p + 1 - buf t) = i" using dinv_position [OF d(2) t x] small by blast
    have "p + 1 - buf t = of_nat (Suc j)" by (simp add: j(2))
    then have "i = Suc j" using i(2) j(1) by (simp add: unat_of_nat del: of_nat_Suc)
    then show ?thesis using i j(3) by simp
  qed
  then show ?thesis using st Puts by (auto simp: task_stepped_def task_change_def simp del: slack.simps(3)) simp
qed (use st in \<open>auto simp: task_stepped_def task_change_def\<close>)

section \<open>The receiver keeps up\<close>

definition rest :: "aspec \<Rightarrow> nat" where
  "rest a = sum_list (map snd (asleep a))"

text \<open>The steps the receiver needs until it waits with nothing to receive, and the notifications it has not answered.\<close>

definition work :: "addr \<Rightarrow> addr \<Rightarrow> addr \<Rightarrow> demo_pc \<Rightarrow> aspec \<Rightarrow> nat" where
  "work N S buf c a = (if N \<in> set (asemq a S) then 0
     else (if c = Format then 66 else slack buf c) + 66 * nat (asem a S))"

definition pending :: "addr \<Rightarrow> addr \<Rightarrow> demo_pc \<Rightarrow> aspec \<Rightarrow> nat" where
  "pending N S c a = nat (asem a S) + (if c \<noteq> Waits \<and> N \<notin> set (asemq a S) then 1 else 0)"

text \<open>While the sender sleeps, the receiver is done before the clock has woken it; while the sender prints, the receiver
  has nothing to do.\<close>

definition keeps_up :: "addr \<Rightarrow> addr \<Rightarrow> addr \<Rightarrow> addr \<Rightarrow> bool \<Rightarrow> (addr \<Rightarrow> demo_pc) \<Rightarrow> aspec \<Rightarrow> bool" where
  "keeps_up M N S buf b pc a \<longleftrightarrow> pending N S (pc N) a \<le> 1 \<and>
     (if asleep a \<noteq> [] then work N S buf (pc N) a + of_bool b \<le> rest a
      else pc M = Sleeps \<or> work N S buf (pc N) a \<le> 1)"

lemma ctl_facts:
  assumes c: "ctl M N S G buf pc a"
  shows "asleep a = [] \<or> (\<exists>r>0. asleep a = [(M, r)] \<and> pc M = Format)" "asemq a S = [] \<or> asemq a S = [N] \<and> asem a S = 0"
    "0 \<le> asem a S" "N \<in> set (asemq a S) \<Longrightarrow> pc N = Format" "pc N \<noteq> Notify" "pc N \<noteq> Sleeps" "pc M \<noteq> Waits"
proof -
  have p: "parked_ok M N S G buf pc a" "uniq (alist a)" "sleep_wf a" "sem_wf a S" using c by (auto simp: ctl_def awf_def)
  have "distinct (alist a QSleep)" "distinct (alist a (QSem S))" using p(2) unfolding uniq_def by blast+
  then have dist: "distinct (map fst (asleep a))" "distinct (asemq a S)" by simp_all
  have one: "xs = [] \<or> xs = [x]" if "distinct xs" "\<forall>y\<in>set xs. y = x" for xs and x :: addr
    using that by (cases xs; cases "tl xs") auto
  have M: "\<forall>u\<in>set (map fst (asleep a)). u = M" using p(1) by (auto simp: parked_ok_def)
  show "asleep a = [] \<or> (\<exists>r>0. asleep a = [(M, r)] \<and> pc M = Format)"
  proof (cases "asleep a")
    case (Cons x xs)
    then have "map fst (asleep a) = [M]" using one [OF dist(1) M] by auto
    then obtain r where "asleep a = [(M, r)]" using Cons by (cases x) auto
    then show ?thesis using p(1,3) by (auto simp: parked_ok_def sleep_wf_def)
  qed simp
  show "asemq a S = [] \<or> asemq a S = [N] \<and> asem a S = 0"
    using one [OF dist(2), of N] p(1,4) by (auto simp: parked_ok_def sem_wf_def)
  show "0 \<le> asem a S" using p(4) by (simp add: sem_wf_def)
  show "N \<in> set (asemq a S) \<Longrightarrow> pc N = Format" using p(1) unfolding parked_ok_def by blast
qed (use c in \<open>auto simp: ctl_def\<close>)

text \<open>When no task is ready, the sender sleeps and the receiver waits for a notification.\<close>

lemma dinv_placed:
  assumes "dinv n out0 k0 buf d a f L" and "t \<in> {main_task k0, new_task k0}"
  shows "t \<in> placed a"
proof -
  let ?q = "queues_of {notify_sem k0} {cpu_mutex k0, log_mutex k0} a"
  have "sim {notify_sem k0} {cpu_mutex k0, log_mutex k0} a (dk d)" "aall a = [main_task k0, new_task k0]"
    using assms(1) by (simp_all add: dinv_def ctl_def)
  then have "located ?q" "t \<in> qset ?q LAll" using simD(1) assms(2) by (auto simp: kinv_def qset_def)
  then obtain i where "i \<noteq> LAll" "t \<in> qset ?q i" unfolding located_def by blast
  then show ?thesis by (cases i) (auto simp: qset_def queues_of_def in_placed split: if_splits)
qed

lemma dinv_idle:
  assumes d: "dinv n out0 k0 buf d a f L" and r: "aready a = []"
  shows "asleep a \<noteq> []" "new_task k0 \<in> set (asemq a (notify_sem k0))"
proof -
  let ?M = "main_task k0" and ?N = "new_task k0" and ?S = "notify_sem k0" and ?G = "log_mutex k0"
  have o: "owner_ok ?M ?N ?G (pc_of d) a" "parked_ok ?M ?N ?S ?G buf (pc_of d) a" "?M \<noteq> ?N" "mtx_wf a ?G"
    using d by (auto simp: dinv_def ctl_def awf_def)
  have pk: "u = ?M \<and> pc_of d u = Format" if "u \<in> fst ` set (asleep a)" for u using o(2) that unfolding parked_ok_def by blast
  have ps: "u = ?N \<and> p = ?S \<and> pc_of d u = Format" if "u \<in> set (asemq a p)" for u p using o(2) that unfolding parked_ok_def by blast
  have pm: "p = ?G" if "u \<in> set (amtxq a p)" for u p using o(2) that unfolding parked_ok_def by blast
  have free: "amtxq a p = []" for p
  proof (rule ccontr)
    assume "amtxq a p \<noteq> []"
    then have "amtxq a ?G \<noteq> []" using pm hd_in_set by metis
    then obtain t k where t: "amtx a ?G = Some (t, k)" using o(4) by (cases "amtx a ?G") (auto simp: mtx_wf_def)
    then have k: "k = 1" "t \<in> {?M, ?N}" using o(1) unfolding owner_ok_def by blast+
    then have tk: "t \<in> {?M, ?N}" "crit (pc_of d t)" "t \<notin> set (amtxq a ?G)"
      using o(1) t unfolding owner_ok_def by blast+
    have "t \<notin> set (amtxq a p)" for p using pm [of t p] tk(3) by blast
    moreover have "t \<notin> set (aready a)" using r by simp
    ultimately have "pc_of d t = Format" using dinv_placed [OF d tk(1)] pk [of t] ps [of t] unfolding in_placed by blast
    then show False using tk(2) by simp
  qed
  have pl: "t \<in> fst ` set (asleep a) \<or> (\<exists>p. t \<in> set (asemq a p))" if "t \<in> {?M, ?N}" for t
    using dinv_placed [OF d that] unfolding in_placed r free by simp
  have "?M \<in> fst ` set (asleep a)" using pl [of ?M] ps [of ?M] o(3) by blast
  then show "asleep a \<noteq> []" by auto
  have "?N \<notin> fst ` set (asleep a)"
  proof
    assume "?N \<in> fst ` set (asleep a)"
    from pk [OF this] o(3) show False by simp
  qed
  then obtain p where p: "?N \<in> set (asemq a p)" using pl [of ?N] by blast
  then have "p = ?S" using ps by blast
  then show "?N \<in> set (asemq a ?S)" using p by simp
qed

lemma tick_sleep: "asleep (a_tick a) = map (\<lambda>(t, n). (t, n - 1)) (filter (\<lambda>(t, n). n \<noteq> 1) (asleep a))"
  "asem (a_tick a) = asem a" "asemq (a_tick a) = asemq a" "amtx (a_tick a) = amtx a"
  by (simp_all add: a_tick_def Let_def)

lemma keeps_up_clock:
  assumes d: "dinv n out0 k0 buf d a f L"
    and k: "keeps_up (main_task k0) (new_task k0) (notify_sem k0) (buf (new_task k0)) b (pc_of d) a"
    and c: "b \<or> aready a = []"
  shows "keeps_up (main_task k0) (new_task k0) (notify_sem k0) (buf (new_task k0)) False (pc_of d) (a_tick a)"
    and "asleep a \<noteq> [] \<Longrightarrow> rest (a_tick a) + 1 = rest a" "rest (a_tick a) \<le> rest a"
proof -
  let ?N = "new_task k0" and ?S = "notify_sem k0" and ?w = "work (new_task k0) (notify_sem k0) (buf (new_task k0)) (pc_of d (new_task k0))"
  have ctl: "ctl (main_task k0) ?N ?S (log_mutex k0) buf (pc_of d) a" using d by (simp add: dinv_def)
  have same: "?w (a_tick a) = ?w a" "pending ?N ?S (pc_of d ?N) (a_tick a) = pending ?N ?S (pc_of d ?N) a"
    by (simp_all add: work_def pending_def tick_sleep)
  have idle: "?w a = 0" if "asleep a \<noteq> []" "aready a = []" using dinv_idle(2) [OF d that(2)] by (simp add: work_def)
  consider "asleep a = []" | r where "0 < r" "asleep a = [(main_task k0, r)]" using ctl_facts(1) [OF ctl] by blast
  then have "keeps_up (main_task k0) ?N ?S (buf ?N) False (pc_of d) (a_tick a) \<and>
    (asleep a \<noteq> [] \<longrightarrow> rest (a_tick a) + 1 = rest a) \<and> rest (a_tick a) \<le> rest a"
  proof cases
    case 1
    then show ?thesis using k same by (auto simp: keeps_up_def tick_sleep rest_def)
  next
    case 2
    then show ?thesis using k c idle same by (cases "r = 1") (auto simp: keeps_up_def tick_sleep rest_def)
  qed
  then show "keeps_up (main_task k0) ?N ?S (buf ?N) False (pc_of d) (a_tick a)"
    "asleep a \<noteq> [] \<Longrightarrow> rest (a_tick a) + 1 = rest a" "rest (a_tick a) \<le> rest a" by auto
qed

lemma work_bound: "pending N S c a \<le> 1 \<Longrightarrow> 0 \<le> asem a S \<Longrightarrow> work N S buf c a \<le> 67"
  using slack_le [of buf c] by (cases "nat (asem a S)") (auto simp: work_def pending_def split: if_splits)

text \<open>With at most one step of work left, there is no notification to answer.\<close>

lemma work_quiet:
  assumes "ctl M N S G buf pc a" and "work N S s (pc N) a \<le> 1"
  shows "pending N S (pc N) a = 0" "asem a S = 0" "pc N = Waits \<or> N \<in> set (asemq a S) \<and> pc N = Format"
  using assms(2) ctl_facts [OF assms(1)]
  by (cases "pc N"; auto simp: work_def pending_def split: if_splits)+

lemma keeps_up_main:
  assumes c: "ctl M N S G buf pc a" and k: "keeps_up M N S s b pc a" and r: "M \<in> set (aready a)"
    and same: "asemq b' S = asemq a S" "asem b' S = asem a S" "asleep b' = asleep a" and p: "pc M \<noteq> Sleeps" "c \<noteq> Sleeps"
    and ne: "M \<noteq> N"
  shows "keeps_up M N S s True (pc(M := c)) b'"
proof -
  have "uniq (alist a)" using c by (simp add: ctl_def)
  then have "asleep a = []" using uniq_ready(1) [of a M] r ctl_facts(1) [OF c] by auto
  then show ?thesis using k same p ne by (auto simp: keeps_up_def work_def pending_def split: if_splits)
qed

lemma awake: "ctl M N S G buf pc a \<Longrightarrow> M \<in> set (aready a) \<Longrightarrow> asleep a = []"
  using uniq_ready(1) [of a M] ctl_facts(1) [of M N S G buf pc a] by (auto simp: ctl_def)

lemma keeps_up_notify:
  assumes c: "ctl M N S G buf pc a" and k: "keeps_up M N S s b pc a" and r: "M \<in> set (aready a)"
    and p: "pc M = Notify" and ne: "M \<noteq> N"
  shows "keeps_up M N S s True (pc(M := Sleeps)) (a_notify S a)"
proof -
  have s: "asleep a = []" by (rule awake [OF c r])
  then have "work N S s (pc N) a \<le> 1" using k p by (simp add: keeps_up_def)
  note q = work_quiet [OF c this]
  show ?thesis
    using q s ctl_facts(2) [OF c] ne
    by (auto simp: keeps_up_def a_notify_def pending_def split: list.split)
qed

lemma keeps_up_sleep:
  assumes c: "ctl M N S G buf pc a" and k: "keeps_up M N S s b pc a" and r: "aready a = M # R" and n: "100 \<le> n" and ne: "M \<noteq> N"
  shows "keeps_up M N S s True (pc(M := Format)) (a_sleep n a)"
proof -
  have s: "asleep a = []" using awake [OF c] r by simp
  have "pending N S (pc N) a \<le> 1" using k by (simp add: keeps_up_def)
  then have "work N S s (pc N) a \<le> 67" using work_bound ctl_facts(3) [OF c] by blast
  then show ?thesis using k s r n ne by (auto simp: keeps_up_def a_sleep_def work_def pending_def rest_def)
qed

lemma keeps_up_new:
  assumes k: "keeps_up M N S s b pc a" and ne: "M \<noteq> N" and "asleep b' = asleep a"
    and "work N S s c b' < work N S s (pc N) a" and "pending N S c b' \<le> pending N S (pc N) a"
  shows "keeps_up M N S s True (pc(N := c)) b'"
  using assms by (auto simp: keeps_up_def rest_def split: if_splits)

lemma unlock_frame:
  assumes "a_unlock G a = Some b"
  shows "asleep b = asleep a" "asem b = asem a" "asemq b = asemq a"
  using assms by (auto simp: a_unlock_def split: option.splits prod.splits if_splits list.splits)

lemma lock_frame: "asleep (a_lock G a) = asleep a" "asem (a_lock G a) = asem a" "asemq (a_lock G a) = asemq a"
  by (simp_all add: a_lock_def split: option.split prod.split)

text \<open>A step of a task other than a semaphore call or a sleep.\<close>

lemma task_step_frame:
  assumes "task_stepped k0 buf t d d' (a, f, L) (a', f', L')" and "pc_of d t \<notin> {Notify, Sleeps, Waits}"
  shows "asleep a' = asleep a" "asem a' = asem a" "asemq a' = asemq a"
  using assms unlock_frame [of "log_mutex k0" a a'] lock_frame [of "log_mutex k0" a]
  by (cases "pc_of d t"; auto simp: task_stepped_def task_change_def)+

lemma keeps_up_step:
  assumes d: "dinv n out0 k0 buf d a f L" "dinv n' out0 k0 buf d' a' f' L'"
    and k: "keeps_up (main_task k0) (new_task k0) (notify_sem k0) (buf (new_task k0)) b (pc_of d) a"
    and t: "t = main_task k0 \<or> t = new_task k0" "aready a \<noteq> []" "hd (aready a) = t"
    and st: "task_stepped k0 buf t d d' (a, f, L) (a', f', L')"
  shows "keeps_up (main_task k0) (new_task k0) (notify_sem k0) (buf (new_task k0)) True (pc_of d') a'"
proof -
  let ?M = "main_task k0" and ?N = "new_task k0" and ?S = "notify_sem k0" and ?b = "buf (new_task k0)"
  have c: "ctl ?M ?N ?S (log_mutex k0) buf (pc_of d) a" "?M \<noteq> ?N" using d by (simp_all add: dinv_def ctl_def)
  obtain R where R: "aready a = t # R" using t(2,3) by (cases "aready a") auto
  have pc: "pc_of d' = (pc_of d)(t := pc_of d' t)" and ch: "task_change k0 buf t (pc_of d t) (pc_of d' t) (a, f, L) (a', f', L')"
    using st by (simp_all add: task_stepped_def)
  note sl = slack_step [OF d _ st]
  consider "t = ?M" "pc_of d ?M = Notify" | "t = ?M" "pc_of d ?M = Sleeps" | "t = ?M" "pc_of d ?M \<notin> {Notify, Sleeps, Waits}"
    | "t = ?N" "pc_of d ?N = Waits" | "t = ?N" "pc_of d ?N \<notin> {Notify, Sleeps, Waits}"
    using t(1) ctl_facts(5-7) [OF c(1)] by auto
  then show ?thesis
  proof cases
    case 1
    then show ?thesis using keeps_up_notify [OF c(1) k _ _ c(2)] R ch by (subst pc) (simp add: task_change_def)
  next
    case 2
    have "100 \<le> spec_ticks (unat (1000 :: uint32_t))" by (simp add: spec_ticks_def)
    then show ?thesis using keeps_up_sleep [OF c(1) k _ _ c(2), of R] R ch 2 by (subst pc) (simp add: task_change_def)
  next
    case 3
    have "pc_of d' ?M \<noteq> Sleeps" using ch 3 by (auto simp: task_change_def split: demo_pc.splits)
    then have "keeps_up ?M ?N ?S ?b True ((pc_of d)(?M := pc_of d' ?M)) a'"
      using keeps_up_main [OF c(1) k] task_step_frame [OF st] R 3 c(2) by auto
    then show ?thesis using 3(1) pc by simp
  next
    case 4
    have "?N \<notin> set (asemq a ?S)" using uniq_ready(2) [of a ?N] R 4(1) c(1) by (simp add: ctl_def)
    moreover have "pc_of d' ?N = Format" "a' = a_wait ?S a" using ch 4 by (simp_all add: task_change_def)
    moreover have "0 \<le> asem a ?S" by (rule ctl_facts(3) [OF c(1)])
    ultimately have "keeps_up ?M ?N ?S ?b True ((pc_of d)(?N := pc_of d' ?N)) a'"
      using 4 R by (intro keeps_up_new [OF k c(2)]) (auto simp: a_wait_def work_def pending_def nat_diff_distrib)
    then show ?thesis using 4(1) pc by simp
  next
    case 5
    have q: "?N \<notin> set (asemq a ?S)" using uniq_ready(2) [of a ?N] R 5(1) c(1) by (simp add: ctl_def)
    note fr = task_step_frame [OF st]
    have "pc_of d' ?N \<noteq> Format" using ch 5 by (auto simp: task_change_def split: demo_pc.splits)
    then have "keeps_up ?M ?N ?S ?b True ((pc_of d)(?N := pc_of d' ?N)) a'"
      using 5 q fr sl by (intro keeps_up_new [OF k c(2)]) (auto simp: work_def pending_def split: if_splits)
    then show ?thesis using 5(1) pc by simp
  qed
qed

text \<open>A line that ends is the next line of the alternation.\<close>

lemma line_in_turn:
  assumes d: "dinv n out0 k0 buf d a f L" and t: "t \<in> {main_task k0, new_task k0}" "t \<in> set (aready a)" "pc_of d t = Puts p"
    and k: "keeps_up (main_task k0) (new_task k0) (notify_sem k0) (buf (new_task k0)) b (pc_of d) a" and al: "alternates L"
  shows "alternates (L @ [msg_of (main_task k0) t (f t - 1)])"
proof -
  let ?M = "main_task k0" and ?N = "new_task k0" and ?S = "notify_sem k0"
  have c: "ctl ?M ?N ?S (log_mutex k0) buf (pc_of d) a" "?M \<noteq> ?N" and ac: "acct ?M ?N ?S (pc_of d) f a"
    and l: "length (sents L) = f ?M - (if writing (pc_of d ?M) then 1 else 0)"
      "length (recvs L) = f ?N - (if writing (pc_of d ?N) then 1 else 0)"
    using d by (simp_all add: dinv_def ctl_def lines_ok_def)
  have f: "0 < f t" using dinv_position [OF d t(1,3)] by blast
  show ?thesis
  proof (cases "t = ?M")
    case True
    have "asleep a = []" using awake [OF c(1)] t(2) True by simp
    then have "work ?N ?S (buf ?N) (pc_of d ?N) a \<le> 1" using k t(3) True by (simp add: keeps_up_def)
    note q = work_quiet [OF c(1) this]
    have "f ?M = Suc (f ?N)" "\<not> writing (pc_of d ?N)" using ac q(2,3) t(3) True by (auto simp: acct_def)
    then have "length (sents L) = length (recvs L)" "f ?M - 1 = length (sents L)" using l t(3) True by simp_all
    then show ?thesis using alternates_snoc(1) [OF al] True by (simp add: msg_of_def)
  next
    case False
    then have N: "t = ?N" "pc_of d ?N = Puts p" using t by auto
    then have q: "?N \<notin> set (asemq a ?S)" using uniq_ready(2) [of a ?N] t(2) c(1) by (simp add: ctl_def)
    then have w: "asem a ?S = 0" "\<not> work ?N ?S (buf ?N) (pc_of d ?N) a \<le> 1"
      using k N(2) ctl_facts(3) [OF c(1)] by (auto simp: keeps_up_def pending_def work_def)
    then have M: "pc_of d ?M = Format \<or> pc_of d ?M = Sleeps" using k ctl_facts(1) [OF c(1)] by (auto simp: keeps_up_def)
    then have "f ?M = f ?N" "\<not> writing (pc_of d ?M)" using ac w(1) N(2) by (auto simp: acct_def)
    then have "length (sents L) = Suc (length (recvs L))" "f ?N - 1 = length (recvs L)" using l N f by simp_all
    then show ?thesis using alternates_snoc(2) [OF al] N(1) c(2) by (simp add: msg_of_def)
  qed
qed

section \<open>The invariant of paced runs\<close>

text \<open>The steps of the two tasks and of the clock are bounded by the lines formatted.\<close>

definition paced_counts :: "kernel \<Rightarrow> (addr \<Rightarrow> addr) \<Rightarrow> bool \<Rightarrow> (addr \<Rightarrow> demo_pc) \<Rightarrow> aspec \<Rightarrow> (addr \<Rightarrow> nat) \<Rightarrow> actor list \<Rightarrow> bool" where
  "paced_counts k0 buf b pc a f ws \<longleftrightarrow>
     count_list ws Main + slack (buf (main_task k0)) (pc (main_task k0)) \<le> 66 * f (main_task k0) + 66 \<and>
     count_list ws New + slack (buf (new_task k0)) (pc (new_task k0)) \<le> 66 * f (new_task k0) + 66 \<and>
     count_list ws Clock + rest a + (if pc (main_task k0) = Format then 0 else 101) + of_bool b
       \<le> 101 * f (main_task k0) + count_list ws Main + count_list ws New + 1"

definition pinv :: "uint8_t list \<Rightarrow> kernel \<Rightarrow> (addr \<Rightarrow> addr) \<Rightarrow> actor list \<Rightarrow> bool \<Rightarrow> demo \<Rightarrow> aspec \<Rightarrow> (addr \<Rightarrow> nat) \<Rightarrow> msg list \<Rightarrow> bool" where
  "pinv out0 k0 buf ws b d a f L \<longleftrightarrow> dinv (length ws) out0 k0 buf d a f L \<and> alternates L \<and>
     keeps_up (main_task k0) (new_task k0) (notify_sem k0) (buf (new_task k0)) b (pc_of d) a \<and>
     paced_counts k0 buf b (pc_of d) a f ws"

lemma counts_step:
  assumes d: "dinv n out0 k0 buf d a f L" "dinv n' out0 k0 buf d' a' f' L'"
    and k: "paced_counts k0 buf b (pc_of d) a f ws" and w: "w \<noteq> Clock" "t = (if w = Main then main_task k0 else new_task k0)"
    and st: "task_stepped k0 buf t d d' (a, f, L) (a', f', L')"
  shows "paced_counts k0 buf True (pc_of d') a' f' (ws @ [w])"
proof -
  let ?M = "main_task k0" and ?N = "new_task k0"
  have c: "ctl ?M ?N (notify_sem k0) (log_mutex k0) buf (pc_of d) a" "?M \<noteq> ?N" using d by (simp_all add: dinv_def ctl_def)
  have t: "t \<in> {?M, ?N}" using w by simp
  have pc: "pc_of d' u = pc_of d u" if "u \<noteq> t" for u using st that unfolding task_stepped_def by (metis fun_upd_other)
  have ch: "task_change k0 buf t (pc_of d t) (pc_of d' t) (a, f, L) (a', f', L')" using st by (simp add: task_stepped_def)
  note sl = slack_step [OF d t st]
  have f: "f' = (if pc_of d t = Format then f(t := Suc (f t)) else f)"
    using ch by (cases "pc_of d t") (auto simp: task_change_def)
  have r: "rest a' = (if pc_of d t = Sleeps then rest a + 101 else rest a)"
    using task_step_frame(1) [OF st] ch
    by (cases "pc_of d t")
      (auto simp: task_change_def spec_ticks_def a_notify_def a_wait_def a_sleep_def rest_def split: list.split)
  have fm: "pc_of d' t = Format \<longleftrightarrow> pc_of d t \<in> {Sleeps, Waits}"
    using ch by (cases "pc_of d t") (auto simp: task_change_def)
  note no = ctl_facts(5-7) [OF c(1)]
  show ?thesis
  proof (cases "w = Main")
    case True
    then show ?thesis using k sl f r fm pc [of ?N] c(2) w no
      by (auto simp: paced_counts_def split: if_splits)
  next
    case False
    then have "w = New" "t = ?N" using w by (cases w; simp)+
    then show ?thesis using k sl f r fm pc [of ?M] c(2) no
      by (auto simp: paced_counts_def split: if_splits)
  qed
qed

lemma counts_clock:
  assumes d: "dinv n out0 k0 buf d a f L" and k: "paced_counts k0 buf b pc a f ws"
    and u: "keeps_up (main_task k0) (new_task k0) (notify_sem k0) (buf (new_task k0)) b (pc_of d) a"
    and c: "b \<or> aready a = []"
  shows "paced_counts k0 buf False pc (a_tick a) f (ws @ [Clock])"
proof -
  have "asleep a \<noteq> []" if "aready a = []" using dinv_idle(1) [OF d that] .
  then show ?thesis using k keeps_up_clock(2,3) [OF d u c] c by (auto simp: paced_counts_def)
qed

lemma pinv_step:
  assumes p: "pinv out0 k0 buf ws b d a f L" and n: "length ws < 2 ^ 31 - 1" and st: "paced_step (b, d) w (b', d')"
  shows "\<exists>a' f' L'. pinv out0 k0 buf (ws @ [w]) b' d' a' f' L'"
proof -
  have d: "dinv (length ws) out0 k0 buf d a f L" and al: "alternates L"
    and k: "keeps_up (main_task k0) (new_task k0) (notify_sem k0) (buf (new_task k0)) b (pc_of d) a"
    and cn: "paced_counts k0 buf b (pc_of d) a f ws" using p by (simp_all add: pinv_def)
  obtain a' f' L' where d': "dinv (Suc (length ws)) out0 k0 buf d' a' f' L'"
    and ch: "if w = Clock then pc_of d' = pc_of d \<and> a' = a_tick a \<and> f' = f \<and> L' = L
      else let t = (if w = Main then main_task k0 else new_task k0)
        in aready a \<noteq> [] \<and> hd (aready a) = t \<and> task_stepped k0 buf t d d' (a, f, L) (a', f', L')"
    using demo_step_changes [OF d n paced_demo_step [OF st]] by blast
  have "alternates L' \<and> keeps_up (main_task k0) (new_task k0) (notify_sem k0) (buf (new_task k0)) b' (pc_of d') a' \<and>
    paced_counts k0 buf b' (pc_of d') a' f' (ws @ [w])"
  proof (cases "w = Clock")
    case True
    have "sim {notify_sem k0} {cpu_mutex k0, log_mutex k0} a (dk d)" using d by (simp add: dinv_def)
    then have "b' = False" "b \<or> aready a = []" using st True simD(4) by (auto elim!: paced_stepE)
    then show ?thesis using True ch al keeps_up_clock(1) [OF d k] counts_clock [OF d cn k] by simp
  next
    case False
    define t where "t = (if w = Main then main_task k0 else new_task k0)"
    have t: "t = main_task k0 \<or> t = new_task k0" "aready a \<noteq> []" "hd (aready a) = t"
      and ts: "task_stepped k0 buf t d d' (a, f, L) (a', f', L')" using ch False by (simp_all add: t_def Let_def)
    have "b' = True" using st False by (auto elim: paced_stepE)
    moreover have "alternates L'"
    proof (cases "L' = L")
      case True
      then show ?thesis using al by simp
    next
      case False
      then obtain p where "pc_of d t = Puts p" "L' = L @ [msg_of (main_task k0) t (f t - 1)]"
        using ts by (cases "pc_of d t") (auto simp: task_stepped_def task_change_def)
      then show ?thesis using line_in_turn [OF d _ _ _ k al, of t p] t hd_in_set [OF t(2)] by auto
    qed
    ultimately show ?thesis
      using keeps_up_step [OF d d' k t ts] counts_step [OF d d' cn False t_def ts] by simp
  qed
  then show ?thesis using d' by (auto simp: pinv_def)
qed

lemma pinv_run:
  "run paced_step x us y \<Longrightarrow> pinv out0 k0 buf ws (fst x) (snd x) a f L \<Longrightarrow> length ws + length us < 2 ^ 31 \<Longrightarrow>
    \<exists>a' f' L'. pinv out0 k0 buf (ws @ us) (fst y) (snd y) a' f' L'"
proof (induction arbitrary: ws a f L rule: run.induct)
  case (run_Cons x w x1 us y)
  obtain a1 f1 L1 where "pinv out0 k0 buf (ws @ [w]) (fst x1) (snd x1) a1 f1 L1"
    using pinv_step [OF run_Cons.prems(1), of w "fst x1" "snd x1"] run_Cons.hyps(1) run_Cons.prems(2) by auto
  from run_Cons.IH [OF this] run_Cons.prems(2) show ?case by simp
qed auto

lemma pinv_start:
  assumes ok: "boot_ok s" and b: "boot s = Done () k" and e: "demo_bufs buf s"
  shows "pinv (uart_out (io k)) k buf [] True (demo_start buf k) (boot_spec s) (\<lambda>t. 0) []"
proof -
  have "symaddr k = symaddr s" using boot_ready [OF ok] b by auto
  note s = same_symbols [OF this]
  have "main_task s \<noteq> new_task s" using ok by (simp add: boot_ok_def)
  then have "keeps_up (main_task k) (new_task k) (notify_sem k) (buf (new_task k)) True (pc_of (demo_start buf k)) (boot_spec s)"
    "paced_counts k buf True (pc_of (demo_start buf k)) (boot_spec s) (\<lambda>t. 0) []"
    by (simp_all add: keeps_up_def pending_def work_def demo_start_def boot_spec_def s paced_counts_def rest_def)
  moreover have "alternates []" by (auto simp: alternates_def intro: exI [of _ 0])
  ultimately show ?thesis using dinv_start [OF ok b demo_bufs_env [OF ok b e]] by (simp add: pinv_def)
qed

lemma paced_reach:
  assumes "boot_ok s" and "boot s = Done () k" and "demo_bufs buf s"
    and "run paced_step (True, demo_start buf k) ws (b, d)" and "length ws < 2 ^ 31"
  shows "\<exists>a f L. pinv (uart_out (io k)) k buf ws b d a f L"
  using pinv_run [OF assms(4), of _ _ _ "[]"] pinv_start [OF assms(1-3)] assms(5) by fastforce

text \<open>Every step is made by one of the three actors.\<close>

instantiation actor :: enum
begin

definition "enum_actor = [Main, New, Clock]"
definition "enum_all_actor P \<longleftrightarrow> P Main \<and> P New \<and> P Clock"
definition "enum_ex_actor P \<longleftrightarrow> P Main \<or> P New \<or> P Clock"

instance
proof
  have "w \<in> set enum_class.enum" for w :: actor by (cases w) (simp_all add: enum_actor_def)
  then show univ: "(UNIV :: actor set) = set enum_class.enum" by blast
  show "distinct (enum_class.enum :: actor list)" by (simp add: enum_actor_def)
  show "enum_class.enum_all P \<longleftrightarrow> Ball UNIV P" for P :: "actor \<Rightarrow> bool"
    unfolding univ by (simp add: enum_all_actor_def enum_actor_def)
  show "enum_class.enum_ex P \<longleftrightarrow> Bex UNIV P" for P :: "actor \<Rightarrow> bool"
    unfolding univ by (simp add: enum_ex_actor_def enum_actor_def)
qed

end

lemma actor_counts: "length ws = count_list ws Main + count_list ws New + count_list ws Clock"
proof -
  have "(\<Sum>w\<in>UNIV. count_list ws w) = length ws" by (rule sum_count_set) auto
  then show ?thesis by (simp add: UNIV_enum enum_actor_def)
qed

lemma pinv_length:
  assumes p: "pinv out0 k0 buf ws b d a f L"
  shows "length ws \<le> 365 * length (sents L) + 630"
proof -
  let ?M = "main_task k0" and ?N = "new_task k0"
  have d: "ctl ?M ?N (notify_sem k0) (log_mutex k0) buf (pc_of d) a" "acct ?M ?N (notify_sem k0) (pc_of d) f a"
    "length (sents L) = f ?M - (if writing (pc_of d ?M) then 1 else 0)" "paced_counts k0 buf b (pc_of d) a f ws"
    using p by (simp_all add: pinv_def dinv_def lines_ok_def)
  have "int (f ?N) \<le> int (f ?M)" using d(2) ctl_facts(3) [OF d(1)] by (auto simp: acct_def split: if_splits)
  then have n: "f ?N \<le> f ?M" by simp
  have m: "f ?M \<le> length (sents L) + 1" using d(3) by auto
  have c: "count_list ws Main \<le> 66 * f ?M + 66" "count_list ws New \<le> 66 * f ?N + 66"
    "count_list ws Clock \<le> 101 * f ?M + count_list ws Main + count_list ws New + 1"
    using d(4) by (auto simp: paced_counts_def)
  show ?thesis unfolding actor_counts using c n m by linarith
qed

text \<open>A paced run can always be continued.\<close>

lemma paced_enabled:
  assumes "boot_ok s" and "boot s = Done () k" and "demo_bufs buf s"
    and "run paced_step (True, demo_start buf k) ws (b, d)" and "length ws < 2 ^ 31 - 1"
  shows "\<exists>w x. paced_step (b, d) w x"
proof -
  have "run demo_step (demo_start buf k) ws d" using paced_run_demo [OF assms(4)] by simp
  from demo_enabled [OF assms(1-3) this assms(5)] show ?thesis
    using paced_task [of Main] paced_task [of New] paced_clock by blast
qed

lemma paced_runs_exist:
  assumes "boot_ok s" and "boot s = Done () k" and "demo_bufs buf s"
  shows "n < 2 ^ 31 \<Longrightarrow> \<exists>ws b d. run paced_step (True, demo_start buf k) ws (b, d) \<and> length ws = n"
proof (induction n)
  case (Suc n)
  then obtain ws b d where r: "run paced_step (True, demo_start buf k) ws (b, d)" "length ws = n" by auto
  then obtain w b' d' where "paced_step (b, d) w (b', d')" using paced_enabled [OF assms, of ws b d] Suc.prems by auto
  then have "run paced_step (True, demo_start buf k) (ws @ [w]) (b', d')" using r(1) by auto
  then show ?case using r(2) by (metis length_append_singleton)
qed (auto intro: exI [of _ "[]"])

section \<open>Properties\<close>

text \<open>C4. The log at a realistic pace. In every run in which the running task makes at least one step between two
  clock interrupts, the lines printed are \<open>sending notify: 0\<close>, \<open>recv notify: 0\<close>, \<open>sending notify: 1\<close>, \<open>recv notify: 1\<close>
  and so on, in exactly this order, followed by a part of the next line of one task: every notification is answered before
  the next one is announced.\<close>

theorem demo_log_alternates:
  assumes "boot_ok s" and "boot s = Done () k" and "demo_bufs buf s"
    and "run paced_step (True, demo_start buf k) ws (b, d)" and "length ws < 2 ^ 31"
  shows "\<exists>L m j. uart_out (io (dk d)) = uart_out (io k) @ concat (map line_text L) @ take j (body m) \<and>
    alternates L \<and> m \<in> {Sent (length (sents L)), Received (length (recvs L))}"
proof -
  obtain a f L where p: "pinv (uart_out (io k)) k buf ws b d a f L" using paced_reach [OF assms] by blast
  then have "alternates L" and d: "dinv (length ws) (uart_out (io k)) k buf d a f L" by (simp_all add: pinv_def)
  then show ?thesis using dinv_output [OF d] by blast
qed

theorem demo_log_alternates_witness:
  "\<exists>ws b d L m j. run paced_step (True, demo_start sample_bufs sample_running) ws (b, d) \<and> length ws = 1000 \<and> alternates L \<and>
    uart_out (io (dk d)) = uart_out (io sample_running) @ concat (map line_text L) @ take j (body m)"
proof -
  have "(1000 :: nat) < 2 ^ 31" by simp
  then obtain ws b d where r: "run paced_step (True, demo_start sample_bufs sample_running) ws (b, d)" "length ws = 1000"
    using paced_runs_exist [OF sample_boot_ok sample_boots(1) sample_demo_bufs] by blast
  have "length ws < 2 ^ 31" using r(2) by simp
  from demo_log_alternates [OF sample_boot_ok sample_boots(1) sample_demo_bufs r(1) this] r show ?thesis by blast
qed

text \<open>C5. The log grows. For runs of that pace with fewer than \<open>2 ^ 31 - 1\<close> steps, the bound below which no counter can
  overflow: the run can be continued by a further step, and a run of \<open>n\<close> steps has printed at least \<open>(n - 630) / 365\<close>
  announcements. So up to that bound every announcement, and by the alternation every answer, is printed after a bounded
  number of steps. Nothing is said of longer runs.\<close>

theorem demo_log_grows:
  assumes "boot_ok s" and "boot s = Done () k" and "demo_bufs buf s"
    and "run paced_step (True, demo_start buf k) ws (b, d)" and "length ws < 2 ^ 31 - 1"
  shows "(\<exists>w x. paced_step (b, d) w x) \<and>
    (\<exists>L r. uart_out (io (dk d)) = uart_out (io k) @ concat (map line_text L) @ r \<and> alternates L \<and>
      length ws \<le> 365 * length (sents L) + 630)"
proof
  show "\<exists>w x. paced_step (b, d) w x" by (rule paced_enabled [OF assms])
  have "length ws < 2 ^ 31" using assms(5) by simp
  then obtain a f L where p: "pinv (uart_out (io k)) k buf ws b d a f L" using paced_reach [OF assms(1-4)] by blast
  then have "alternates L" and d: "dinv (length ws) (uart_out (io k)) k buf d a f L" by (simp_all add: pinv_def)
  then show "\<exists>L r. uart_out (io (dk d)) = uart_out (io k) @ concat (map line_text L) @ r \<and> alternates L \<and>
      length ws \<le> 365 * length (sents L) + 630"
    using dinv_output [OF d] pinv_length [OF p] by blast
qed

theorem demo_log_grows_witness:
  "\<exists>ws b d L r. run paced_step (True, demo_start sample_bufs sample_running) ws (b, d) \<and> length ws = 2000 \<and>
    uart_out (io (dk d)) = uart_out (io sample_running) @ concat (map line_text L) @ r \<and> 4 \<le> length (sents L)"
proof -
  have "(2000 :: nat) < 2 ^ 31" by simp
  then obtain ws b d where r: "run paced_step (True, demo_start sample_bufs sample_running) ws (b, d)" "length ws = 2000"
    using paced_runs_exist [OF sample_boot_ok sample_boots(1) sample_demo_bufs] by blast
  have n: "length ws < 2 ^ 31 - 1" using r(2) by simp
  obtain L e where "uart_out (io (dk d)) = uart_out (io sample_running) @ concat (map line_text L) @ e"
    "length ws \<le> 365 * length (sents L) + 630"
    using demo_log_grows [OF sample_boot_ok sample_boots(1) sample_demo_bufs r(1) n] by blast
  moreover from this(2) have "4 \<le> length (sents L)" using r(2) by simp
  ultimately show ?thesis using r by blast
qed

end
