(* ===== verification/Creation.thy ===== *)
theory Creation
  imports Kernel_Runs
begin

text \<open>
  Task creation in the running system: the new task joins the specification's state as the last of the
  ready tasks, and what happens when the name is rejected or the descriptor table is full.
\<close>

section \<open>Creation refines the specification\<close>

definition a_create :: "addr \<Rightarrow> aspec \<Rightarrow> aspec" where
  "a_create t a = a\<lparr>aready := aready a @ [t], aall := aall a @ [t],
     aslice := (aslice a)(t := 10), aquant := (aquant a)(t := 10)\<rparr>"

lemma alist_placed:
  assumes "awf a"
  shows "set (alist a i) \<subseteq> set (aall a)"
proof
  fix u assume "u \<in> set (alist a i)"
  then have "u \<in> placed a" by (cases i) (auto simp: in_placed)
  then show "u \<in> set (aall a)" using assms by (auto simp: awf_def)
qed

lemma a_create_wf:
  assumes "awf a" and "uniq (alist a)" and "t \<notin> set (aall a)"
  shows "awf (a_create t a)" "uniq (alist (a_create t a))"
proof -
  have p: "u \<in> set (aall a)" if "u \<in> set (alist a i)" for u i
    using that alist_placed [OF assms(1)] by blast
  have "mtx_wf (a_create t a) p \<longleftrightarrow> mtx_wf a p" "sem_wf (a_create t a) p \<longleftrightarrow> sem_wf a p" for p
    by (simp_all add: mtx_wf_def sem_wf_def a_create_def split: option.split)
  moreover have "placed (a_create t a) = insert t (placed a)" by (auto simp: placed_def a_create_def)
  ultimately show "awf (a_create t a)"
    using assms(1) by (auto simp: awf_def slice_wf_def sleep_wf_def a_create_def)
  have l: "alist (a_create t a) = (alist a)(QReady := aready a @ [t])"
    by (rule ext, rename_tac i, case_tac i) (simp_all add: a_create_def)
  have d: "distinct (alist a i)" "i \<noteq> j \<Longrightarrow> set (alist a i) \<inter> set (alist a j) = {}" "t \<notin> set (alist a i)" for i j
    using assms(2,3) p by (auto simp: uniq_def)
  have "distinct (aready a @ [t])" using d(1,3) [of QReady] by simp
  moreover have "set (aready a @ [t]) \<inter> set (alist a j) = {}" if "j \<noteq> QReady" for j
    using d(2) [of QReady j] d(3) [of j] that by auto
  ultimately show "uniq (alist (a_create t a))"
    unfolding l uniq_def using d(1,2) by (simp add: Int_commute)
qed

lemma queues_of_create:
  "queues_of SS MM (a_create t a) = (queues_of SS MM a)(LReady \<mapsto> aready a @ [t], LAll \<mapsto> aall a @ [t])"
  by (rule queues_eqI) (simp_all add: queues_of_def a_create_def)

lemma create_data:
  assumes "sim SS MM a s" and "t \<notin> set (aall a)" and f: "create_frame t n s s'" and "mutex_idle (cpu_mutex s) s"
    and "slice_ticks (tasks s' t) = 10" "time_ticks (tasks s' t) = 10"
  shows "data_rel SS MM (a_create t a) s'"
proof -
  have d: "\<And>u n. (u, n) \<in> set (asleep a) \<Longrightarrow> sleep_ticks (tasks s u) = of_nat n \<and> n < 2 ^ 31"
    "\<And>u. u \<in> set (aall a) \<Longrightarrow> slice_ticks (tasks s u) = of_nat (aslice a u) \<and>
       time_ticks (tasks s u) = of_nat (aquant a u) \<and> aquant a u < 2 ^ 31"
    "\<And>p. p \<in> SS \<Longrightarrow> sint (sem_cnt (sems s p)) = asem a p" "\<And>p. p \<in> MM \<Longrightarrow> mtx_rel (amtx a p) (mutexes s p)"
    using simD(2) [OF assms(1)] unfolding data_rel_def by blast+
  have o: "tasks s' u = tasks s u" if "u \<noteq> t" for u using f that by (simp add: create_frame_def)
  have "u \<noteq> t" if "(u, n) \<in> set (asleep a)" for u n
    using that assms(2) alist_placed [of a QSleep] sim_wf [OF assms(1)] by (force simp: image_iff)
  then have sl: "\<forall>u n. (u, n) \<in> set (asleep a) \<longrightarrow> sleep_ticks (tasks s' u) = of_nat n \<and> n < 2 ^ 31"
    using d(1) o by metis
  have mt: "mtx_rel (amtx a p) (mutexes s' p)" if "p \<in> MM" for p
  proof (cases "p = cpu_mutex s")
    case True
    have l: "locker (mutexes s p) = 0" "locker (mutexes s' p) = 0"
      using True assms(4) f by (auto simp: mutex_idle_def create_frame_def)
    then have "amtx a p = None"
      using sim_mtx [OF assms(1) that] of_nat_level(1) by (auto simp: mtx_rel_def mtx_wf_def split: option.splits)
    then show ?thesis using l by (simp add: mtx_rel_def)
  next
    case False
    then show ?thesis using f d(4) that by (simp add: create_frame_def)
  qed
  have "sems s' = sems s" using f by (simp add: create_frame_def)
  moreover have "u \<in> set (aall a) \<Longrightarrow> u \<noteq> t" for u using assms(2) by auto
  ultimately show ?thesis
    using sl mt d(2,3) o assms(5,6) by (auto simp: data_rel_def a_create_def)
qed

lemma create_sim:
  assumes "sim SS MM a s" and "curr_task s \<noteq> idle_task s" and "length (gdt_table s) = 256"
    and "t \<notin> live a s" and "tasks_sep (insert t (live a s))" and "can_create t name bs s"
  shows "\<exists>s'. task_init t name entry esp s = Done 0 s' \<and> sim SS MM (a_create t a) s' \<and> curr_task s' = curr_task s \<and>
    cstr (mem s') t bs \<and> t_eip (tss (tasks s' t)) = entry \<and> t_esp (tss (tasks s' t)) = esp \<and>
    if_set (t_eflags (tss (tasks s' t))) \<and> sel_ok s' t \<and> symaddr s' = symaddr s"
proof -
  note k = simD(1) [OF assms(1)]
  have R: "aready a \<noteq> []" using simD(4) [OF assms(1)] assms(2) by blast
  have ta: "t \<notin> set (aall a)" using assms(4) by (simp add: live_def)
  from create_kinv [OF k assms(3-6), of entry esp] R obtain s' where
    s': "task_init t name entry esp s = Done 0 s'"
    "kinv (insert t (live a s)) (queues_of SS MM (a_create t a)) s'" "create_frame t (Suc (length bs)) s s'"
    "cstr (mem s') t bs" "slice_ticks (tasks s' t) = 10" "time_ticks (tasks s' t) = 10"
    "tss (tasks s' t) = new_tss entry esp (tss (tasks s t))"
    by (auto simp: queues_of_create)
  have i: "idle_task s' = idle_task s" "curr_task s' = curr_task s" "symaddr s' = symaddr s"
    using s'(3) by (simp_all add: create_frame_def idle_task_def)
  have "live (a_create t a) s' = insert t (live a s)" using i by (auto simp: live_def a_create_def)
  then have "sim SS MM (a_create t a) s'"
    using s'(2) create_data [OF assms(1) ta s'(3) _ s'(5,6)] a_create_wf [OF _ _ ta] sim_wf [OF assms(1)] assms(6)
    by (simp add: sim_def can_create_def)
  moreover have "sel_ok s' t" using s'(2) unfolding kinv_def kstatic_def cpu_inv_def by blast
  ultimately show ?thesis
    using s' i by (simp add: new_tss_def if_set_def bit_simps)
qed

lemma sample_creates:
  "length (gdt_table sample_running) = 256" "can_create 0x11800 0x16200 (map chr ''my new task'') sample_running"
  "live (boot_spec sample_kernel) sample_running = {0x100E0, 0x10028, 0x11000}"
proof -
  obtain q where q: "booting 6 {0x100E0, 0x10028, 0x11000} q sample_running" using sample_boots(3) by blast
  have sy: "symaddr sample_running ''str_my_new_task'' = 0x16200" using sample_boots(4) sample_symaddr by simp
  show "length (gdt_table sample_running) = 256" using q by (simp add: booting_def tasks_inv_def)
  have "cstr (mem sample_running) 0x16200 (map chr ''my new task'')"
    using q sy by (simp only: booting_def boot_literals_def literal_at_def)
  moreover have "find_free 255 (gdt_table sample_running) \<noteq> None"
    using gdt_from_find [of 6 sample_running] q by (auto simp: booting_def)
  moreover have "region 0x11800 (Suc (length (map chr ''my new task''))) \<inter>
      region 0x16200 (Suc (length (map chr ''my new task''))) = {}"
    by (rule region_apart) simp
  moreover have "mutex_idle (cpu_mutex sample_running) sample_running"
    using q mutex_new_idle by (auto simp: booting_def)
  ultimately show "can_create 0x11800 0x16200 (map chr ''my new task'') sample_running"
    unfolding can_create_def by simp
  show "live (boot_spec sample_kernel) sample_running = {0x100E0, 0x10028, 0x11000}"
    using sample_boots(4) sample_objects(1) by (simp add: live_def sample_spec idle_task_def)
qed

text \<open>The sample system with a third task.\<close>

lemma sample_created:
  "\<exists>s'. task_init 0x11800 0x16200 0x20000 0x21000 sample_running = Done 0 s' \<and>
     sim {0x14200} {0x14000, 0x14100} (a_create 0x11800 (boot_spec sample_kernel)) s' \<and> symaddr s' = symaddr sample_running"
proof -
  have "0x11800 \<notin> live (boot_spec sample_kernel) sample_running"
    "tasks_sep (insert 0x11800 (live (boot_spec sample_kernel) sample_running))"
    unfolding sample_creates by (simp_all add: tasks_sep_def task_obj_ok_def SIZEOF_task_t_def)
  from create_sim [OF sample_boots(2) sample_curr(2) sample_creates(1) this sample_creates(2), of "0x20000" "0x21000"]
  show ?thesis by blast
qed

text \<open>C17. Creating a task. Called by a running task with a free descriptor, the descriptor mutex free,
  a name of 1 to 32 bytes and a task object that overlaps no other task, \<^verbatim>\<open>task_init\<close> returns 0: the new
  task is the last ready task with a full slice, its name is stored, its saved context starts at the
  entry with the given stack and interrupts enabled, and its selector names a descriptor of its segment.
  The caller keeps running and every other queue, semaphore and mutex is as before.\<close>

theorem task_init_refines:
  assumes "sim SS MM a s" and "curr_task s \<noteq> idle_task s" and "length (gdt_table s) = 256"
    and "t \<notin> live a s" and "tasks_sep (insert t (live a s))" and "can_create t name bs s"
  shows "\<exists>s'. task_init t name entry esp s = Done 0 s' \<and> sim SS MM (a_create t a) s' \<and> curr_task s' = curr_task s \<and>
    cstr (mem s') t bs \<and> t_eip (tss (tasks s' t)) = entry \<and> t_esp (tss (tasks s' t)) = esp \<and>
    if_set (t_eflags (tss (tasks s' t))) \<and> sel_ok s' t"
  using create_sim [OF assms] by blast

theorem task_init_refines_witness:
  "\<exists>s'. task_init 0x11800 0x16200 0x20000 0x21000 sample_running = Done 0 s' \<and>
     tasks_on LReady s' = [0x10028, 0x11000, 0x11800] \<and> t_eip (tss (tasks s' 0x11800)) = 0x20000"
proof -
  have "0x11800 \<notin> live (boot_spec sample_kernel) sample_running"
    "tasks_sep (insert 0x11800 (live (boot_spec sample_kernel) sample_running))"
    unfolding sample_creates by (simp_all add: tasks_sep_def task_obj_ok_def SIZEOF_task_t_def)
  from task_init_refines [OF sample_boots(2) sample_curr(2) sample_creates(1) this sample_creates(2), of "0x20000" "0x21000"]
  obtain s' where "task_init 0x11800 0x16200 0x20000 0x21000 sample_running = Done 0 s'"
    "sim {0x14200} {0x14000, 0x14100} (a_create 0x11800 (boot_spec sample_kernel)) s'"
    "t_eip (tss (tasks s' 0x11800)) = 0x20000" by blast
  then show ?thesis using sim_tasks_on(1) by (force simp: a_create_def sample_spec)
qed

section \<open>Creation that fails\<close>

text \<open>C30. A rejected name. With an empty name or one of more than 32 bytes \<^verbatim>\<open>task_init\<close> returns \<open>-1\<close>
  and puts the task on no list, but the descriptor it allocated for the task stays taken.\<close>

theorem task_init_rejects_name:
  assumes "mutex_idle (cpu_mutex s) s" and "length (gdt_table s) = 256" and "find_free 255 (gdt_table s) = Some i"
    and "cstr (mem s) name bs" and "bs = [] \<or> 32 < length bs" and "length bs < 2 ^ 31"
  shows "\<exists>s'. task_init t name entry esp s = Done (-1) s' \<and> ready_list s' = ready_list s \<and>
    task_list s' = task_list s \<and> nodes s' = nodes s \<and> mem s' = mem s \<and>
    gdt_table s' = (gdt_table s)[i := make_desc (t + OFFSET_tss) 104 0x89] \<and> find_free 255 (gdt_table s') \<noteq> Some i"
proof -
  let ?s = "tss_ready t i entry esp s"
  have m: "mem ?s = mem s" by (simp add: tss_ready_def)
  have "kernel_strlen (mem s) name = Some (of_nat (length bs))" using assms(4) by (rule strlen_cstr)
  moreover have "sint (of_nat (length bs) :: cint) = int (length bs)" by (rule of_nat_level(3) [OF assms(6)])
  ultimately have "task_init t name entry esp s = Done (-1) ?s"
    unfolding task_init_def tss_init_ready [OF assms(1-3)] and_then.simps m
    using assms(5) by (auto simp: TASK_NAME_MAX_IN_SIZE_def)
  moreover have i: "i < 256" using find_free_Some [OF _ assms(3)] by simp
  have at: "attr (make_desc (t + OFFSET_tss) 104 0x89) \<noteq> 0" by (simp add: make_desc_def)
  have "find_free 255 (gdt_table ?s) \<noteq> Some i"
  proof
    assume "find_free 255 (gdt_table ?s) = Some i"
    then have "attr (gdt_table ?s ! i) = 0" using find_free_Some [of 255] by simp
    then show False using at i assms(2) by (simp add: tss_ready_def)
  qed
  ultimately show ?thesis by (simp add: tss_ready_def)
qed

theorem task_init_rejects_name_witness:
  "\<exists>s'. task_init 0x11800 0x17000 0 0 blank_kernel = Done (-1) s' \<and> attr (gdt_table s' ! 1) \<noteq> 0"
proof -
  let ?s = blank_kernel
  have c: "mutex_idle (cpu_mutex ?s) ?s" "length (gdt_table ?s) = 256" "cstr (mem ?s) 0x17000 []"
    by (simp_all add: blank_kernel_def mutex_idle_def list_init_def cstr_Nil)
  have "find_free (Suc 254) (gdt_table ?s) = Some 1"
    by (subst find_free_step) (simp add: blank_kernel_def)
  then have f: "find_free 255 (gdt_table ?s) = Some 1" by simp
  from task_init_rejects_name [OF c(1,2) f c(3), of "0x11800" 0 0] obtain s' where
    "task_init 0x11800 0x17000 0 0 ?s = Done (-1) s'"
    "gdt_table s' = (gdt_table ?s)[1 := make_desc (0x11800 + OFFSET_tss) 104 0x89]" by auto
  then show ?thesis using c(2) by (simp add: make_desc_def)
qed

text \<open>C31. A full descriptor table. With no free descriptor \<^verbatim>\<open>task_init\<close> still returns 0 and makes the
  task ready: the failure of \<^verbatim>\<open>tss_init\<close> is ignored, the task keeps whatever selector and saved context
  it had and the table is unchanged.\<close>

theorem task_init_ignores_full_table:
  assumes "mutex_idle (cpu_mutex s) s" and "find_free 255 (gdt_table s) = None"
    and "cstr (mem s) name bs" and "bs \<noteq> []" and "length bs \<le> 32"
    and "region t (Suc (length bs)) \<inter> region name (Suc (length bs)) = {}"
    and "qrel T q s" and "t \<in> T" and "\<And>i. t \<notin> qset q i" and "t \<noteq> idle_task s"
    and "q LReady = Some R" and "q LAll = Some A"
  shows "\<exists>s'. task_init t name entry esp s = Done 0 s' \<and> tasks_on LReady s' = R @ [t] \<and>
    tss_sel (tasks s' t) = tss_sel (tasks s t) \<and> tss (tasks s' t) = tss (tasks s t) \<and> gdt_table s' = gdt_table s"
proof -
  let ?s = "mutex_released (cpu_mutex s) s"
  have tss: "tss_init t entry esp s = Done (-1) ?s"
    using get_alloc_desc_free [OF assms(1)] assms(2) by (simp add: tss_init_def)
  have fr: "mem ?s = mem s" "idle_task ?s = idle_task s" "gdt_table ?s = gdt_table s" "tasks ?s = tasks s"
    by (simp_all add: mutex_released_def upd_mutex_def idle_task_def)
  have n: "kernel_strlen (mem s) name = Some (of_nat (length bs))" using assms(3) by (rule strlen_cstr)
  have l: "sint (of_nat (length bs) :: cint) = int (length bs)" "(of_nat (length bs) :: cint) \<noteq> 0"
    using of_nat_level [of "length bs"] assms(4,5) by simp_all
  obtain m where m: "kernel_strcpy t name (mem s) = Some m" using strcpy_cstr [OF assms(3,6)] assms(5) by auto
  let ?s1 = "?s\<lparr>mem := m\<rparr>"
  have init: "task_init t name entry esp s = Done 0 (task_setup t ?s1)"
    unfolding task_init_def tss and_then.simps fr
    using n l m assms(4,5) by (simp add: TASK_NAME_MAX_IN_SIZE_def)
  have "hdr i ?s1 = hdr i s" for i by (cases i) (auto simp: mutex_released_def upd_mutex_def)
  then have "qrel T q ?s1"
    using assms(7) qrel_cong [of ?s1 s T q] by (simp add: mutex_released_def upd_mutex_def)
  moreover have "idle_task ?s1 = idle_task s" by (simp add: mutex_released_def upd_mutex_def idle_task_def)
  ultimately have "qrel T (q(LReady \<mapsto> R @ [t], LAll \<mapsto> A @ [t])) (task_setup t ?s1)"
    using assms(8-12) by (intro task_setup_qrel) auto
  then have "tasks_on LReady (task_setup t ?s1) = R @ [t]" by (rule qrel_tasks_on) simp
  then show ?thesis using init fr by (simp add: task_setup_frame)
qed

definition full_kernel :: kernel where
  "full_kernel = blank_kernel\<lparr>gdt_table := replicate 256 code_desc, mem := put_string 0x16200 ''x'' (\<lambda>a. 0)\<rparr>"

theorem task_init_ignores_full_table_witness:
  "\<exists>s'. task_init 0x11800 0x16200 0 0 full_kernel = Done 0 s' \<and> tasks_on LReady s' = [0x11800] \<and>
     gdt_table s' = replicate 256 code_desc"
proof -
  let ?s = full_kernel and ?bs = "[chr CHR ''x'']"
  have c: "mutex_idle (cpu_mutex ?s) ?s" "cstr (mem ?s) 0x16200 ?bs"
    by (simp_all add: full_kernel_def blank_kernel_def mutex_idle_def list_init_def cstr_Nil cstr_Cons chr_def)
  have f: "find_free 255 (gdt_table ?s) = None"
    by (subst find_free_None) (simp_all add: full_kernel_def code_desc_def)
  have r: "region 0x11800 (Suc (length ?bs)) \<inter> region 0x16200 (Suc (length ?bs)) = {}" by (rule region_apart) simp
  have "ready_list ?s = list_init" "sleep_list ?s = list_init" "task_list ?s = list_init"
    by (simp_all add: full_kernel_def blank_kernel_def)
  from q0_rel(1) [OF this] have q: "qrel {0x11800} q0 ?s"
    by (rule qrel_more_tasks) (simp_all add: tasks_sep_def task_obj_ok_def SIZEOF_task_t_def)
  have i: "0x11800 \<noteq> idle_task ?s"
    by (simp add: full_kernel_def blank_kernel_def idle_task_def sample_symbols_def OFFSET_idle_task_def)
  have "0x11800 \<notin> qset q0 j" for j by (simp add: q0_def qset_def)
  from task_init_ignores_full_table [OF c(1) f c(2) _ _ r q _ this i, of "[]" "[]" 0 0] show ?thesis
    by (auto simp: q0_def full_kernel_def)
qed

end
