(* ===== verification/Periodic.thy ===== *)
theory Periodic
  imports Demo Creation
begin

text \<open>
  \<^verbatim>\<open>new_task2_entry\<close> and \<^verbatim>\<open>new_task3_entry\<close> of \<^verbatim>\<open>src/source/kernel/init/init.c\<close>, two tasks that print a line every
  three seconds (their creation is commented out in \<^verbatim>\<open>init_main\<close>), in the stepwise form of the demonstration. The steps of a
  printed line, run without interruption, are exactly the call of \<^verbatim>\<open>log_printfln\<close>; a printed line is invisible to the
  scheduler; so a round of such a task is one line and one sleep.
\<close>

section \<open>Operations\<close>

definition new_task2 :: "kernel \<Rightarrow> addr" where "new_task2 k = symaddr k ''new_task2''"
definition new_task3 :: "kernel \<Rightarrow> addr" where "new_task3 k = symaddr k ''new_task3''"

definition new_task2_entry :: "demo \<Rightarrow> demo option" where
  "new_task2_entry d =
    (let k = dk d; t = new_task2 k
     in case pc_of d t of
          Sleeps \<Rightarrow> Some (goto t Format (sys_sleep 3000 k) d)
        | _ \<Rightarrow> print_step t (symaddr k ''str_new_task2'') Sleeps d)"

definition new_task3_entry :: "demo \<Rightarrow> demo option" where
  "new_task3_entry d =
    (let k = dk d; t = new_task3 k
     in case pc_of d t of
          Sleeps \<Rightarrow> Some (goto t Format (sys_sleep 3000 k) d)
        | _ \<Rightarrow> print_step t (symaddr k ''str_new_task3'') Sleeps d)"

text \<open>The steps of a task with nothing in between.\<close>

fun uninterrupted :: "nat \<Rightarrow> (demo \<Rightarrow> demo option) \<Rightarrow> demo \<Rightarrow> demo option" where
  "uninterrupted 0 f d = Some d"
| "uninterrupted (Suc n) f d = Option.bind (f d) (uninterrupted n f)"

section \<open>The steps of a line are the call\<close>

lemma goto_simps [simp]:
  "dk (goto t c k d) = k" "pc_of (goto t c k d) t = c" "goto t c k (goto t c' k' d) = goto t c k d"
  "sbuf (goto t c k d) = sbuf d" "cnt (goto t c k d) = cnt d"
  by (simp_all add: goto_def)

lemma uninterrupted_add:
  "uninterrupted (m + n) f d = Option.bind (uninterrupted m f d) (uninterrupted n f)"
proof (induction m arbitrary: d)
  case (Suc m)
  then show ?case by (cases "f d") simp_all
qed simp

abbreviation done_at :: "demo_pc \<Rightarrow> bool" where
  "done_at c \<equiv> c \<in> {Notify, Sleeps, Waits}"

lemma print_stops: "done_at (pc_of d t) \<Longrightarrow> print_step t fmt next d = None"
  by (auto simp: print_step_def Let_def)

lemma print_puts: "print_step t fmt next (goto t (Puts p) k d) =
    map_option (\<lambda>(q, k1). goto t (case q of Some p' \<Rightarrow> Puts p' | None \<Rightarrow> Unlock) k1 d) (put_step p k)"
  by (simp add: print_step_def case_prod_unfold Let_def)

text \<open>What \<^verbatim>\<open>log_printfln\<close> does after it has taken the mutex.\<close>

definition finish_line :: "addr \<Rightarrow> kernel \<Rightarrow> kernel option" where
  "finish_line p k = Option.bind (log_puts p k) (\<lambda>k1.
     let k2 = outb COM1_PORT (chr (CHR 0x0A)) (outb COM1_PORT (chr (CHR 0x0D)) k1)
     in case rein_mutex_unlock (log_mutex k2) k2 of Inl e \<Rightarrow> None | Inr k3 \<Rightarrow> Some k3)"

lemma finish_line_rounds: "finish_line p k =
    (if mem k p \<noteq> 0 then finish_line (p + 1) (k\<lparr>io := io k @ [In 0x3FD, Out 0x3F8 (mem k p)]\<rparr>)
     else case rein_mutex_unlock (log_mutex k) (k\<lparr>io := io k @ [Out 0x3F8 13, Out 0x3F8 10]\<rparr>) of Inl e \<Rightarrow> None | Inr k3 \<Rightarrow> Some k3)"
proof (cases "mem k p = 0")
  case True
  have "log_mutex (k\<lparr>io := es\<rparr>) = log_mutex k" for es by (simp add: log_mutex_def)
  then show ?thesis using True unfolding finish_line_def
    by (subst log_puts.simps) (simp add: outb_def COM1_PORT_def chr_def Let_def)
next
  case False
  then show ?thesis unfolding finish_line_def
    by (subst log_puts.simps) (simp add: uart_wait_once outb_def COM1_PORT_def)
qed

lemma put_step_eq: "put_step p k =
    Some (if mem k p \<noteq> 0 then (Some (p + 1), k\<lparr>io := io k @ [In 0x3FD, Out 0x3F8 (mem k p)]\<rparr>)
      else (None, k\<lparr>io := io k @ [Out 0x3F8 13, Out 0x3F8 10]\<rparr>))"
  by (simp add: put_step_def uart_wait_once outb_def COM1_PORT_def chr_def)

lemma unlock_finishes:
  assumes "done_at next"
  shows "(\<exists>n. uninterrupted n (print_step t fmt next) (goto t Unlock k d) = Some (goto t next k' d)) \<longleftrightarrow>
    rein_mutex_unlock (log_mutex k) k = Inr k'"
proof
  assume "rein_mutex_unlock (log_mutex k) k = Inr k'"
  then have "uninterrupted 1 (print_step t fmt next) (goto t Unlock k d) = Some (goto t next k' d)" by (simp add: print_step_def)
  then show "\<exists>n. uninterrupted n (print_step t fmt next) (goto t Unlock k d) = Some (goto t next k' d)" by blast
next
  assume "\<exists>n. uninterrupted n (print_step t fmt next) (goto t Unlock k d) = Some (goto t next k' d)"
  then obtain n where n: "uninterrupted n (print_step t fmt next) (goto t Unlock k d) = Some (goto t next k' d)" by blast
  have "goto t Unlock k d \<noteq> goto t next k' d" using assms by (metis demo_pc.distinct goto_simps(2) insertE singletonD)
  then obtain m where m: "n = Suc m" using n by (cases n) auto
  then obtain k1 where k1: "rein_mutex_unlock (log_mutex k) k = Inr k1"
    "uninterrupted m (print_step t fmt next) (goto t next k1 d) = Some (goto t next k' d)"
    using n by (auto simp: print_step_def split: sum.splits)
  have "print_step t fmt next (goto t next k1 d) = None" using assms by (intro print_stops) simp
  then have "goto t next k1 d = goto t next k' d" using k1(2) by (cases m) simp_all
  then have "k1 = k'" by (metis goto_simps(1))
  then show "rein_mutex_unlock (log_mutex k) k = Inr k'" using k1(1) by simp
qed

definition line_ended :: "kernel \<Rightarrow> kernel" where
  "line_ended k = k\<lparr>io := io k @ [Out 0x3F8 13, Out 0x3F8 10]\<rparr>"

lemma finish_line_puts: "finish_line p k = Option.bind (log_puts p k) (\<lambda>k1.
    case rein_mutex_unlock (log_mutex k1) (line_ended k1) of Inl e \<Rightarrow> None | Inr k3 \<Rightarrow> Some k3)"
proof -
  have "log_mutex (k\<lparr>io := es\<rparr>) = log_mutex k" for k :: kernel and es by (simp add: log_mutex_def)
  then show ?thesis by (simp add: finish_line_def outb_def COM1_PORT_def chr_def line_ended_def Let_def)
qed

lemma puts_steps:
  assumes "log_puts p k = Some k1"
  shows "\<exists>n. uninterrupted n (print_step t fmt next) (goto t (Puts p) k d) = Some (goto t Unlock (line_ended k1) d)"
proof (rule log_puts.raw_induct [where P = "\<lambda>p k k1. \<exists>n. uninterrupted n (print_step t fmt next) (goto t (Puts p) k d) =
    Some (goto t Unlock (line_ended k1) d)", OF _ assms])
  fix f :: "addr \<Rightarrow> kernel \<Rightarrow> kernel option" and p k k1
  assume ih: "\<And>p k k1. f p k = Some k1 \<Longrightarrow> \<exists>n. uninterrupted n (print_step t fmt next) (goto t (Puts p) k d) =
      Some (goto t Unlock (line_ended k1) d)"
    and step: "(if mem k p \<noteq> 0 then Option.bind (uart_wait k) (\<lambda>s1. f (p + 1) (outb COM1_PORT (mem s1 p) s1)) else Some k) = Some k1"
  show "\<exists>n. uninterrupted n (print_step t fmt next) (goto t (Puts p) k d) = Some (goto t Unlock (line_ended k1) d)"
  proof (cases "mem k p = 0")
    case True
    then have "uninterrupted 1 (print_step t fmt next) (goto t (Puts p) k d) = Some (goto t Unlock (line_ended k1) d)"
      using step by (simp add: print_puts put_step_eq line_ended_def)
    then show ?thesis by blast
  next
    case False
    let ?k = "k\<lparr>io := io k @ [In 0x3FD, Out 0x3F8 (mem k p)]\<rparr>"
    have "f (p + 1) ?k = Some k1" using step False by (simp add: uart_wait_once outb_def COM1_PORT_def)
    then obtain n where "uninterrupted n (print_step t fmt next) (goto t (Puts (p + 1)) ?k d) = Some (goto t Unlock (line_ended k1) d)"
      using ih by blast
    then have "uninterrupted (Suc n) (print_step t fmt next) (goto t (Puts p) k d) = Some (goto t Unlock (line_ended k1) d)"
      using False by (simp add: print_puts put_step_eq)
    then show ?thesis by blast
  qed
qed

lemma puts_finishes:
  assumes "done_at next"
  shows "(\<exists>n. uninterrupted n (print_step t fmt next) (goto t (Puts p) k d) = Some (goto t next k' d)) \<longleftrightarrow> finish_line p k = Some k'"
proof
  assume "finish_line p k = Some k'"
  then obtain k1 where k1: "log_puts p k = Some k1" "rein_mutex_unlock (log_mutex k1) (line_ended k1) = Inr k'"
    unfolding finish_line_puts bind_eq_Some_conv by (metis (no_types, lifting) old.sum.exhaust old.sum.simps(5,6) option.distinct(1) option.inject)
  have "log_mutex (line_ended k1) = log_mutex k1" by (simp add: line_ended_def log_mutex_def)
  then obtain m where m: "uninterrupted m (print_step t fmt next) (goto t Unlock (line_ended k1) d) = Some (goto t next k' d)"
    using unlock_finishes [OF assms, of t fmt "line_ended k1" d k'] k1(2) by auto
  obtain n where "uninterrupted n (print_step t fmt next) (goto t (Puts p) k d) = Some (goto t Unlock (line_ended k1) d)"
    using puts_steps [OF k1(1)] by blast
  then have "uninterrupted (n + m) (print_step t fmt next) (goto t (Puts p) k d) = Some (goto t next k' d)"
    using m by (simp add: uninterrupted_add)
  then show "\<exists>n. uninterrupted n (print_step t fmt next) (goto t (Puts p) k d) = Some (goto t next k' d)" by blast
next
  have "uninterrupted n (print_step t fmt next) (goto t (Puts p) k d) = Some (goto t next k' d) \<Longrightarrow> finish_line p k = Some k'" for n
  proof (induction n arbitrary: p k)
    case 0
    then have "pc_of (goto t (Puts p) k d) t = pc_of (goto t next k' d) t" by simp
    then show ?case using assms by auto
  next
    case (Suc n)
    show ?case
    proof (cases "mem k p = 0")
      case True
      let ?k = "k\<lparr>io := io k @ [Out 0x3F8 13, Out 0x3F8 10]\<rparr>"
      have "uninterrupted n (print_step t fmt next) (goto t Unlock ?k d) = Some (goto t next k' d)"
        using Suc.prems True by (simp add: print_puts put_step_eq)
      then have "rein_mutex_unlock (log_mutex ?k) ?k = Inr k'" using unlock_finishes [OF assms] by blast
      then show ?thesis using True by (subst finish_line_rounds) (simp add: log_mutex_def)
    next
      case False
      then show ?thesis using Suc by (subst finish_line_rounds) (simp add: print_puts put_step_eq)
    qed
  qed
  then show "\<exists>n. uninterrupted n (print_step t fmt next) (goto t (Puts p) k d) = Some (goto t next k' d) \<Longrightarrow> finish_line p k = Some k'"
    by blast
qed

text \<open>Taking the mutex without waiting for it.\<close>

definition lockable :: "kernel \<Rightarrow> bool" where
  "lockable k \<longleftrightarrow> locker (mutexes k (log_mutex k)) = 0 \<or> owner (mutexes k (log_mutex k)) = curr_task k"

lemma log_line_finish:
  assumes "lockable k"
  shows "log_line p k = Done () k' \<longleftrightarrow> finish_line p (rein_mutex_lock (log_mutex k) k) = Some k'"
proof -
  have "curr_task (rein_mutex_lock (log_mutex k) k) = curr_task k"
    using assms by (auto simp: lockable_def rein_mutex_lock_def task_current_def Let_def)
  then show ?thesis
    by (auto simp: log_line_def lock_call_def finish_line_def unlock_call_def Let_def split: option.splits sum.splits)
qed

lemma stop_never_done: "itoa_stop e s \<noteq> Done x s'"
  unfolding itoa_stop_def by (cases "log_println (symaddr s (itoa_message e)) s") simp_all

lemma print_call:
  assumes "pc_of d t = Format" and "lockable (dk d)" and "done_at next"
  shows "log_printfln (sbuf d t) fmt [cnt d t] (dk d) = Done () k' \<longleftrightarrow>
    (\<exists>n. uninterrupted n (print_step t fmt next) d = Some ((goto t next k' d)\<lparr>cnt := (cnt d)(t := cnt d t + 1)\<rparr>))"
proof -
  let ?d = "d\<lparr>cnt := (cnt d)(t := cnt d t + 1)\<rparr>" and ?f = "print_step t fmt next"
  have e: "(goto t c k d)\<lparr>cnt := (cnt d)(t := cnt d t + 1)\<rparr> = goto t c k ?d" for c k by (simp add: goto_def)
  have first: "d \<noteq> goto t next k' ?d" using assms(1,3) by (metis demo_pc.distinct goto_simps(2) insertE singletonD)
  show ?thesis
  proof (cases "\<exists>m. kernel_vsprintf (sbuf d t) fmt [cnt d t] (mem (dk d)) = Some (Inr m)")
    case False
    then have "?f d = None" using assms(1) by (simp add: print_step_def Let_def split: option.splits sum.splits)
    then have "uninterrupted n ?f d \<noteq> Some (goto t next k' ?d)" for n using first by (cases n) auto
    moreover have "log_printfln (sbuf d t) fmt [cnt d t] (dk d) \<noteq> Done () k'"
      using False by (auto simp: log_printfln_def stop_never_done split: option.splits sum.splits)
    ultimately show ?thesis unfolding e by simp
  next
    case True
    then obtain m where Some: "kernel_vsprintf (sbuf d t) fmt [cnt d t] (mem (dk d)) = Some (Inr m)" by blast
    let ?k = "(dk d)\<lparr>mem := m\<rparr>"
    have lk: "lockable ?k" using assms(2) by (simp add: lockable_def log_mutex_def)
    let ?l = "rein_mutex_lock (log_mutex ?k) ?k"
    have s1: "?f d = Some (goto t Lock ?k ?d)" using assms(1) Some by (simp add: print_step_def e)
    have s2: "?f (goto t Lock ?k ?d) = Some (goto t (Puts (sbuf d t)) ?l ?d)" by (simp add: print_step_def) (simp add: goto_def Let_def)
    have "(\<exists>n. uninterrupted n ?f d = Some (goto t next k' ?d)) \<longleftrightarrow>
        (\<exists>n. uninterrupted n ?f (goto t (Puts (sbuf d t)) ?l ?d) = Some (goto t next k' ?d))"
    proof
      assume "\<exists>n. uninterrupted n ?f d = Some (goto t next k' ?d)"
      then obtain n where n: "uninterrupted n ?f d = Some (goto t next k' ?d)" by blast
      obtain i where i: "n = Suc i" using n first by (cases n) auto
      then have "uninterrupted i ?f (goto t Lock ?k ?d) = Some (goto t next k' ?d)" using n s1 by simp
      moreover have "goto t Lock ?k ?d \<noteq> goto t next k' ?d" using assms(3) by (metis demo_pc.distinct goto_simps(2) insertE singletonD)
      ultimately obtain j where "uninterrupted j ?f (goto t (Puts (sbuf d t)) ?l ?d) = Some (goto t next k' ?d)"
        using s2 by (cases i) auto
      then show "\<exists>n. uninterrupted n ?f (goto t (Puts (sbuf d t)) ?l ?d) = Some (goto t next k' ?d)" by blast
    next
      assume "\<exists>n. uninterrupted n ?f (goto t (Puts (sbuf d t)) ?l ?d) = Some (goto t next k' ?d)"
      then obtain n where "uninterrupted n ?f (goto t (Puts (sbuf d t)) ?l ?d) = Some (goto t next k' ?d)" by blast
      then have "uninterrupted (Suc (Suc n)) ?f d = Some (goto t next k' ?d)" using s1 s2 by simp
      then show "\<exists>n. uninterrupted n ?f d = Some (goto t next k' ?d)" by blast
    qed
    then show ?thesis
      using puts_finishes [OF assms(3), of t fmt "sbuf d t" ?l ?d k'] log_line_finish [OF lk, of "sbuf d t" k'] Some
      unfolding e by (simp add: log_printfln_def)
  qed
qed

section \<open>A line is invisible to the scheduler\<close>

lemma unlock_after_lock:
  assumes "awf a" and "amtx a p = None" and "aready a \<noteq> []"
  shows "a_unlock p (a_lock p a) = Some a" "aready (a_lock p a) = aready a"
proof -
  have "mtx_wf a p" using assms(1) by (simp add: awf_def)
  then have "amtxq a p = []" using assms(2) by (simp add: mtx_wf_def)
  moreover have "(amtx a)(p := None) = amtx a" using assms(2) by auto
  ultimately show "a_unlock p (a_lock p a) = Some a" "aready (a_lock p a) = aready a"
    using assms(2) by (simp_all add: a_lock_def a_unlock_def)
qed

lemma log_printfln_sim:
  assumes s: "sim SS MM a k" and r: "aready a \<noteq> []" and G: "log_mutex k \<in> MM" "amtx a (log_mutex k) = None"
    and m: "kernel_vsprintf buf fmt args (mem k) = Some (Inr m)" "cstr m buf out"
  shows "\<exists>k'. log_printfln buf fmt args k = Done () k' \<and> sim SS MM a k' \<and> mem k' = m \<and> symaddr k' = symaddr k \<and>
    io k' = io k @ uart_events out @ [Out 0x3F8 13, Out 0x3F8 10] \<and> lockable k"
proof -
  let ?k = "k\<lparr>mem := m\<rparr>" and ?G = "log_mutex k"
  let ?l = "rein_mutex_lock ?G ?k" and ?es = "uart_events out"
  have s1: "sim SS MM a ?k" using s by simp
  have l0: "locker (mutexes ?k ?G) = 0" using sim_mtx [OF s1, of ?G] G by (simp add: mtx_rel_def)
  have lk: "lockable ?k" "lockable k" "log_mutex ?k = ?G" using l0 by (simp_all add: lockable_def log_mutex_def)
  have s2: "sim SS MM (a_lock ?G a) ?l" by (rule sim_lock [OF s1 r G(1)]) (use l0 in simp)
  have o: "mem ?l = m" "symaddr ?l = symaddr k" "io ?l = io k"
    using call_frame(4) [of ?G ?k] by simp_all
  let ?e = "line_ended (?l\<lparr>io := io ?l @ ?es\<rparr>)"
  have s3: "sim SS MM (a_lock ?G a) ?e" using s2 by (simp add: line_ended_def)
  note u = unlock_after_lock [OF _ G(2) r]
  have a: "awf a" using s by (simp add: sim_def)
  have st: "astep (MutexUnlock ?G) (a_lock ?G a) = Some a" using u [OF a] r by (simp add: astep_def acall_def)
  have "allowed SS MM (MutexUnlock ?G) ?e" using simD(4) [OF s3] u(2) [OF a] r G(1) by (simp add: allowed_def)
  from kexec_refines [OF s3 this] st obtain k' where k': "kexec (MutexUnlock ?G) ?e = Some k'" "sim SS MM a k'" by auto
  then have un: "rein_mutex_unlock ?G ?e = Inr k'" by (simp add: kexec_def split: sum.splits)
  have lm: "log_mutex (?l\<lparr>io := es\<rparr>) = ?G" for es using o(2) by (simp add: log_mutex_def)
  have "log_puts buf ?l = Some (?l\<lparr>io := io ?l @ ?es\<rparr>)" using m(2) o(1) by (intro log_puts_cstr) simp
  then have "finish_line buf ?l = Some k'" using un lm by (simp add: finish_line_puts)
  then have "log_printfln buf fmt args k = Done () k'"
    using log_line_finish [OF lk(1), of buf k'] m(1) lk(3) by (simp add: log_printfln_def)
  moreover have "outside k' = outside ?e" by (rule outside_unlock [OF un])
  ultimately show ?thesis using k'(2) o lk(2) by (auto simp: outside_fields line_ended_def)
qed

section \<open>A round of a periodic task\<close>

text \<open>Both entries have this form.\<close>

definition periodic :: "addr \<Rightarrow> addr \<Rightarrow> demo \<Rightarrow> demo option" where
  "periodic t fmt d = (case pc_of d t of
      Sleeps \<Rightarrow> Some (goto t Format (sys_sleep 3000 (dk d)) d)
    | _ \<Rightarrow> print_step t fmt Sleeps d)"

lemma entries_periodic:
  "new_task2_entry d = periodic (new_task2 (dk d)) (symaddr (dk d) ''str_new_task2'') d"
  "new_task3_entry d = periodic (new_task3 (dk d)) (symaddr (dk d) ''str_new_task3'') d"
  by (simp_all add: new_task2_entry_def new_task3_entry_def periodic_def Let_def)

lemma print_step_symaddr: "print_step t fmt next d = Some d' \<Longrightarrow> symaddr (dk d') = symaddr (dk d)"
  using outside_unlock [of "log_mutex (dk d)" "dk d"] call_frame(4) [of "log_mutex (dk d)" "dk d"]
  by (auto simp: print_step_def outside_fields put_step_eq Let_def goto_def split: demo_pc.splits option.splits sum.splits if_splits)

lemma periodic_symaddr: "periodic t fmt d = Some d' \<Longrightarrow> symaddr (dk d') = symaddr (dk d)"
  using call_frame(3) [of 3000 "dk d"] print_step_symaddr [of t fmt Sleeps d]
  by (auto simp: periodic_def outside_fields goto_def split: demo_pc.splits)

lemma uninterrupted_mono:
  assumes "\<And>x y. I x \<Longrightarrow> f x = Some y \<Longrightarrow> g x = Some y \<and> I y"
  shows "I d \<Longrightarrow> uninterrupted n f d = Some d' \<Longrightarrow> uninterrupted n g d = Some d' \<and> I d'"
proof (induction n arbitrary: d)
  case (Suc n)
  then obtain y where y: "f d = Some y" "uninterrupted n f y = Some d'" by (auto simp: bind_eq_Some_conv)
  then show ?case using assms [OF Suc.prems(1) y(1)] Suc.IH [of y] by simp
qed simp

text \<open>What a round needs: the task runs, its format string is in memory and apart from its buffer, the log is free.\<close>

definition round_ready :: "addr set \<Rightarrow> addr set \<Rightarrow> aspec \<Rightarrow> addr \<Rightarrow> addr \<Rightarrow> string \<Rightarrow> demo \<Rightarrow> bool" where
  "round_ready SS MM a t fmt lit d \<longleftrightarrow> sim SS MM a (dk d) \<and> curr_task (dk d) = t \<and> t \<in> set (aall a) \<and>
     log_mutex (dk d) \<in> MM \<and> amtx a (log_mutex (dk d)) = None \<and> pc_of d t = Format \<and>
     string_at (sbuf d t) fmt (map chr lit) (dk d) \<and> unat (sbuf d t) + 160 \<le> 2 ^ 32"

lemma periodic_formats:
  "fmt_out str (map chr ''new task2: %d'') [v] = Some (map chr ''new task2: '' @ dec v)" "str_args (map chr ''new task2: %d'') [v] = []"
  "fmt_out str (map chr ''new task3: %d'') [v] = Some (map chr ''new task3: '' @ dec v)" "str_args (map chr ''new task3: %d'') [v] = []"
  by (simp_all add: dec_def chr_def)

lemma periodic_round:
  assumes r: "round_ready SS MM a t fmt lit d" and out: "fmt_out (\<lambda>a. []) (map chr lit) [cnt d t] = Some bs"
      "str_args (map chr lit) [cnt d t] = []" "0 \<notin> set bs" "length bs \<le> 127"
  shows "\<exists>n d'. uninterrupted n (periodic t fmt) d = Some d' \<and> pc_of d' t = Format \<and> cnt d' t = cnt d t + 1 \<and>
    uart_out (io (dk d')) = uart_out (io (dk d)) @ bs @ [13, 10] \<and> sim SS MM (a_sleep 301 a) (dk d')"
proof -
  let ?k = "dk d" and ?b = "sbuf d t"
  have d: "sim SS MM a ?k" "curr_task ?k = t" "t \<in> set (aall a)" "log_mutex ?k \<in> MM" "amtx a (log_mutex ?k) = None"
    "pc_of d t = Format" "cstr (mem ?k) fmt (map chr lit)" "region fmt (Suc (length (map chr lit))) \<inter> region ?b 128 = {}"
    "unat ?b + 160 \<le> 2 ^ 32" using r unfolding round_ready_def string_at_def by blast+
  obtain R where R: "aready a = t # R" using running_ready [OF d(1,3,2)] by blast
  have sub: "region ?b (Suc (length bs)) \<subseteq> region ?b 128"
    using region_append [of ?b "Suc (length bs)" "127 - length bs"] out(4) by (auto simp del: region.simps)
  have "region fmt (Suc (length (map chr lit))) \<inter> region ?b (Suc (length bs)) = {}" using d(8) sub by blast
  moreover have "unat ?b + length bs + 33 \<le> 2 ^ 32" using d(9) out(4) by linarith
  ultimately have "fmt_ready (\<lambda>a. []) (mem ?k) fmt (map chr lit) [cnt d t] ?b (length bs)"
    using d(7) unfolding fmt_ready_def out(2) by simp
  from vsprintf_loop_writes [OF out(1) this] obtain m where
    m: "kernel_vsprintf ?b fmt [cnt d t] (mem ?k) = Some (Inr m)" "writes (mem ?k) ?b (bs @ [0]) m" by (auto simp: kernel_vsprintf_def)
  have "cstr m ?b bs" using m(2) out(3) by (simp add: writes_def cstr_def)
  with log_printfln_sim [OF d(1) _ d(4,5) m(1)] R obtain k' where
    k': "log_printfln ?b fmt [cnt d t] ?k = Done () k'" "sim SS MM a k'" "io k' = io ?k @ uart_events bs @ [Out 0x3F8 13, Out 0x3F8 10]"
    "lockable ?k" by auto
  let ?d = "(goto t Sleeps k' d)\<lparr>cnt := (cnt d)(t := cnt d t + 1)\<rparr>"
  obtain n where n: "uninterrupted n (print_step t fmt Sleeps) d = Some ?d" using print_call [OF d(6) k'(4), of Sleeps] k'(1) by auto
  have "uninterrupted n (periodic t fmt) d = Some ?d"
    using uninterrupted_mono [where I = "\<lambda>x. True", OF _ _ n] print_stops
    by (fastforce simp: periodic_def split: demo_pc.split)
  moreover let ?e = "goto t Format (sys_sleep 3000 k') ?d"
  have "uninterrupted 1 (periodic t fmt) ?d = Some ?e" by (simp add: periodic_def)
  ultimately have "uninterrupted (n + 1) (periodic t fmt) d = Some ?e" unfolding uninterrupted_add by simp
  moreover have "sim SS MM (a_sleep 301 a) (sys_sleep 3000 k')"
    using sim_sleep [OF k'(2), of 3000] R by (simp add: spec_ticks_def)
  moreover have "io (sys_sleep 3000 k') = io k'" using call_frame(3) by blast
  moreover have "uart_out (uart_events bs) = bs" by (induction bs) (simp_all add: uart_events_def)
  ultimately show ?thesis using k'(3) by (intro exI [of _ "n + 1"] exI [of _ ?e]) (simp add: goto_def)
qed

section \<open>Properties\<close>

text \<open>The steps of a printed line are the call, so that what is proved of the call holds of the steps. When the log is free or held by the caller, the call of
  \<^verbatim>\<open>log_printfln(fmt, count++)\<close> returns with machine \<open>k'\<close> exactly when the steps into which the demonstration cuts it (format,
  lock, one step for each byte, unlock), made without interruption, come to an end, and then with the same machine.\<close>

lemma print_steps_equivalent:
  assumes "pc_of d t = Format" and "lockable (dk d)" and "next \<in> {Notify, Sleeps, Waits}"
  shows "log_printfln (sbuf d t) fmt [cnt d t] (dk d) = Done () k' \<longleftrightarrow>
    (\<exists>n. uninterrupted n (print_step t fmt next) d = Some ((goto t next k' d)\<lparr>cnt := (cnt d)(t := cnt d t + 1)\<rparr>))"
  by (rule print_call [OF assms])

lemma print_steps_equivalent_example:
  "\<exists>k' n. log_printfln 0x20000 0x16300 [0] sample_running = Done () k' \<and>
    uninterrupted n (print_step 0x10028 0x16300 Notify) (demo_start sample_bufs sample_running) =
      Some ((goto 0x10028 Notify k' (demo_start sample_bufs sample_running))\<lparr>cnt := (\<lambda>t. 0)(0x10028 := 1)\<rparr>)"
proof -
  let ?d = "demo_start sample_bufs sample_running"
  have s: "symaddr sample_running = symaddr sample_kernel" by (rule sample_boots(4))
  note o = same_symbols [OF s, unfolded sample_objects]
  have e: "demo_env sample_bufs sample_running" by (rule demo_bufs_env [OF sample_boot_ok sample_boots(1) sample_demo_bufs])
  have t: "0x10028 \<in> {main_task sample_running, new_task sample_running}" "sample_bufs 0x10028 = 0x20000"
    by (simp_all add: o sample_bufs_def)
  obtain m where m: "kernel_vsprintf 0x20000 0x16300 [of_nat 0] (mem sample_running) = Some (Inr m)"
    "cstr m 0x20000 (body (msg_of (main_task sample_running) 0x10028 0))"
    using format_writes [OF e t(1) refl, of 0] by (auto simp: o s sample_symaddr t(2))
  have lm: "log_mutex sample_running \<in> {0x14000, 0x14100}" "amtx (boot_spec sample_kernel) (log_mutex sample_running) = None"
    "aready (boot_spec sample_kernel) \<noteq> []" by (simp_all add: o sample_spec)
  obtain k' where k': "log_printfln 0x20000 0x16300 [0] sample_running = Done () k'" "lockable sample_running"
    using log_printfln_sim [OF sample_boots(2) lm(3,1,2) m(1) m(2)] by auto
  have d: "pc_of ?d 0x10028 = Format" "lockable (dk ?d)" "dk ?d = sample_running" "sbuf ?d 0x10028 = 0x20000" "cnt ?d = (\<lambda>t. 0)"
    using k'(2) by (simp_all add: demo_start_def o t(2))
  have "Notify \<in> {Notify, Sleeps, Waits}" by simp
  from print_steps_equivalent [OF d(1,2) this, of "0x16300" k'] show ?thesis using k'(1) unfolding d(3-5) by auto
qed

text \<open>C18. The periodic tasks. A round of \<^verbatim>\<open>new_task2_entry\<close> or \<^verbatim>\<open>new_task3_entry\<close> that is not interrupted, with the log
  free, comes to an end: the port receives one line with the task's counter, the counter goes up by one, and the task is
  asleep for 301 ticks; for the scheduler the round is nothing but that sleep.\<close>

theorem periodic_rounds:
  "(round_ready SS MM a (new_task2 (dk d)) (symaddr (dk d) ''str_new_task2'') ''new task2: %d'' d \<longrightarrow>
     (\<exists>n d'. uninterrupted n new_task2_entry d = Some d' \<and> pc_of d' (new_task2 (dk d)) = Format \<and>
        cnt d' (new_task2 (dk d)) = cnt d (new_task2 (dk d)) + 1 \<and> uart_out (io (dk d')) =
          uart_out (io (dk d)) @ map chr ''new task2: '' @ dec (cnt d (new_task2 (dk d))) @ [13, 10] \<and>
        sim SS MM (a_sleep 301 a) (dk d'))) \<and>
   (round_ready SS MM a (new_task3 (dk d)) (symaddr (dk d) ''str_new_task3'') ''new task3: %d'' d \<longrightarrow>
     (\<exists>n d'. uninterrupted n new_task3_entry d = Some d' \<and> pc_of d' (new_task3 (dk d)) = Format \<and>
        cnt d' (new_task3 (dk d)) = cnt d (new_task3 (dk d)) + 1 \<and> uart_out (io (dk d')) =
          uart_out (io (dk d)) @ map chr ''new task3: '' @ dec (cnt d (new_task3 (dk d))) @ [13, 10] \<and>
        sim SS MM (a_sleep 301 a) (dk d')))"
proof -
  have len: "length (map chr ''new task2: '' @ dec v) \<le> 127" "length (map chr ''new task3: '' @ dec v) \<le> 127"
    "0 \<notin> set (map chr ''new task2: '' @ dec v)" "0 \<notin> set (map chr ''new task3: '' @ dec v)" for v
  proof -
    have "length (dec v) \<le> 33" using itoa_text_len [of 10 v] by (simp add: dec_def itoa_base_ok_def)
    then have "length (dec v) \<le> 100" by (rule order_trans) simp
    then show "length (map chr ''new task2: '' @ dec v) \<le> 127" "length (map chr ''new task3: '' @ dec v) \<le> 127" by simp_all
    show "0 \<notin> set (map chr ''new task2: '' @ dec v)" "0 \<notin> set (map chr ''new task3: '' @ dec v)"
      by (simp_all add: dec_nonzero chr_def)
  qed
  let ?same = "\<lambda>x. symaddr (dk x) = symaddr (dk d)"
  have t2: "uninterrupted n new_task2_entry d = Some d'"
    if "uninterrupted n (periodic (new_task2 (dk d)) (symaddr (dk d) ''str_new_task2'')) d = Some d'" for n d'
    using uninterrupted_mono [where I = ?same, OF _ refl that, of new_task2_entry] periodic_symaddr
    by (auto simp: entries_periodic new_task2_def)
  have t3: "uninterrupted n new_task3_entry d = Some d'"
    if "uninterrupted n (periodic (new_task3 (dk d)) (symaddr (dk d) ''str_new_task3'')) d = Some d'" for n d'
    using uninterrupted_mono [where I = ?same, OF _ refl that, of new_task3_entry] periodic_symaddr
    by (auto simp: entries_periodic new_task3_def)
  show ?thesis
  proof (intro conjI impI)
    assume r: "round_ready SS MM a (new_task2 (dk d)) (symaddr (dk d) ''str_new_task2'') ''new task2: %d'' d"
    from periodic_round [OF r periodic_formats(1,2) len(3,1)] t2
    show "\<exists>n d'. uninterrupted n new_task2_entry d = Some d' \<and> pc_of d' (new_task2 (dk d)) = Format \<and>
        cnt d' (new_task2 (dk d)) = cnt d (new_task2 (dk d)) + 1 \<and> uart_out (io (dk d')) =
          uart_out (io (dk d)) @ map chr ''new task2: '' @ dec (cnt d (new_task2 (dk d))) @ [13, 10] \<and>
        sim SS MM (a_sleep 301 a) (dk d')" unfolding append_assoc by blast
  next
    assume r: "round_ready SS MM a (new_task3 (dk d)) (symaddr (dk d) ''str_new_task3'') ''new task3: %d'' d"
    from periodic_round [OF r periodic_formats(3,4) len(4,2)] t3
    show "\<exists>n d'. uninterrupted n new_task3_entry d = Some d' \<and> pc_of d' (new_task3 (dk d)) = Format \<and>
        cnt d' (new_task3 (dk d)) = cnt d (new_task3 (dk d)) + 1 \<and> uart_out (io (dk d')) =
          uart_out (io (dk d)) @ map chr ''new task3: '' @ dec (cnt d (new_task3 (dk d))) @ [13, 10] \<and>
        sim SS MM (a_sleep 301 a) (dk d')" unfolding append_assoc by blast
  qed
qed

theorem periodic_rounds_witness:
  "\<exists>d d' n. uninterrupted n new_task2_entry d = Some d' \<and>
    uart_out (io (dk d')) = uart_out (io (dk d)) @ map chr ''new task2: 5'' @ [13, 10]"
proof -
  let ?SS = "{0x14200}" and ?MM = "{0x14000, 0x14100}"
  let ?a = "a_create 0x11800 (boot_spec sample_kernel)"
  obtain s1 where s1: "sim ?SS ?MM ?a s1" "symaddr s1 = symaddr sample_kernel"
    using sample_created sample_boots(4) by auto
  have a: "aready ?a = [0x10028, 0x11000, 0x11800]" "amtx ?a = (\<lambda>_. None)" "aall ?a = [0x10028, 0x11000, 0x11800]"
    by (simp_all add: a_create_def sample_spec)
  let ?s2 = "sys_sleep 1000 (sys_sleep 1000 s1)" and ?b = "a_sleep 101 (a_sleep 101 ?a)"
  have "sim ?SS ?MM (a_sleep 101 ?a) (sys_sleep 1000 s1)" using sim_sleep [OF s1(1), of 1000] a by (simp add: spec_ticks_def)
  from sim_sleep [OF this, of 1000] have s2: "sim ?SS ?MM ?b ?s2" using a by (simp add: spec_ticks_def a_sleep_def)
  have b: "aready ?b = [0x11800]" "amtx ?b = (\<lambda>_. None)" "aall ?b = [0x10028, 0x11000, 0x11800]" using a by (simp_all add: a_sleep_def)
  define k where "k = ?s2\<lparr>mem := put_string 0x16500 ''new task2: %d'' (\<lambda>a. 0)\<rparr>"
  have k: "sim ?SS ?MM ?b k" using s2 by (simp add: k_def)
  have sy: "symaddr k = symaddr sample_kernel" using s1(2) call_frame(3) by (simp add: k_def)
  have n: "new_task2 k = 0x11800" "symaddr k ''str_new_task2'' = 0x16500" "log_mutex k = 0x14100"
    unfolding new_task2_def log_mutex_def sy by (simp_all add: sample_kernel_def blank_kernel_def sample_symbols_def)
  have lit: "cstr (mem k) 0x16500 (map chr ''new task2: %d'')" by (simp add: k_def cstr_Cons cstr_Nil chr_def)
  define d where "d = \<lparr>dk = k, pc_of = (\<lambda>t. Format), cnt = (\<lambda>t. 5), sbuf = (\<lambda>t. 0x20000)\<rparr>"
  have c: "curr_task k = 0x11800" using simD(3) [OF k] b(1) by simp
  have "round_ready ?SS ?MM ?b (new_task2 (dk d)) (symaddr (dk d) ''str_new_task2'') ''new task2: %d'' d"
    unfolding round_ready_def string_at_def d_def using k c lit
    by (auto simp: n b intro!: region_apart simp del: region.simps)
  from periodic_rounds [of ?SS ?MM ?b d, THEN conjunct1, rule_format, OF this]
  obtain n d' where "uninterrupted n new_task2_entry d = Some d'"
    "uart_out (io (dk d')) = uart_out (io (dk d)) @ map chr ''new task2: '' @ dec (cnt d (new_task2 (dk d))) @ [13, 10]" by blast
  moreover have "dec (5 :: cint) = map chr ''5''"
    by (simp add: dec_def itoa_text_def digits_def digits_rev.simps num2ch_def chr_def)
  ultimately show ?thesis by (intro exI [of _ d] exI [of _ d'] exI [of _ n]) (simp add: d_def)
qed

end
