(* ===== verification/Asm.thy ===== *)
theory Asm
  imports Klib
begin

text \<open>
  The part of the i386 that the assembly files use: general and segment registers, the flags, byte memory, and the
  instructions that move data between registers and the stack. A program is a list of instructions. A C function that
  the assembly calls is a parameter of the execution (\<open>cfun\<close>), from its first instruction up to its return; labels
  have the addresses of a symbol table (\<open>sym\<close>). The instruction pointer is kept where the program changes it: at calls,
  returns and jumps.

  The processor pushes a segment register with a 32-bit operand in one of two documented ways: the selector with sixteen
  zero bits, or the selector only, which leaves the upper half of the stack slot as it was. The flag \<open>half_push\<close> of the
  environment selects the second one.
\<close>

section \<open>Machine\<close>

datatype reg = EAX | ECX | EDX | EBX | ESP | EBP | ESI | EDI

datatype sreg = ES | CS | SS | DS | FS | GS

record cpu =
  gpr :: "reg \<Rightarrow> uint32_t"
  sgr :: "sreg \<Rightarrow> uint16_t"
  eip :: uint32_t
  flg :: uint32_t
  ram :: memory

record env =
  sym :: "string \<Rightarrow> addr"
  cfun :: "string \<Rightarrow> cpu \<Rightarrow> cpu"
  half_push :: bool

definition store_half :: "memory \<Rightarrow> addr \<Rightarrow> uint16_t \<Rightarrow> memory" where
  "store_half m a v = m(a := ucast v, a + 1 := ucast (drop_bit 8 v))"

definition store_word :: "memory \<Rightarrow> addr \<Rightarrow> uint32_t \<Rightarrow> memory" where
  "store_word m a v = m(a := ucast v, a + 1 := ucast (drop_bit 8 v), a + 2 := ucast (drop_bit 16 v),
     a + 3 := ucast (drop_bit 24 v))"

definition set_reg :: "reg \<Rightarrow> uint32_t \<Rightarrow> cpu \<Rightarrow> cpu" where
  "set_reg r v c = c\<lparr>gpr := (gpr c)(r := v)\<rparr>"

definition push :: "uint32_t \<Rightarrow> cpu \<Rightarrow> cpu" where
  "push v c = (let sp = gpr c ESP - 4 in set_reg ESP sp (c\<lparr>ram := store_word (ram c) sp v\<rparr>))"

definition push_sreg :: "env \<Rightarrow> sreg \<Rightarrow> cpu \<Rightarrow> cpu" where
  "push_sreg e r c =
    (if half_push e
     then (let sp = gpr c ESP - 4 in set_reg ESP sp (c\<lparr>ram := store_half (ram c) sp (sgr c r)\<rparr>))
     else push (ucast (sgr c r)) c)"

definition top_word :: "cpu \<Rightarrow> uint32_t" where
  "top_word c = mem_word (ram c) (gpr c ESP)"

definition drop_word :: "cpu \<Rightarrow> cpu" where
  "drop_word c = set_reg ESP (gpr c ESP + 4) c"

definition pop :: "reg \<Rightarrow> cpu \<Rightarrow> cpu" where
  "pop r c = set_reg r (top_word c) (drop_word c)"

definition pop_sreg :: "sreg \<Rightarrow> cpu \<Rightarrow> cpu" where
  "pop_sreg r c = (drop_word c)\<lparr>sgr := (sgr c)(r := ucast (top_word c))\<rparr>"

section \<open>Instructions\<close>

datatype instr =
    Push_imm uint32_t
  | Push_reg reg
  | Push_seg sreg
  | Pop_reg reg
  | Pop_seg sreg
  | Pusha
  | Popa
  | Add_imm uint32_t reg
  | Mov_imm uint32_t reg
  | Mov_imm16 uint16_t reg
  | Mov_reg reg reg
  | Mov_seg reg sreg
  | Load uint32_t reg reg
  | Store reg reg
  | Call string
  | Ret
  | Iret
  | Jmp string
  | Ljmp uint16_t string

fun step :: "env \<Rightarrow> instr \<Rightarrow> cpu \<Rightarrow> cpu" where
  "step e (Push_imm v) c = push v c"
| "step e (Push_reg r) c = push (gpr c r) c"
| "step e (Push_seg r) c = push_sreg e r c"
| "step e (Pop_reg r) c = pop r c"
| "step e (Pop_seg r) c = pop_sreg r c"
| "step e Pusha c =
    push (gpr c EDI) (push (gpr c ESI) (push (gpr c EBP) (push (gpr c ESP)
      (push (gpr c EBX) (push (gpr c EDX) (push (gpr c ECX) (push (gpr c EAX) c)))))))"
| "step e Popa c = pop EAX (pop ECX (pop EDX (pop EBX (drop_word (pop EBP (pop ESI (pop EDI c)))))))"
| "step e (Add_imm v r) c = set_reg r (gpr c r + v) c"
| "step e (Mov_imm v r) c = set_reg r v c"
| "step e (Mov_imm16 v r) c = set_reg r (gpr c r AND NOT 0xFFFF OR ucast v) c"
| "step e (Mov_reg src dest) c = set_reg dest (gpr c src) c"
| "step e (Mov_seg src dest) c = c\<lparr>sgr := (sgr c)(dest := ucast (gpr c src))\<rparr>"
| "step e (Load disp base dest) c = set_reg dest (mem_word (ram c) (gpr c base + disp)) c"
| "step e (Store src base) c = c\<lparr>ram := store_word (ram c) (gpr c base) (gpr c src)\<rparr>"
| "step e (Call f) c = cfun e f (push (sym e (''after_'' @ f)) c)"
| "step e Ret c = (drop_word c)\<lparr>eip := top_word c\<rparr>"
| "step e Iret c =
    (let c1 = (drop_word c)\<lparr>eip := top_word c\<rparr>; c2 = pop_sreg CS c1
     in (drop_word c2)\<lparr>flg := top_word c2\<rparr>)"
| "step e (Jmp l) c = c\<lparr>eip := sym e l\<rparr>"
| "step e (Ljmp sel l) c = c\<lparr>sgr := (sgr c)(CS := sel), eip := sym e l\<rparr>"

fun exec :: "env \<Rightarrow> instr list \<Rightarrow> cpu \<Rightarrow> cpu" where
  "exec e [] c = c"
| "exec e (i # is) c = exec e is (step e i c)"

lemma exec_append [simp]: "exec e (xs @ ys) c = exec e ys (exec e xs c)"
  by (induction xs arbitrary: c) simp_all

section \<open>Words on the stack\<close>

lemma mem_word_store [simp]: "mem_word (store_word m a v) a = v"
proof -
  have "(1 :: addr) \<noteq> 0" "(2 :: addr) \<noteq> 0" "(3 :: addr) \<noteq> 0" by simp_all
  then show ?thesis using word_bytes [of v] by (simp add: mem_word_def store_word_def)
qed

lemma mem_word_store_half: "ucast (mem_word (store_half m a v) a) = v"
proof (rule bit_word_eqI)
  fix n assume "n < LENGTH(16)"
  then show "bit (ucast (mem_word (store_half m a v) a) :: uint16_t) n = bit v n"
    by (auto simp: mem_word_def store_half_def bit_simps)
qed

fun words_at :: "memory \<Rightarrow> addr \<Rightarrow> uint32_t list \<Rightarrow> bool" where
  "words_at m a [] = True"
| "words_at m a (w # ws) \<longleftrightarrow> mem_word m a = w \<and> words_at m (a + 4) ws"

lemma words_at_cong:
  assumes "\<And>x. x \<in> region a (4 * length ws) \<Longrightarrow> m' x = m x"
  shows "words_at m' a ws \<longleftrightarrow> words_at m a ws"
  using assms
proof (induction ws arbitrary: a)
  case (Cons w ws)
  have r: "region a (4 * length (w # ws)) = {a, a + 1, a + 2, a + 3} \<union> region (a + 4) (4 * length ws)"
    by (simp add: numeral_eq_Suc add.assoc)
  have "words_at m' (a + 4) ws \<longleftrightarrow> words_at m (a + 4) ws" by (rule Cons.IH) (simp add: Cons.prems r)
  moreover have "m' x = m x" if "x \<in> {a, a + 1, a + 2, a + 3}" for x using Cons.prems [of x] that unfolding r by blast
  then have "mem_word m' a = mem_word m a" by (simp add: mem_word_def)
  ultimately show ?case by simp
qed simp

lemma below_region:
  assumes "n + 4 \<le> 2 ^ 32" and "j < 4"
  shows "a - 4 + of_nat j \<notin> region a n"
proof
  assume "a - 4 + of_nat j \<in> region a n"
  then obtain i where i: "i < n" "a - 4 + of_nat j = a + of_nat i" by (auto simp: region_eq)
  then have "(of_nat j :: addr) = of_nat (i + 4)" by (simp add: algebra_simps)
  then have "j = i + 4" using i(1) assms by (subst (asm) of_nat_addr_inj) auto
  then show False using assms(2) by simp
qed

lemma below_region_bytes:
  assumes "n + 4 \<le> 2 ^ 32"
  shows "a - 4 \<notin> region a n" "a - 4 + 1 \<notin> region a n" "a - 4 + 2 \<notin> region a n" "a - 4 + 3 \<notin> region a n"
  using below_region [OF assms, of 0 a] below_region [OF assms, of 1 a] below_region [OF assms, of 2 a]
    below_region [OF assms, of 3 a] by simp_all

lemma words_at_store:
  assumes "words_at m a ws" and "4 * length ws + 4 \<le> 2 ^ 32"
  shows "words_at (store_word m (a - 4) v) a ws" "words_at (store_half m (a - 4) h) a ws"
proof -
  note r = below_region_bytes [OF assms(2), of a]
  have "words_at (store_word m (a - 4) v) a ws \<longleftrightarrow> words_at m a ws"
    using r by (intro words_at_cong) (auto simp: store_word_def)
  moreover have "words_at (store_half m (a - 4) h) a ws \<longleftrightarrow> words_at m a ws"
    using r by (intro words_at_cong) (auto simp: store_half_def)
  ultimately show "words_at (store_word m (a - 4) v) a ws" "words_at (store_half m (a - 4) h) a ws"
    using assms(1) by simp_all
qed

text \<open>The words on top of the stack.\<close>

definition stack :: "cpu \<Rightarrow> uint32_t list \<Rightarrow> bool" where
  "stack c ws \<longleftrightarrow> words_at (ram c) (gpr c ESP) ws"

lemma cpu_fields [simp]:
  "gpr (set_reg r v c) = (gpr c)(r := v)" "sgr (set_reg r v c) = sgr c" "eip (set_reg r v c) = eip c"
  "flg (set_reg r v c) = flg c" "ram (set_reg r v c) = ram c"
  "gpr (push v c) = (gpr c)(ESP := gpr c ESP - 4)" "sgr (push v c) = sgr c" "eip (push v c) = eip c" "flg (push v c) = flg c"
  "gpr (push_sreg e q c) = (gpr c)(ESP := gpr c ESP - 4)" "sgr (push_sreg e q c) = sgr c" "eip (push_sreg e q c) = eip c"
  "flg (push_sreg e q c) = flg c"
  "gpr (drop_word c) = (gpr c)(ESP := gpr c ESP + 4)" "sgr (drop_word c) = sgr c" "eip (drop_word c) = eip c"
  "flg (drop_word c) = flg c" "ram (drop_word c) = ram c"
  "gpr (pop_sreg q c) = (gpr c)(ESP := gpr c ESP + 4)" "sgr (pop_sreg q c) = (sgr c)(q := ucast (top_word c))"
  "eip (pop_sreg q c) = eip c" "flg (pop_sreg q c) = flg c" "ram (pop_sreg q c) = ram c"
  "gpr (pop r c) = (gpr c)(ESP := gpr c ESP + 4, r := top_word c)" "sgr (pop r c) = sgr c" "eip (pop r c) = eip c"
  "flg (pop r c) = flg c" "ram (pop r c) = ram c"
  by (simp_all add: set_reg_def push_def push_sreg_def drop_word_def pop_sreg_def pop_def Let_def)

lemma stack_Nil [simp]: "stack c []"
  by (simp add: stack_def)

lemma stack_push:
  assumes "stack c ws" and "4 * length ws + 4 \<le> 2 ^ 32"
  shows "stack (push v c) (v # ws)"
  using words_at_store(1) [OF assms(1) [unfolded stack_def] assms(2)]
  by (simp add: stack_def) (simp add: push_def Let_def)

text \<open>A pushed segment register reads back as the selector.\<close>

lemma stack_push_sreg:
  assumes "stack c ws" and "4 * length ws + 4 \<le> 2 ^ 32"
  shows "\<exists>w. stack (push_sreg e r c) (w # ws) \<and> ucast w = sgr c r \<and> (\<not> half_push e \<longrightarrow> w = ucast (sgr c r))"
proof (cases "half_push e")
  case True
  let ?w = "mem_word (store_half (ram c) (gpr c ESP - 4) (sgr c r)) (gpr c ESP - 4)"
  have "stack (push_sreg e r c) (?w # ws)"
    using words_at_store(2) [OF assms(1) [unfolded stack_def] assms(2)] True
    by (simp add: stack_def) (simp add: push_sreg_def Let_def)
  then show ?thesis using True mem_word_store_half by blast
next
  case False
  have "push_sreg e r c = push (ucast (sgr c r)) c" using False by (simp add: push_sreg_def)
  moreover have "ucast (ucast (sgr c r) :: uint32_t) = sgr c r" by (rule bit_word_eqI) (auto simp: bit_simps)
  ultimately show ?thesis using stack_push [OF assms] by (intro exI [of _ "ucast (sgr c r)"]) simp
qed

lemma stack_top: "stack c (w # ws) \<Longrightarrow> top_word c = w"
  by (simp add: stack_def top_word_def)

lemma stack_pops:
  assumes "stack c (w # ws)"
  shows "stack (drop_word c) ws" "r \<noteq> ESP \<Longrightarrow> stack (pop r c) ws" "stack (pop_sreg q c) ws"
  using assms by (simp_all add: stack_def)

lemma stack_cong: "ram c' = ram c \<Longrightarrow> gpr c' ESP = gpr c ESP \<Longrightarrow> stack c' ws \<longleftrightarrow> stack c ws"
  by (simp add: stack_def)

text \<open>A machine to try the programs on, with C functions that write one byte and return.\<close>

definition sample_env :: env where
  "sample_env = \<lparr>sym = (\<lambda>_. 0x10000), cfun = (\<lambda>_ c. (drop_word c)\<lparr>ram := (ram c)(0x500 := 7)\<rparr>), half_push = True\<rparr>"

definition sample_cpu :: cpu where
  "sample_cpu = \<lparr>gpr = (\<lambda>r. case r of ESP \<Rightarrow> 0x9000 | EAX \<Rightarrow> 1 | EDI \<Rightarrow> 2 | _ \<Rightarrow> 3), sgr = (\<lambda>r. if r = CS then 8 else 16),
     eip = 0x12345, flg = 0x202, ram = (\<lambda>_. 0)\<rparr>"

end
