(* ===== verification/Tables.thy ===== *)
theory Tables
  imports Frame
begin

text \<open>
  A typing of the two descriptor tables of \<^verbatim>\<open>src/source/kernel/cpu/cpu.c\<close> and \<^verbatim>\<open>irq.c\<close>. A segment descriptor is
  read as unused, reserved by an allocation that has not been completed, the flat code or data segment, or the state
  segment of a task, available or busy; a gate as the address of a handler. The operations that write the tables keep them well typed
  whatever the outcome of the call, and the kernel's calls and interrupts do not write them.
\<close>

section \<open>Types of table entries\<close>

datatype desc_kind = Unused | Reserved | CodeSeg | DataSeg | TssSeg addr

definition flat :: "segment_desc_t \<Rightarrow> bool" where
  "flat d \<longleftrightarrow> desc_base d = 0 \<and> desc_last d = 0xFFFFFFFF"

definition kind_of :: "segment_desc_t \<Rightarrow> desc_kind option" where
  "kind_of d =
    (if attr d = 0 then Some Unused
     else if attr d = 0x80 then Some Reserved
     else if attr d \<in> {0x89, 0x8B} \<and> desc_last d = 104 then Some (TssSeg (desc_base d - OFFSET_tss))
     else if attr d = 0xCF98 \<and> flat d then Some CodeSeg
     else if attr d = 0xCF92 \<and> flat d then Some DataSeg
     else None)"

fun task_entry :: "desc_kind option \<Rightarrow> bool" where
  "task_entry (Some Unused) = True"
| "task_entry (Some Reserved) = True"
| "task_entry (Some (TssSeg t)) = True"
| "task_entry _ = False"

definition gdt_typed :: "segment_desc_t list \<Rightarrow> bool" where
  "gdt_typed g \<longleftrightarrow> length g = 256 \<and> kind_of (g ! 0) = Some Unused \<and> kind_of (g ! 1) = Some CodeSeg \<and>
     kind_of (g ! 2) = Some DataSeg \<and> (\<forall>d\<in>set (drop 3 g). task_entry (kind_of d))"

definition handler_of :: "gate_desc_t \<Rightarrow> uint32_t option" where
  "handler_of g = (if selector g = 8 \<and> gattr g = 0x8E00 then Some (gate_offset g) else None)"

text \<open>The handler each vector is meant for.\<close>

text \<open>The vectors of the processor's exceptions, as its manual numbers them, and the vector of the timer.\<close>

definition vector_table :: "(nat \<times> string) list" where
  "vector_table =
    [(0, ''divider''), (1, ''Debug''), (2, ''NMI''), (3, ''breakpoint''), (4, ''overflow''), (5, ''bound_range''),
     (6, ''invalid_opcode''), (7, ''device_unavailable''), (8, ''double_fault''), (9, ''coprocessor_segment_overrun''),
     (10, ''invalid_tss''), (11, ''segment_not_present''), (12, ''stack_segment_fault''), (13, ''general_protection''),
     (14, ''page_fault''), (16, ''fpu_error''), (17, ''alignment_check''), (18, ''machine_check''), (19, ''smd_exception''),
     (20, ''virtual_exception''), (21, ''control_protection_exception''), (32, ''timer'')]"

definition vector_name :: "nat \<Rightarrow> string" where
  "vector_name i = ''exception_handler_'' @ (case map_of vector_table i of Some n \<Rightarrow> n | None \<Rightarrow> ''unknown'')"

text \<open>The code installs its handlers at these numbers.\<close>

lemma vector_name_installed:
  "vector_name i = (if i = 32 then ''exception_handler_timer''
     else case vector_map exception_handlers i of None \<Rightarrow> ''exception_handler_unknown'' | Some h \<Rightarrow> h)"
proof (cases "i \<in> fst ` set vector_table")
  case True
  then have "i \<in> {0, 1, 2, 3, 4, 5, 6, 7, 8, 9, 10, 11, 12, 13, 14, 16, 17, 18, 19, 20, 21, 32}"
    by (simp add: vector_table_def)
  then show ?thesis
    unfolding insert_iff empty_iff
    by (elim disjE) (simp_all add: vector_name_def vector_table_def vector_map_def exception_handlers_eq)
next
  case False
  then show ?thesis by (simp add: vector_name_def vector_table_def vector_map_def exception_handlers_eq)
qed

definition idt_typed :: "(string \<Rightarrow> addr) \<Rightarrow> gate_desc_t list \<Rightarrow> bool" where
  "idt_typed sy g \<longleftrightarrow> map handler_of g = map (\<lambda>i. Some (sy (vector_name i))) [0..<128]"

section \<open>Updates of the table\<close>

lemma gdt_typed_update:
  assumes "gdt_typed g" and "3 \<le> i" "i < 256" and "task_entry (kind_of d)"
  shows "gdt_typed (g[i := d])"
proof -
  have "drop 3 (g[i := d]) = (drop 3 g)[i - 3 := d]" using assms(2) by (simp add: drop_update_swap)
  then have "\<forall>e\<in>set (drop 3 (g[i := d])). task_entry (kind_of e)"
    using assms(1,4) set_update_subset_insert [of "drop 3 g" "i - 3" d] by (auto simp: gdt_typed_def)
  then show ?thesis using assms(1-3) by (simp add: gdt_typed_def)
qed

text \<open>An entry found free is none of the first three.\<close>

lemma gdt_typed_free:
  assumes "gdt_typed g" and "find_free 255 g = Some i"
  shows "3 \<le> i" "i < 256"
proof -
  have i: "1 \<le> i" "i < 256" "attr (g ! i) = 0" using find_free_Some [OF _ assms(2)] by simp_all
  have "attr (g ! 1) \<noteq> 0" "attr (g ! 2) \<noteq> 0" using assms(1) by (auto simp: gdt_typed_def kind_of_def split: if_splits)
  then have "i \<noteq> 1" "i \<noteq> 2" using i(3) by auto
  then show "3 \<le> i" "i < 256" using i(1,2) by simp_all
qed

lemma kind_reserved: "kind_of (d\<lparr>attr := SEG_P_PRESENT\<rparr>) = Some Reserved"
  by (simp add: kind_of_def seg_flags)

lemma kind_tss: "kind_of (make_desc (t + OFFSET_tss) 104 0x89) = Some (TssSeg t)"
proof -
  have "attr_plain 0x89" by (simp add: attr_plain_def)
  from desc_last_make [OF this, of "t + OFFSET_tss" 104] show ?thesis by (simp add: kind_of_def) (simp add: make_desc_def)
qed

lemma boot_gdt_typed: "gdt_typed boot_gdt"
proof -
  have z: "kind_of zero_desc = Some Unused" by (simp add: kind_of_def zero_desc_def)
  have "flat code_desc" "flat data_desc"
    by (simp_all add: flat_def code_desc_def data_desc_def desc_base_def desc_last_def desc_gran_def desc_limit_def bit_simps)
  then have "kind_of code_desc = Some CodeSeg" "kind_of data_desc = Some DataSeg"
    by (simp_all add: kind_of_def code_desc_def data_desc_def)
  then show ?thesis using z by (simp add: gdt_typed_def boot_gdt_def del: replicate.simps)
qed

text \<open>A busy bit does not change the type of a table.\<close>

lemma busy_bit_values: "w AND NOT 2 = 0x89 \<longleftrightarrow> w \<in> {0x89, 0x8B}" for w :: uint16_t
proof
  assume a: "w AND NOT 2 = 0x89"
  have s: "w = (w AND NOT 2) OR (w AND 2)" by (rule bit_word_eqI) (auto simp: bit_simps)
  show "w \<in> {0x89, 0x8B}"
  proof (cases "bit w 1")
    case True
    then have "w AND 2 = 2" by (intro bit_word_eqI) (auto simp: bit_simps)
    then have "w = 0x89 OR 2" using s a by metis
    then show ?thesis by simp
  next
    case False
    then have "w AND 2 = 0" by (intro bit_word_eqI) (auto simp: bit_simps)
    then have "w = 0x89 OR 0" using s a by metis
    then show ?thesis by simp
  qed
qed auto

lemma kind_tss_type:
  assumes "is_tss_desc d"
  shows "kind_of d = (if attr d AND NOT 2 = 0x89 \<and> desc_last d = 104 then Some (TssSeg (desc_base d - OFFSET_tss)) else None)"
proof -
  have "attr d \<noteq> 0" "attr d \<noteq> 0x80" "attr d \<noteq> 0xCF98" "attr d \<noteq> 0xCF92" using assms by (auto simp: is_tss_desc_def)
  then show ?thesis unfolding busy_bit_values kind_of_def by simp
qed

lemma kind_busy: "kind_of (set_busy b d) = kind_of d"
proof (cases "is_tss_desc d")
  case True
  have "attr (set_busy b d) AND NOT 2 = attr d AND NOT 2"
    using True by (intro bit_word_eqI) (auto simp: set_busy_def bit_simps)
  moreover have "desc_last (set_busy b d) = desc_last d"
    by (simp add: set_busy_def desc_last_def desc_gran_def desc_limit_def bit_simps)
  ultimately show ?thesis using True by (simp add: kind_tss_type)
qed (simp add: set_busy_def)

lemma gdt_typed_busy: "gdt_typed (map (set_busy b) g) \<longleftrightarrow> gdt_typed g"
proof (cases "length g = 256")
  case True
  then show ?thesis by (simp add: gdt_typed_def drop_map kind_busy)
qed (simp add: gdt_typed_def)

section \<open>Operations that write the tables\<close>

text \<open>A predicate on the machine after a call, however the call ends.\<close>

fun ends :: "(kernel \<Rightarrow> bool) \<Rightarrow> 'a outcome \<Rightarrow> bool" where
  "ends P (Done x s) = P s"
| "ends P (Suspended s) = P s"
| "ends P (Halted s) = P s"
| "ends P (Panicked e) = True"
| "ends P (Looping s) = True"
| "ends P Hang = True"

lemma ends_and_then: "ends P r \<Longrightarrow> (\<And>x s. r = Done x s \<Longrightarrow> P s \<Longrightarrow> ends P (f x s)) \<Longrightarrow> ends P (and_then r f)"
  by (cases r) simp_all

text \<open>The tables of a system whose handlers have the addresses \<open>sy\<close>.\<close>

definition typed :: "(string \<Rightarrow> addr) \<Rightarrow> kernel \<Rightarrow> bool" where
  "typed sy k \<longleftrightarrow> gdt_typed (gdt_table k) \<and> idt_typed sy (idt_table k)"

lemma typed_tables: "tables k' = tables k \<Longrightarrow> typed sy k' \<longleftrightarrow> typed sy k"
  using gdt_typed_busy [of False "gdt_table k'"] gdt_typed_busy [of False "gdt_table k"] by (simp add: typed_def tables_fields)

lemma typed_upd [simp]: "typed sy (upd_task t f k) \<longleftrightarrow> typed sy k" "typed sy (k\<lparr>mem := m\<rparr>) \<longleftrightarrow> typed sy k"
  "typed sy (k\<lparr>saved_kstk := ks\<rparr>) \<longleftrightarrow> typed sy k" "typed sy (k\<lparr>curr_task := c\<rparr>) \<longleftrightarrow> typed sy k"
  "typed sy (write_tr v k) \<longleftrightarrow> typed sy k"
proof -
  have "tables (write_tr v k) = tables k" by (simp add: write_tr_def tables_def)
  from typed_tables [OF this] show "typed sy (write_tr v k) \<longleftrightarrow> typed sy k" .
qed (simp_all add: typed_def upd_task_def)

lemma typed_lock: "typed sy k \<Longrightarrow> ends (typed sy) (lock_call p k)"
proof -
  have "tables (rein_mutex_lock p k) = tables k" using call_frame(4) by blast
  from typed_tables [OF this] show "typed sy k \<Longrightarrow> ?thesis" by (simp add: lock_call_def Let_def)
qed

lemma typed_unlock: "typed sy k \<Longrightarrow> ends (typed sy) (unlock_call p k)"
proof (cases "rein_mutex_unlock p k")
  case (Inr k')
  then show "typed sy k \<Longrightarrow> ?thesis"
    using typed_tables [of k' k] outside_unlock [OF Inr] by (simp add: unlock_call_def outside_fields)
qed (simp add: unlock_call_def)

lemma unlock_done: "unlock_call p k = Done x k' \<Longrightarrow> tables k' = tables k"
  using outside_unlock by (auto simp: unlock_call_def outside_fields split: sum.splits)

lemma typed_alloc:
  assumes "typed sy k"
  shows "ends (typed sy) (get_alloc_desc k)"
  unfolding get_alloc_desc_def GDT_TABLE_SIZE_def
proof (rule ends_and_then [OF typed_lock [OF assms]], goal_cases)
  case (1 x s)
  show ?case
  proof (cases "find_free 255 (gdt_table s)")
    case None
    then show ?thesis using 1(2) by (auto intro: ends_and_then typed_unlock)
  next
    case (Some i)
    let ?s = "s\<lparr>gdt_table := (gdt_table s)[i := (gdt_table s ! i)\<lparr>attr := SEG_P_PRESENT\<rparr>]\<rparr>"
    have "gdt_typed (gdt_table s)" using 1(2) by (simp add: typed_def)
    then have "typed sy ?s" using gdt_typed_update gdt_typed_free [OF _ Some] 1(2) by (simp add: typed_def kind_reserved)
    then show ?thesis using Some by (auto simp: Let_def intro: ends_and_then typed_unlock)
  qed
qed

text \<open>The selector allocated is that of a task entry.\<close>

lemma alloc_selector:
  assumes "typed sy k" and "get_alloc_desc k = Done sel s"
  shows "sel = -1 \<or> (\<exists>i. 3 \<le> i \<and> i < 256 \<and> sel = of_nat i * SIZEOF_segment_desc_t)"
proof -
  obtain x s1 where l: "lock_call (cpu_mutex k) k = Done x s1" using assms(2)
    by (cases "lock_call (cpu_mutex k) k") (auto simp: get_alloc_desc_def)
  then have t: "typed sy s1" using typed_lock [OF assms(1), of "cpu_mutex k"] by simp
  show ?thesis
  proof (cases "find_free 255 (gdt_table s1)")
    case None
    then have "sel = -1" using assms(2) l
      by (cases "unlock_call (cpu_mutex s1) s1") (simp_all add: get_alloc_desc_def GDT_TABLE_SIZE_def)
    then show ?thesis by simp
  next
    case (Some i)
    let ?s = "s1\<lparr>gdt_table := (gdt_table s1)[i := (gdt_table s1 ! i)\<lparr>attr := SEG_P_PRESENT\<rparr>]\<rparr>"
    have "sel = of_nat i * SIZEOF_segment_desc_t" using assms(2) l Some
      by (cases "unlock_call (cpu_mutex ?s) ?s") (simp_all add: get_alloc_desc_def GDT_TABLE_SIZE_def)
    then show ?thesis using gdt_typed_free [OF _ Some] t by (auto simp: typed_def)
  qed
qed

lemma typed_segment:
  assumes "typed sy k" and "3 \<le> i" "i < 256"
  shows "typed sy (segment_desc_set (of_nat i * SIZEOF_segment_desc_t) (t + OFFSET_tss) 104 0x89 k)"
proof -
  have g: "gdt_typed (gdt_table k)" using assms(1) by (simp add: typed_def)
  then have len: "length (gdt_table k) = 256" by (simp add: gdt_typed_def)
  have "i < length (gdt_table k)" "i < 2 ^ 29" using assms(3) len by simp_all
  then show ?thesis
    using segment_desc_set_in [of i k] gdt_typed_update [OF g assms(2,3)] assms(1) by (simp add: typed_def kind_tss)
qed

lemma typed_tss_init:
  assumes "typed sy k"
  shows "ends (typed sy) (tss_init t e p k)"
  unfolding tss_init_def
proof (rule ends_and_then [OF typed_alloc [OF assms]], goal_cases)
  case (1 sel s)
  have fl: "SEG_P_PRESENT OR SEG_DPL_0 OR SEG_TYPE_TSS = 0x89" "SIZEOF_tss_t = 104" by (simp_all add: seg_flags SIZEOF_tss_t_def)
  consider "sel = -1" | i where "3 \<le> i" "i < 256" "sel = of_nat i * SIZEOF_segment_desc_t"
    using alloc_selector [OF assms 1(1)] by blast
  then have "sint sel < 0 \<or> typed sy (segment_desc_set sel (t + OFFSET_tss) 104 0x89 s)"
    using typed_segment [OF 1(2)] by cases simp_all
  then show ?case using 1(2) unfolding fl by (auto simp: Let_def)
qed

lemma typed_setup: "typed sy (task_setup t k) \<longleftrightarrow> typed sy k"
proof -
  have l: "outside (s\<lparr>nodes := h, task_list := l\<rparr>) = outside s" for s :: kernel and h l by (simp add: outside_def tables_def)
  have "outside (task_setup t k) = outside k"
    by (simp add: task_setup_def Let_def l split: prod.split)
  then show ?thesis unfolding outside_fields by (elim conjE) (rule typed_tables)
qed

text \<open>Creating a task keeps the tables well typed, whether it succeeds, is refused, or waits for the mutex.\<close>

lemma typed_task_init:
  assumes "typed sy k"
  shows "ends (typed sy) (task_init t n e p k)"
  unfolding task_init_def
  by (rule ends_and_then [OF typed_tss_init [OF assms]]) (auto simp: typed_setup split: option.split)

lemma typed_start:
  assumes "length (gdt_table s) = 256" and "length (idt_table s) = 128"
  shows "typed (symaddr s) (timer_init (cpu_init s))"
proof -
  let ?p = "cpu_mutex s" and ?h = "\<lambda>i. case vector_map exception_handlers i of
      None \<Rightarrow> ''exception_handler_unknown'' | Some h \<Rightarrow> h"
  let ?s1 = "gdt_init (rein_mutex_init ?p s)"
  have g: "gdt_table ?s1 = boot_gdt" "symaddr ?s1 = symaddr s" "idt_table ?s1 = idt_table s"
    using gdt_init_table [of "rein_mutex_init ?p s"] assms(1) by (simp_all add: rein_mutex_init_simp boot_gdt_def)
  obtain tb es where i: "cpu_init s = ?s1\<lparr>idt_table := tb, idtr := (symaddr ?s1 ''idt_table'', 1023), io := es\<rparr>" "length tb = 128"
    "\<forall>i<128. tb ! i = int_gate (symaddr s (?h i))"
    using irq_init_state [of ?s1] assms(2) unfolding cpu_init_def g by auto
  let ?s2 = "cpu_init s" and ?tb = "tb[32 := int_gate (symaddr s ''exception_handler_timer'')]"
  have s2: "idt_table ?s2 = tb" "gdt_table ?s2 = boot_gdt" "symaddr ?s2 = symaddr s" unfolding i(1) by (simp_all add: g)
  have "length (idt_table ?s2) = 128" by (simp add: s2 i(2))
  from timer_init_eq [OF this] obtain es' where "timer_init ?s2 = (pit_programmed ?s2)\<lparr>io := es'\<rparr>"
    using irq_enable_simp [of "of_nat (32 + 0)" "pit_programmed ?s2"] by metis
  then have t: "gdt_table (timer_init ?s2) = boot_gdt" "idt_table (timer_init ?s2) = ?tb"
    by (simp_all add: pit_programmed_def s2)
  have "handler_of (int_gate h) = Some h" for h
    by (simp add: handler_of_def int_gate_def KERNEL_SELECTOR_CODE_def GATE_TYPE_INT_def GATE_P_PRESENT_def GATE_DPL0_def)
  then have "handler_of (?tb ! j) = Some (symaddr s (vector_name j))" if "j < 128" for j
    using i(2,3) that by (auto simp: vector_name_installed)
  then have "idt_typed (symaddr s) ?tb" unfolding idt_typed_def by (intro nth_equalityI) (simp_all add: i(2))
  then show ?thesis using t boot_gdt_typed by (simp add: typed_def)
qed

lemma typed_boot:
  assumes "boot_ok s"
  shows "ends (typed (symaddr s)) (boot s)"
proof -
  have b: "typed (symaddr s) (timer_init (cpu_init s))" using typed_start assms by (simp add: boot_ok_def)
  have m: "typed sy (k\<lparr>ready_list := l, task_list := l, sleep_list := l\<rparr>) \<longleftrightarrow> typed sy k" for sy k l
    by (simp add: typed_def)
  have l: "typed sy (log_init k) \<longleftrightarrow> typed sy k" "typed sy (irq_enable_global (sem_init p 0 k)) \<longleftrightarrow> typed sy k" for sy k p
    by (simp_all add: typed_def log_init_def outb_def rein_mutex_init_simp irq_enable_global_def sti_def sem_init_def
        upd_sem_def Let_def)
  have k: "ends (typed (symaddr s)) (kernel_init s)"
    unfolding kernel_init_def task_manager_init_def
    by (auto simp: l m b Let_def intro!: ends_and_then typed_task_init)
  show ?thesis
    unfolding boot_def init_main_start_def task_main_init_def
    by (auto simp: l Let_def intro!: ends_and_then [OF k] ends_and_then typed_task_init)
qed

section \<open>Properties\<close>

lemma task_segment:
  assumes "gdt_typed (gdt_table k)" and "sel_ok k t"
  shows "kind_of (gdt_table k ! sel_index (ucast (tss_sel (tasks k t)))) = Some (TssSeg t)"
proof -
  let ?i = "sel_index (ucast (tss_sel (tasks k t)))" and ?d = "gdt_table k ! sel_index (ucast (tss_sel (tasks k t)))"
  have i: "?i < 256" "attr ?d AND 0x9D = 0x89" "desc_base ?d = t + OFFSET_tss"
    using assms by (simp_all add: sel_ok_def is_tss_desc_def gdt_typed_def Let_def)
  have "kind_of ?d \<noteq> None"
  proof (cases "?i < 3")
    case True
    then have "?i = 0 \<or> ?i = 1 \<or> ?i = 2" by linarith
    then show ?thesis using assms(1) unfolding gdt_typed_def by fastforce
  next
    case False
    have "length (gdt_table k) = 256" using assms(1) by (simp add: gdt_typed_def)
    then have "?d \<in> set (drop 3 (gdt_table k))" using False i(1) by (auto simp: in_set_conv_nth intro!: exI [of _ "?i - 3"])
    then have "task_entry (kind_of ?d)" using assms(1) unfolding gdt_typed_def by blast
    then show ?thesis by (cases "kind_of ?d") simp_all
  qed
  then show ?thesis using i(2,3) by (auto simp: kind_of_def split: if_splits)
qed

text \<open>C8. Type soundness of the descriptor tables. In every state reached from boot the segment table consists of the null
  entry, the flat code and data segments, and entries that are unused, reserved or the state segment of a task; every gate
  of the interrupt table is an interrupt gate to the handler meant for its vector; and every selector that is used for
  a task switch, those of all tasks and that of the task register, names the state segment of exactly that task. Exactly the running task's segment is
  marked busy, as the processor demands of a switch to another one.\<close>

theorem tables_well_typed:
  assumes "boot_ok s" and "boot s = Done () s0"
    and "run (kstep {notify_sem s} {cpu_mutex s, log_mutex s}) s0 ops s'"
  shows "gdt_typed (gdt_table s') \<and> idt_typed (symaddr s) (idt_table s') \<and>
    (\<forall>t\<in>{idle_task s, main_task s, new_task s}.
       kind_of (gdt_table s' ! sel_index (ucast (tss_sel (tasks s' t)))) = Some (TssSeg t) \<and>
       (is_busy s' t \<longleftrightarrow> t = curr_task s')) \<and>
    kind_of (gdt_table s' ! sel_index (tr s')) = Some (TssSeg (curr_task s'))"
proof -
  have "typed (symaddr s) s0" using typed_boot [OF assms(1)] assms(2) by simp
  then have ty: "typed (symaddr s) s'" using run_frame [OF assms(3)] typed_tables by blast
  have "sim {notify_sem s} {cpu_mutex s, log_mutex s} (boot_spec s) s0" "symaddr s0 = symaddr s"
    using boot_ready [OF assms(1)] assms(2) by auto
  then obtain b where b: "arun ops (boot_spec s) = Some b" "sim {notify_sem s} {cpu_mutex s, log_mutex s} b s'"
    and sy: "symaddr s' = symaddr s" using kernel_run run_frame assms(3) by metis
  have "cpu_inv (live b s') s'" using simD(1) [OF b(2)] unfolding kinv_def kstatic_def by blast
  moreover have "live b s' = {idle_task s, main_task s, new_task s}"
    using arun_all [OF b(1)] sy by (simp add: live_def boot_spec_def idle_task_def)
  ultimately have "\<forall>t\<in>{idle_task s, main_task s, new_task s}. sel_ok s' t \<and> (is_busy s' t \<longleftrightarrow> t = curr_task s')" "curr_task s' \<in> {idle_task s, main_task s, new_task s}"
    "tr s' = ucast (tss_sel (tasks s' (curr_task s')))" unfolding cpu_inv_def by metis+
  then show ?thesis using ty task_segment [of s'] unfolding typed_def by metis
qed

theorem tables_well_typed_witness:
  "\<exists>s'. run (kstep {0x14200} {0x14000, 0x14100}) sample_running [Tick] s' \<and>
     kind_of (gdt_table s' ! 1) = Some CodeSeg \<and> handler_of (idt_table s' ! 14) = Some 0x15000 \<and>
     kind_of (gdt_table s' ! sel_index (tr s')) = Some (TssSeg (curr_task s'))"
proof -
  obtain s' where "kstep {0x14200} {0x14000, 0x14100} sample_running Tick s'" using sample_tick by blast
  then have r: "run (kstep {0x14200} {0x14000, 0x14100}) sample_running [Tick] s'" by simp
  note w = tables_well_typed [OF sample_boot_ok sample_boots(1), unfolded sample_objects, OF r]
  have m: "map handler_of (idt_table s') = map (\<lambda>i. Some (symaddr sample_kernel (vector_name i))) [0..<128]"
    using w unfolding idt_typed_def by blast
  from arg_cong [OF this, of length] have "14 < length (idt_table s')" by simp
  then have "handler_of (idt_table s' ! 14) = map (\<lambda>i. Some (symaddr sample_kernel (vector_name i))) [0..<128] ! 14"
    using m nth_map [of 14 "idt_table s'" handler_of] by metis
  also have "\<dots> = Some 0x15000"
    by (simp add: vector_name_def vector_table_def sample_kernel_def blank_kernel_def sample_symbols_def)
  finally show ?thesis using r w by (auto simp: gdt_typed_def)
qed

end
