(* ===== verification/Stubs.thy ===== *)
theory Stubs
  imports Asm Tables Exceptions
begin

text \<open>
  The interrupt stubs of \<^verbatim>\<open>src/source/kernel/init/start.S\<close>: one macro and its 23 uses. A stub completes the frame the
  processor starts on the stack to an \<^verbatim>\<open>exception_frame_t\<close>, passes its address to the C handler and, when the handler
  returns, takes everything off the stack again and resumes the interrupted program.
\<close>

section \<open>The macro and its uses\<close>

definition exception_handler :: "string \<Rightarrow> cint \<Rightarrow> bool \<Rightarrow> instr list" where
  "exception_handler name num with_err_code =
    (if with_err_code then [] else [Push_imm 0]) @
    [Push_imm num, Pusha, Push_seg DS, Push_seg ES, Push_seg FS, Push_seg GS, Push_reg ESP,
     Call (''do_handler_'' @ name),
     Add_imm 4 ESP, Pop_seg GS, Pop_seg FS, Pop_seg ES, Pop_seg DS, Popa, Add_imm 8 ESP, Iret]"

definition stub_table :: "(string \<times> cint \<times> bool) list" where
  "stub_table =
    [(''unknown'', -1, False), (''divider'', 0, False), (''Debug'', 1, False), (''NMI'', 2, False),
     (''breakpoint'', 3, False), (''overflow'', 4, False), (''bound_range'', 5, False), (''invalid_opcode'', 6, False),
     (''device_unavailable'', 7, False), (''coprocessor_segment_overrun'', 9, False), (''double_fault'', 8, True),
     (''invalid_tss'', 10, True), (''segment_not_present'', 11, True), (''stack_segment_fault'', 12, True),
     (''general_protection'', 13, True), (''page_fault'', 14, True), (''fpu_error'', 16, False),
     (''alignment_check'', 17, True), (''machine_check'', 18, False), (''smd_exception'', 19, False),
     (''virtual_exception'', 20, False), (''control_protection_exception'', 21, True), (''timer'', 0x20, False)]"

section \<open>An interrupt\<close>

text \<open>The vectors for which the processor pushes an error code.\<close>

definition error_vector :: "nat \<Rightarrow> bool" where
  "error_vector v \<longleftrightarrow> v \<in> {8, 10, 11, 12, 13, 14, 17, 21}"

text \<open>The processor's part, through an interrupt gate without change of privilege: flags, code segment, instruction
  pointer and error code are pushed, the flags IF, TF, NT, RF and VM are cleared, and the handler is entered.\<close>

definition deliver :: "env \<Rightarrow> addr \<Rightarrow> uint32_t option \<Rightarrow> cpu \<Rightarrow> cpu" where
  "deliver e h err c =
    (let c1 = push (eip c) (push_sreg e CS (push (flg c) c));
         c2 = (case err of None \<Rightarrow> c1 | Some v \<Rightarrow> push v c1)
     in c2\<lparr>eip := h, flg := flg c AND NOT 0x34300, sgr := (sgr c)(CS := KERNEL_SELECTOR_CODE)\<rparr>)"

text \<open>The stub a vector leads to: its name without the common prefix, its number and whether it expects an error code.\<close>

definition stub_of :: "nat \<Rightarrow> string \<times> cint \<times> bool" where
  "stub_of v = (let n = drop 18 (vector_name v)
     in (n, case map_of stub_table n of Some p \<Rightarrow> p | None \<Rightarrow> (0, False)))"

definition interrupt :: "env \<Rightarrow> nat \<Rightarrow> uint32_t \<Rightarrow> cpu \<Rightarrow> cpu" where
  "interrupt e v ec c =
    (let (n, num, w) = stub_of v
     in exec e (exception_handler n num w)
          (deliver e (sym e (vector_name v)) (if error_vector v then Some ec else None) c))"

text \<open>The handlers \<^verbatim>\<open>irq_init\<close> installs agree with the uses of the macro.\<close>

lemma installed_stubs:
  "\<forall>(n, h)\<in>set exception_handlers. h = ''exception_handler_'' @ drop 18 h \<and> drop 18 h \<noteq> ''unknown'' \<and>
     map_of stub_table (drop 18 h) = Some (n, error_vector (unat n)) \<and> unat n < 22"
  by (simp add: exception_handlers_eq stub_table_def error_vector_def)

lemma error_vectors_installed: "error_vector v \<Longrightarrow> vector_map exception_handlers v \<noteq> None"
  by (auto simp: error_vector_def vector_map_def exception_handlers_eq)

text \<open>Every vector of the table has a stub, which reports the vector (or \<open>-1\<close> when it has no handler of its own) and
  expects an error code exactly when the processor pushes one.\<close>

lemma vector_stubs:
  assumes "stub_of v = (n, num, w)"
  shows "(n, num, w) \<in> set stub_table" "vector_name v = ''exception_handler_'' @ n" "w = error_vector v"
    "num = (if n = ''unknown'' then -1 else of_nat v)"
proof -
  have "(n, num, w) \<in> set stub_table \<and> vector_name v = ''exception_handler_'' @ n \<and> w = error_vector v \<and>
    num = (if n = ''unknown'' then -1 else of_nat v)"
  proof (cases "v = 32 \<or> vector_map exception_handlers v = None")
    case True
    moreover have "\<not> error_vector 32" by (simp add: error_vector_def)
    ultimately have e: "\<not> error_vector v" using error_vectors_installed by metis
    have "vector_name v = (if v = 32 then ''exception_handler_timer'' else ''exception_handler_unknown'')"
      using True by (auto simp: vector_name_installed)
    then have "stub_of v = (if v = 32 then (''timer'', 0x20, False) else (''unknown'', -1, False)) \<and>
        vector_name v = (if v = 32 then ''exception_handler_timer'' else ''exception_handler_unknown'')"
      by (cases "v = 32") (simp_all add: stub_of_def stub_table_def)
    then show ?thesis using assms e by (cases "v = 32") (auto simp: stub_table_def)
  next
    case False
    then obtain h where h: "vector_map exception_handlers v = Some h" by auto
    then have "(v, h) \<in> set (map (\<lambda>(n, h). (unat n, h)) (rev exception_handlers))"
      unfolding vector_map_def by (rule map_of_SomeD)
    then obtain k where k: "(k, h) \<in> set exception_handlers" "v = unat k" by auto
    from bspec [OF installed_stubs k(1)] have t: "h = ''exception_handler_'' @ drop 18 h" "drop 18 h \<noteq> ''unknown''"
      "map_of stub_table (drop 18 h) = Some (k, error_vector v)" using k(2) by simp_all
    have "vector_name v = h" using False h by (simp add: vector_name_installed)
    then have n: "n = drop 18 h" "num = k" "w = error_vector v" using assms t(3) by (simp_all add: stub_of_def Let_def)
    show ?thesis using t map_of_SomeD [OF t(3)] k(2) \<open>vector_name v = h\<close> unfolding n by simp
  qed
  then show "(n, num, w) \<in> set stub_table" "vector_name v = ''exception_handler_'' @ n" "w = error_vector v"
    "num = (if n = ''unknown'' then -1 else of_nat v)" by blast+
qed

lemma unknown_vector: "drop 18 (vector_name v) = ''unknown'' \<longleftrightarrow> v \<notin> fst ` set vector_table"
proof -
  have "n \<noteq> ''unknown''" if "(i, n) \<in> set vector_table" for i n using that by (auto simp: vector_table_def)
  moreover have "v \<in> fst ` set vector_table \<longleftrightarrow> map_of vector_table v \<noteq> None" by (simp add: map_of_eq_None_iff)
  ultimately show ?thesis by (cases "map_of vector_table v") (auto simp: vector_name_def dest: map_of_SomeD)
qed

section \<open>The frame the handler sees\<close>

definition read_frame :: "memory \<Rightarrow> addr \<Rightarrow> exception_frame_t" where
  "read_frame m a = \<lparr>f_gs = mem_word m a, f_fs = mem_word m (a + 4), f_es = mem_word m (a + 8), f_ds = mem_word m (a + 12),
     f_edi = mem_word m (a + 16), f_esi = mem_word m (a + 20), f_ebp = mem_word m (a + 24), f_esp = mem_word m (a + 28),
     f_ebx = mem_word m (a + 32), f_edx = mem_word m (a + 36), f_ecx = mem_word m (a + 40), f_eax = mem_word m (a + 44),
     f_num = mem_word m (a + 48), f_error_code = mem_word m (a + 52), f_eip = mem_word m (a + 56),
     f_cs = mem_word m (a + 60), f_eflags = mem_word m (a + 64)\<rparr>"

definition frame_words :: "exception_frame_t \<Rightarrow> uint32_t list" where
  "frame_words f = [f_gs f, f_fs f, f_es f, f_ds f, f_edi f, f_esi f, f_ebp f, f_esp f, f_ebx f, f_edx f, f_ecx f, f_eax f,
     f_num f, f_error_code f, f_eip f, f_cs f, f_eflags f]"

lemma read_frame_words: "words_at m a (frame_words f) \<Longrightarrow> read_frame m a = f"
  by (cases f) (simp add: frame_words_def read_frame_def add.assoc)

text \<open>What the frame should hold: the interrupted program's registers. Its stack pointer is the one before
  \<^verbatim>\<open>pusha\<close>, five words below that of the program. Of the segment registers the lower halves are certain.\<close>

definition describes :: "exception_frame_t \<Rightarrow> nat \<Rightarrow> uint32_t \<Rightarrow> cpu \<Rightarrow> bool" where
  "describes f v ec c \<longleftrightarrow>
     ucast (f_gs f) = sgr c GS \<and> ucast (f_fs f) = sgr c FS \<and> ucast (f_es f) = sgr c ES \<and> ucast (f_ds f) = sgr c DS \<and>
     f_edi f = gpr c EDI \<and> f_esi f = gpr c ESI \<and> f_ebp f = gpr c EBP \<and> f_esp f = gpr c ESP - 20 \<and> f_ebx f = gpr c EBX \<and>
     f_edx f = gpr c EDX \<and> f_ecx f = gpr c ECX \<and> f_eax f = gpr c EAX \<and>
     f_num f = (if drop 18 (vector_name v) = ''unknown'' then -1 else of_nat v) \<and>
     f_error_code f = (if error_vector v then ec else 0) \<and> f_eip f = eip c \<and> ucast (f_cs f) = sgr c CS \<and> f_eflags f = flg c"

text \<open>The whole frame, on a processor that extends a pushed selector with zeros.\<close>

definition context_frame :: "nat \<Rightarrow> uint32_t \<Rightarrow> cpu \<Rightarrow> exception_frame_t" where
  "context_frame v ec c = \<lparr>f_gs = ucast (sgr c GS), f_fs = ucast (sgr c FS), f_es = ucast (sgr c ES), f_ds = ucast (sgr c DS),
     f_edi = gpr c EDI, f_esi = gpr c ESI, f_ebp = gpr c EBP, f_esp = gpr c ESP - 20, f_ebx = gpr c EBX, f_edx = gpr c EDX,
     f_ecx = gpr c ECX, f_eax = gpr c EAX, f_num = (if drop 18 (vector_name v) = ''unknown'' then -1 else of_nat v),
     f_error_code = (if error_vector v then ec else 0), f_eip = eip c, f_cs = ucast (sgr c CS), f_eflags = flg c\<rparr>"

text \<open>The machine when the handler is entered: the return address and the address of the frame are on the stack.\<close>

definition saving :: "cint \<Rightarrow> bool \<Rightarrow> instr list" where
  "saving num w = (if w then [] else [Push_imm 0]) @
    [Push_imm num, Pusha, Push_seg DS, Push_seg ES, Push_seg FS, Push_seg GS, Push_reg ESP]"

definition restoring :: "instr list" where
  "restoring = [Add_imm 4 ESP, Pop_seg GS, Pop_seg FS, Pop_seg ES, Pop_seg DS, Popa, Add_imm 8 ESP, Iret]"

lemma saving_error: "exec e (saving num False) c = exec e (saving num True) (push 0 c)"
  by (simp add: saving_def del: step.simps) simp

lemma exception_handler_parts:
  "exception_handler n num w = saving num w @ [Call (''do_handler_'' @ n)] @ restoring"
  by (simp add: exception_handler_def saving_def restoring_def)

definition handler_entry :: "env \<Rightarrow> nat \<Rightarrow> uint32_t \<Rightarrow> cpu \<Rightarrow> cpu" where
  "handler_entry e v ec c =
    (let (n, num, w) = stub_of v
     in push (sym e (''after_do_handler_'' @ n)) (exec e (saving num w)
          (deliver e (sym e (vector_name v)) (if error_vector v then Some ec else None) c)))"

lemma interrupt_parts:
  assumes "stub_of v = (n, num, w)"
  shows "interrupt e v ec c = exec e restoring (cfun e (''do_handler_'' @ n) (handler_entry e v ec c))"
  using assms by (simp add: interrupt_def handler_entry_def exception_handler_parts)

text \<open>The processor's part and the error code: four words, with or without the help of the stub.\<close>

lemma delivered:
  assumes "w = error_vector v"
  shows "\<exists>cs c1. exec e (saving num w) (deliver e h (if error_vector v then Some ec else None) c) =
      exec e (saving num True) c1 \<and> stack c1 [if error_vector v then ec else 0, eip c, cs, flg c] \<and>
    ucast cs = sgr c CS \<and> (\<not> half_push e \<longrightarrow> cs = ucast (sgr c CS)) \<and>
    gpr c1 = (gpr c)(ESP := gpr c ESP - 16) \<and> sgr c1 = (sgr c)(CS := KERNEL_SELECTOR_CODE)"
proof -
  have "stack (push (flg c) c) [flg c]" by (rule stack_push) simp_all
  from stack_push_sreg [OF this, of e CS] obtain cs where cs: "ucast cs = sgr c CS"
    "\<not> half_push e \<longrightarrow> cs = ucast (sgr c CS)" "stack (push_sreg e CS (push (flg c) c)) [cs, flg c]" by auto
  let ?c1 = "push (eip c) (push_sreg e CS (push (flg c) c))" and ?ec = "if error_vector v then ec else 0"
  let ?c2 = "push ?ec ?c1"
  let ?c3 = "?c2\<lparr>eip := h, flg := flg c AND NOT 0x34300, sgr := (sgr c)(CS := KERNEL_SELECTOR_CODE)\<rparr>"
  have "stack ?c1 [eip c, cs, flg c]" using cs(3) by (rule stack_push) simp
  then have "stack ?c2 [?ec, eip c, cs, flg c]" by (rule stack_push) simp
  then have "stack ?c3 [?ec, eip c, cs, flg c]" by (simp add: stack_def)
  moreover have "push z (x\<lparr>eip := h, flg := f, sgr := q\<rparr>) = (push z x)\<lparr>eip := h, flg := f, sgr := q\<rparr>" for z x f q
    by (simp add: push_def set_reg_def Let_def)
  then have "exec e (saving num w) (deliver e h (if error_vector v then Some ec else None) c) = exec e (saving num True) ?c3"
    using assms by (cases "error_vector v") (simp_all add: deliver_def saving_error Let_def)
  moreover have "gpr ?c3 = (gpr c)(ESP := gpr c ESP - 16)" by (rule ext) simp
  ultimately show ?thesis using cs(1,2) by (intro exI [of _ cs] exI [of _ ?c3]) simp
qed

lemma stack_pusha:
  assumes "stack c ws" and "4 * length ws + 32 \<le> 2 ^ 32"
  shows "stack (step e Pusha c) ([gpr c EDI, gpr c ESI, gpr c EBP, gpr c ESP, gpr c EBX, gpr c EDX, gpr c ECX, gpr c EAX] @ ws)"
  using assms by (auto intro!: stack_push)

lemma pusha_fields: "gpr (step e Pusha c) = (gpr c)(ESP := gpr c ESP - 32)" "sgr (step e Pusha c) = sgr c"
  by (auto intro!: ext)

lemma saved:
  assumes "stack c1 [x, ip, cs, fl]"
  shows "\<exists>f. stack (exec e (saving num True) c1) ((gpr c1 ESP - 52) # frame_words f) \<and>
    gpr (exec e (saving num True) c1) ESP = gpr c1 ESP - 56 \<and> sgr (exec e (saving num True) c1) SS = sgr c1 SS \<and>
    ucast (f_gs f) = sgr c1 GS \<and> ucast (f_fs f) = sgr c1 FS \<and> ucast (f_es f) = sgr c1 ES \<and> ucast (f_ds f) = sgr c1 DS \<and>
    (\<not> half_push e \<longrightarrow> f_gs f = ucast (sgr c1 GS) \<and> f_fs f = ucast (sgr c1 FS) \<and> f_es f = ucast (sgr c1 ES) \<and>
       f_ds f = ucast (sgr c1 DS)) \<and>
    f_edi f = gpr c1 EDI \<and> f_esi f = gpr c1 ESI \<and> f_ebp f = gpr c1 EBP \<and> f_esp f = gpr c1 ESP - 4 \<and> f_ebx f = gpr c1 EBX \<and>
    f_edx f = gpr c1 EDX \<and> f_ecx f = gpr c1 ECX \<and> f_eax f = gpr c1 EAX \<and> f_num f = num \<and> f_error_code f = x \<and>
    f_eip f = ip \<and> f_cs f = cs \<and> f_eflags f = fl"
proof -
  define c2 where "c2 = step e Pusha (push num c1)"
  let ?ws = "[gpr c1 EDI, gpr c1 ESI, gpr c1 EBP, gpr c1 ESP - 4, gpr c1 EBX, gpr c1 EDX, gpr c1 ECX, gpr c1 EAX, num, x, ip, cs, fl]"
  have "stack (push num c1) [num, x, ip, cs, fl]" using assms by (rule stack_push) simp
  from stack_pusha [OF this, of e] have s2: "stack c2 ?ws" by (simp add: c2_def del: step.simps)
  have c2: "gpr c2 = (gpr c1)(ESP := gpr c1 ESP - 36)" "sgr c2 = sgr c1"
    unfolding c2_def pusha_fields by simp_all
  note p = stack_push_sreg [of _ _ e]
  obtain ds where ds: "stack (push_sreg e DS c2) (ds # ?ws)" "ucast ds = sgr c1 DS" "\<not> half_push e \<longrightarrow> ds = ucast (sgr c1 DS)"
    using p [OF s2, of DS] by (auto simp: c2)
  let ?c3 = "push_sreg e DS c2"
  obtain es where es: "stack (push_sreg e ES ?c3) (es # ds # ?ws)" "ucast es = sgr c1 ES" "\<not> half_push e \<longrightarrow> es = ucast (sgr c1 ES)"
    using p [OF ds(1), of ES] by (auto simp: c2)
  let ?c4 = "push_sreg e ES ?c3"
  obtain fs where fs: "stack (push_sreg e FS ?c4) (fs # es # ds # ?ws)" "ucast fs = sgr c1 FS" "\<not> half_push e \<longrightarrow> fs = ucast (sgr c1 FS)"
    using p [OF es(1), of FS] by (auto simp: c2)
  let ?c5 = "push_sreg e FS ?c4"
  obtain gs where gs: "stack (push_sreg e GS ?c5) (gs # fs # es # ds # ?ws)" "ucast gs = sgr c1 GS" "\<not> half_push e \<longrightarrow> gs = ucast (sgr c1 GS)"
    using p [OF fs(1), of GS] by (auto simp: c2)
  let ?c6 = "push_sreg e GS ?c5"
  let ?f = "\<lparr>f_gs = gs, f_fs = fs, f_es = es, f_ds = ds, f_edi = gpr c1 EDI, f_esi = gpr c1 ESI, f_ebp = gpr c1 EBP,
    f_esp = gpr c1 ESP - 4, f_ebx = gpr c1 EBX, f_edx = gpr c1 EDX, f_ecx = gpr c1 ECX, f_eax = gpr c1 EAX, f_num = num,
    f_error_code = x, f_eip = ip, f_cs = cs, f_eflags = fl\<rparr>"
  have run: "exec e (saving num True) c1 = push (gpr ?c6 ESP) ?c6"
    by (simp add: saving_def c2_def del: step.simps(6))
  have sp: "gpr ?c6 ESP = gpr c1 ESP - 52" by (simp add: c2)
  have "stack ?c6 (frame_words ?f)" using gs(1) by (simp add: frame_words_def)
  then have "stack (push (gpr ?c6 ESP) ?c6) (gpr ?c6 ESP # frame_words ?f)" by (rule stack_push) (simp add: frame_words_def)
  then have "stack (exec e (saving num True) c1) ((gpr c1 ESP - 52) # frame_words ?f)" unfolding run sp .
  moreover have "gpr (push (gpr ?c6 ESP) ?c6) ESP = gpr c1 ESP - 56" "sgr (push (gpr ?c6 ESP) ?c6) SS = sgr c1 SS"
    by (simp_all add: c2)
  ultimately show ?thesis
    using ds(2,3) es(2,3) fs(2,3) gs(2,3) unfolding run by (intro exI [of _ ?f]) simp
qed

text \<open>The handler is entered with the address of a frame that describes the interrupted program.\<close>

lemma handler_entered:
  "\<exists>f. stack (handler_entry e v ec c) (sym e (''after_do_handler_'' @ fst (stub_of v)) # (gpr c ESP - 68) # frame_words f) \<and>
    gpr (handler_entry e v ec c) ESP = gpr c ESP - 76 \<and> sgr (handler_entry e v ec c) SS = sgr c SS \<and>
    describes f v ec c \<and> (\<not> half_push e \<longrightarrow> f = context_frame v ec c)"
proof -
  obtain n num w where st: "stub_of v = (n, num, w)" using prod_cases3 by blast
  note t = vector_stubs [OF st]
  have nm: "drop 18 (vector_name v) = n" unfolding t(2) by simp
  obtain cs c1 where c1: "exec e (saving num w) (deliver e (sym e (vector_name v)) (if error_vector v then Some ec else None) c) =
      exec e (saving num True) c1" "stack c1 [if error_vector v then ec else 0, eip c, cs, flg c]"
    "ucast cs = sgr c CS" "\<not> half_push e \<longrightarrow> cs = ucast (sgr c CS)" "gpr c1 = (gpr c)(ESP := gpr c ESP - 16)"
    "sgr c1 = (sgr c)(CS := KERNEL_SELECTOR_CODE)"
    using delivered [OF t(3), of e num "sym e (vector_name v)" ec c] by blast
  from saved [OF c1(2), of e num] obtain f where
    f: "stack (exec e (saving num True) c1) ((gpr c ESP - 68) # frame_words f)"
    "gpr (exec e (saving num True) c1) ESP = gpr c ESP - 72" "sgr (exec e (saving num True) c1) SS = sgr c SS"
    "describes f v ec c" "\<not> half_push e \<longrightarrow> f = context_frame v ec c"
    using c1(3-6) t(4) by (auto simp: describes_def context_frame_def nm)
  let ?r = "sym e (''after_do_handler_'' @ n)"
  have "stack (push ?r (exec e (saving num True) c1)) (?r # (gpr c ESP - 68) # frame_words f)"
    using f(1) by (rule stack_push) (simp add: frame_words_def)
  moreover have "handler_entry e v ec c = push ?r (exec e (saving num True) c1)"
    using c1(1) by (simp add: handler_entry_def st)
  ultimately show ?thesis using f(2-5) st by (intro exI [of _ f]) simp
qed

lemma frame_passed:
  assumes "stack c (r # a # frame_words f)" and "a = gpr c ESP + 8"
  shows "mem_word (ram c) (gpr c ESP + 4) = a" "read_frame (ram c) (mem_word (ram c) (gpr c ESP + 4)) = f"
  using assms read_frame_words [of "ram c" a f] by (simp_all add: stack_def add.assoc)

section \<open>The way back\<close>

text \<open>What a C function guarantees to its caller: it returns with its return address taken off the stack and does not
  change the stack segment; and a handler does not write the frame it gets.\<close>

definition returns_from :: "cpu \<Rightarrow> cpu \<Rightarrow> bool" where
  "returns_from c c' \<longleftrightarrow> gpr c' ESP = gpr c ESP + 4 \<and> sgr c' SS = sgr c SS \<and>
     (\<forall>x\<in>region (gpr c ESP + 8) 68. ram c' x = ram c x)"

lemma stack_popa:
  assumes "stack c ([di, si, bp, sp, bx, dx, cx, ax] @ ws)"
  shows "stack (step e Popa c) ws" "sgr (step e Popa c) = sgr c" "ram (step e Popa c) = ram c" "eip (step e Popa c) = eip c"
    "flg (step e Popa c) = flg c"
    "gpr (step e Popa c) = (gpr c)(EDI := di, ESI := si, EBP := bp, EBX := bx, EDX := dx, ECX := cx, EAX := ax, ESP := gpr c ESP + 32)"
proof -
  let ?c1 = "pop EDI c"
  let ?c2 = "pop ESI ?c1"
  let ?c3 = "pop EBP ?c2"
  let ?c4 = "drop_word ?c3"
  let ?c5 = "pop EBX ?c4"
  let ?c6 = "pop EDX ?c5"
  let ?c7 = "pop ECX ?c6"
  have s1: "stack ?c1 ([si, bp, sp, bx, dx, cx, ax] @ ws)" using assms by (simp add: stack_def)
  then have s2: "stack ?c2 ([bp, sp, bx, dx, cx, ax] @ ws)" by (simp add: stack_def)
  then have s3: "stack ?c3 ([sp, bx, dx, cx, ax] @ ws)" by (simp add: stack_def)
  then have s4: "stack ?c4 ([bx, dx, cx, ax] @ ws)" by (simp add: stack_def)
  then have s5: "stack ?c5 ([dx, cx, ax] @ ws)" by (simp add: stack_def)
  then have s6: "stack ?c6 ([cx, ax] @ ws)" by (simp add: stack_def)
  then have s7: "stack ?c7 ([ax] @ ws)" by (simp add: stack_def)
  then show "stack (step e Popa c) ws" by (simp add: stack_def)
  have t: "top_word c = di" "top_word ?c1 = si" "top_word ?c2 = bp" "top_word ?c4 = bx" "top_word ?c5 = dx" "top_word ?c6 = cx"
    "top_word ?c7 = ax" using assms s1 s2 s4 s5 s6 s7 by (simp_all add: stack_top del: cpu_fields)
  show "gpr (step e Popa c) = (gpr c)(EDI := di, ESI := si, EBP := bp, EBX := bx, EDX := dx, ECX := cx, EAX := ax, ESP := gpr c ESP + 32)"
    by (rule ext) (simp add: t)
qed simp_all

lemma stack_iret:
  assumes "stack c [ip, cs, fl]"
  shows "gpr (step e Iret c) = (gpr c)(ESP := gpr c ESP + 12)" "sgr (step e Iret c) = (sgr c)(CS := ucast cs)"
    "eip (step e Iret c) = ip" "flg (step e Iret c) = fl" "ram (step e Iret c) = ram c"
  using assms by (simp_all add: stack_def top_word_def Let_def add.assoc)

lemma restored:
  assumes "stack c (a # frame_words f)"
  shows "gpr (exec e restoring c) = (gpr c)(EDI := f_edi f, ESI := f_esi f, EBP := f_ebp f, EBX := f_ebx f, EDX := f_edx f,
      ECX := f_ecx f, EAX := f_eax f, ESP := gpr c ESP + 72)"
    "sgr (exec e restoring c) = (sgr c)(GS := ucast (f_gs f), FS := ucast (f_fs f), ES := ucast (f_es f),
      DS := ucast (f_ds f), CS := ucast (f_cs f))"
    "eip (exec e restoring c) = f_eip f" "flg (exec e restoring c) = f_eflags f" "ram (exec e restoring c) = ram c"
proof -
  let ?ws = "[f_edi f, f_esi f, f_ebp f, f_esp f, f_ebx f, f_edx f, f_ecx f, f_eax f] @ [f_num f, f_error_code f, f_eip f, f_cs f, f_eflags f]"
  define c1 where "c1 = step e (Add_imm 4 ESP) c"
  define c2 where "c2 = pop_sreg DS (pop_sreg ES (pop_sreg FS (pop_sreg GS c1)))"
  define c3 where "c3 = step e Popa c2"
  define c4 where "c4 = step e (Add_imm 8 ESP) c3"
  have r: "exec e restoring c = step e Iret c4"
    by (simp add: restoring_def c1_def c2_def c3_def c4_def del: step.simps(7,17))
  have s1: "stack c1 (f_gs f # f_fs f # f_es f # f_ds f # ?ws)" using assms by (simp add: c1_def stack_def frame_words_def)
  note s2 = stack_pops(3) [OF s1, of GS]
  note s3 = stack_pops(3) [OF s2, of FS]
  note s4 = stack_pops(3) [OF s3, of ES]
  have "stack c2 ?ws" unfolding c2_def by (rule stack_pops(3) [OF s4])
  note p = stack_popa [OF this, of e, folded c3_def]
  have "stack c4 [f_eip f, f_cs f, f_eflags f]" using p(1) by (simp add: c4_def stack_def add.assoc)
  note b = stack_iret [OF this, of e, folded r]
  have c1: "gpr c1 = (gpr c)(ESP := gpr c ESP + 4)" "sgr c1 = sgr c" "ram c1 = ram c" by (simp_all add: c1_def)
  have sg: "sgr c2 = (sgr c)(GS := ucast (f_gs f), FS := ucast (f_fs f), ES := ucast (f_es f), DS := ucast (f_ds f))"
    using stack_top [OF s1] stack_top [OF s2] stack_top [OF s3] stack_top [OF s4] by (simp add: c2_def c1)
  have g: "gpr c2 = (gpr c)(ESP := gpr c ESP + 20)" "ram c2 = ram c" by (simp_all add: c2_def c1 fun_upd_def fun_eq_iff)
  show "sgr (exec e restoring c) = (sgr c)(GS := ucast (f_gs f), FS := ucast (f_fs f), ES := ucast (f_es f),
      DS := ucast (f_ds f), CS := ucast (f_cs f))" by (simp add: b c4_def p(2) sg)
  show "gpr (exec e restoring c) = (gpr c)(EDI := f_edi f, ESI := f_esi f, EBP := f_ebp f, EBX := f_ebx f, EDX := f_edx f,
      ECX := f_ecx f, EAX := f_eax f, ESP := gpr c ESP + 72)" by (rule ext) (simp add: b(1) c4_def p(6) g)
  show "eip (exec e restoring c) = f_eip f" "flg (exec e restoring c) = f_eflags f" "ram (exec e restoring c) = ram c"
    by (simp_all add: b c4_def p(3) g)
qed

lemma interrupt_resumes:
  assumes "returns_from (handler_entry e v ec c) (cfun e (''do_handler_'' @ fst (stub_of v)) (handler_entry e v ec c))"
  shows "gpr (interrupt e v ec c) = gpr c" "sgr (interrupt e v ec c) = sgr c" "eip (interrupt e v ec c) = eip c"
    "flg (interrupt e v ec c) = flg c"
    "ram (interrupt e v ec c) = ram (cfun e (''do_handler_'' @ fst (stub_of v)) (handler_entry e v ec c))"
proof -
  obtain n num w where st: "stub_of v = (n, num, w)" using prod_cases3 by blast
  let ?c = "handler_entry e v ec c" and ?c' = "cfun e (''do_handler_'' @ n) (handler_entry e v ec c)"
  obtain f where f: "stack ?c (sym e (''after_do_handler_'' @ n) # (gpr c ESP - 68) # frame_words f)"
    "gpr ?c ESP = gpr c ESP - 76" "sgr ?c SS = sgr c SS" "describes f v ec c"
    using handler_entered [of e v ec c] st by auto
  have r: "gpr ?c' ESP = gpr ?c ESP + 4" "sgr ?c' SS = sgr ?c SS" "\<And>x. x \<in> region (gpr ?c ESP + 8) 68 \<Longrightarrow> ram ?c' x = ram ?c x"
    using assms by (simp_all add: returns_from_def st del: region.simps)
  have "words_at (ram ?c) (gpr ?c ESP + 8) (frame_words f)" using f(1) by (simp add: stack_def add.assoc)
  moreover have "4 * length (frame_words f) = 68" by (simp add: frame_words_def)
  ultimately have "words_at (ram ?c') (gpr ?c ESP + 8) (frame_words f)"
    using words_at_cong [of "gpr ?c ESP + 8" "frame_words f" "ram ?c'" "ram ?c"] r(3) by simp
  then have "stack ?c' (mem_word (ram ?c') (gpr ?c' ESP) # frame_words f)"
    using r(1) by (simp add: stack_def add.assoc)
  note b = restored [OF this, of e]
  have i: "interrupt e v ec c = exec e restoring ?c'" by (rule interrupt_parts [OF st])
  show "eip (interrupt e v ec c) = eip c" "flg (interrupt e v ec c) = flg c"
    using f(4) by (simp_all only: i b) (simp_all add: describes_def)
  show "ram (interrupt e v ec c) = ram (cfun e (''do_handler_'' @ fst (stub_of v)) ?c)" by (simp only: i b st fst_conv)
  show "gpr (interrupt e v ec c) = gpr c"
  proof (rule ext)
    show "gpr (interrupt e v ec c) r = gpr c r" for r
      unfolding i b(1) using f(2,4) r(1) by (cases r) (simp_all add: describes_def)
  qed
  show "sgr (interrupt e v ec c) = sgr c"
  proof (rule ext)
    show "sgr (interrupt e v ec c) q = sgr c q" for q
      unfolding i b(2) using f(3,4) r(2) by (cases q) (simp_all add: describes_def)
  qed
qed

section \<open>Properties\<close>

text \<open>C22. The frame of an interrupt. Whatever the vector, the C handler of the stub its gate leads to is called with the
  return address and a pointer on the stack, and the pointer leads to an \<^verbatim>\<open>exception_frame_t\<close> in which: the general
  registers other than the stack pointer, the instruction pointer and the flags are those of the interrupted program; the
  field of the stack pointer is 20 less than the program's (\<^verbatim>\<open>pusha\<close> runs after five words were pushed); the number is
  the vector when it is one of the processor's exceptions or the timer, and \<open>-1\<close> for every other vector, all of which
  share the stub \<^verbatim>\<open>unknown\<close>; the error code is the one the processor pushed, or 0; the segment registers are in the
  lower halves of their fields, and the upper halves are zero unless the processor pushes selectors without them.\<close>

theorem interrupt_frame:
  "let c' = handler_entry e v ec c; a = mem_word (ram c') (gpr c' ESP + 4); f = read_frame (ram c') a
   in top_word c' = sym e (''after_do_handler_'' @ fst (stub_of v)) \<and> a = gpr c ESP - 68 \<and>
     describes f v ec c \<and> (half_push e \<or> f = context_frame v ec c) \<and>
     f_num f = (if v \<in> fst ` set vector_table then of_nat v else -1)"
proof -
  obtain f where f: "stack (handler_entry e v ec c) (sym e (''after_do_handler_'' @ fst (stub_of v)) # (gpr c ESP - 68) # frame_words f)"
    "describes f v ec c" "\<not> half_push e \<longrightarrow> f = context_frame v ec c" "gpr (handler_entry e v ec c) ESP = gpr c ESP - 76"
    using handler_entered [of e v ec c] by blast
  then show ?thesis
    using frame_passed [OF f(1)] stack_top [OF f(1)] by (auto simp: Let_def describes_def unknown_vector)
qed

text \<open>C15. Interrupts are transparent. If the C handler returns (with the return address off the stack, the stack segment and
  the frame as they were), the stub resumes the interrupted program with every general register, every segment register, the
  instruction pointer and the flags as they were when the interrupt came, and with the memory the handler left.\<close>

theorem interrupt_transparent:
  assumes "returns_from (handler_entry e v ec c) (cfun e (''do_handler_'' @ fst (stub_of v)) (handler_entry e v ec c))"
  shows "interrupt e v ec c = c\<lparr>ram := ram (cfun e (''do_handler_'' @ fst (stub_of v)) (handler_entry e v ec c))\<rparr>"
  using interrupt_resumes [OF assms] by (intro cpu.equality) simp_all

theorem interrupt_transparent_witness:
  "gpr (interrupt sample_env 32 0 sample_cpu) = gpr sample_cpu \<and> eip (interrupt sample_env 32 0 sample_cpu) = 0x12345 \<and>
   flg (interrupt sample_env 32 0 sample_cpu) = 0x202 \<and> ram (interrupt sample_env 32 0 sample_cpu) 0x500 = 7"
proof -
  let ?c = "handler_entry sample_env 32 0 sample_cpu" and ?f = "cfun sample_env (''do_handler_'' @ fst (stub_of 32))"
  have "gpr ?c ESP = gpr sample_cpu ESP - 76" using handler_entered [of sample_env 32 0 sample_cpu] by blast
  then have sp: "gpr ?c ESP = 0x8FB4" by (simp add: sample_cpu_def)
  have "region 0x500 1 \<inter> region (0x8FB4 + 8) 68 = {}" by (rule region_apart) simp
  then have "0x500 \<notin> region (0x8FB4 + 8) 68" by (simp del: region.simps(2) add: region.simps(2) [of "0x500" 0])
  moreover have k: "cfun sample_env x c = (drop_word c)\<lparr>ram := (ram c)(0x500 := 7)\<rparr>" for x c by (simp add: sample_env_def)
  ultimately have "returns_from ?c (?f ?c)" by (auto simp: returns_from_def k sp simp del: region.simps)
  from interrupt_transparent [OF this] show ?thesis by (simp add: k) (simp add: sample_cpu_def)
qed

text \<open>C16. Exceptions report the interrupted program. Let the vector have an exception handler, the processor push selectors
  as whole words, the mutex of the log be free or held by the interrupted task, the literals be in memory, and every line of
  the report fit the 127 bytes of the buffer. Then the handler, called by the stub, prints the report of the registers the
  program had when the exception came, with the message of the exception, and halts, if none of the registers printed in
  hexadecimal is negative as \<^verbatim>\<open>int\<close>; if one is, it stops before the line of that register with the message of
  \<^verbatim>\<open>kernel_itoa\<close> and loops for ever. In the report ESP is 20 less than that of the program, the value printed for SS
  is that of DS, and the number is \<open>-1\<close> for a vector that is not one of the processor's exceptions.\<close>

theorem exception_reports_context:
  assumes "\<not> half_push e" and "(vector_name v, h, name, msg) \<in> set handler_table"
    and "reporting buf s" and "string_at buf (symaddr s name) (map chr msg) s"
    and "\<forall>l\<in>set (core_report (context_frame v ec c)). length l \<le> 127"
    and "c' = handler_entry e v ec c" and "result = h buf (read_frame (ram c') (mem_word (ram c') (gpr c' ESP + 4))) s"
  shows "if \<forall>r\<in>set (hex_regs (context_frame v ec c)). 0 \<le> sint r
    then \<exists>s'. result = Halted s' \<and> logged buf (exception_report (map chr msg) (context_frame v ec c)) s s'
    else \<exists>s'. result = Looping s' \<and> logged buf (stopped_report (map chr msg) (context_frame v ec c)) s s'"
proof -
  obtain f where f: "stack c' (sym e (''after_do_handler_'' @ fst (stub_of v)) # (gpr c ESP - 68) # frame_words f)"
    "\<not> half_push e \<longrightarrow> f = context_frame v ec c" "gpr c' ESP = gpr c ESP - 76"
    using handler_entered [of e v ec c] unfolding assms(6) by blast
  have "read_frame (ram c') (mem_word (ram c') (gpr c' ESP + 4)) = context_frame v ec c"
    using frame_passed(2) [OF f(1)] f(2,3) assms(1) by simp
  then show ?thesis using table_handler_reports [OF assms(2-5)] unfolding assms(7) signed_ok_def by simp
qed

theorem exception_reports_context_witness:
  "\<exists>s' a. do_handler_divider 0x20000 (read_frame (ram (handler_entry (sample_env\<lparr>half_push := False\<rparr>) 0 0 sample_cpu)) a)
       sample_reporting = Halted s' \<and>
     io s' = concat (map line_events (exception_report (map chr ''divider exception'') (context_frame 0 0 sample_cpu)))"
proof -
  let ?e = "sample_env\<lparr>half_push := False\<rparr>" and ?f = "context_frame 0 0 sample_cpu"
  have n: "vector_name 0 = ''exception_handler_divider''" by (simp add: vector_name_def vector_table_def)
  then have t: "(vector_name 0, do_handler_divider, ''str_divider'', ''divider exception'') \<in> set handler_table"
    by (simp add: handler_table_def)
  have m: "(''str_divider'', ''divider exception'') \<in> set sample_texts" by (simp add: sample_texts_def)
  have f: "?f = \<lparr>f_gs = 16, f_fs = 16, f_es = 16, f_ds = 16, f_edi = 2, f_esi = 3, f_ebp = 3, f_esp = 0x8FEC, f_ebx = 3,
     f_edx = 3, f_ecx = 3, f_eax = 1, f_num = 0, f_error_code = 0, f_eip = 0x12345, f_cs = 8, f_eflags = 0x202\<rparr>"
    by (simp add: context_frame_def sample_cpu_def error_vector_def n)
  have fit: "\<forall>l\<in>set (core_report ?f). length l \<le> 127" unfolding f
    by (simp add: core_report_def segment_items_def register_items_def dec_def hex_def itoa_text_def
        digits_def digits_rev.simps crlf_def)
  have pos: "\<forall>r\<in>set (hex_regs ?f). 0 \<le> sint r" unfolding f by (simp add: hex_regs_def general_regs_def flow_regs_def)
  have "\<not> half_push ?e" "io sample_reporting = []" by (simp_all add: sample_reporting_def blank_kernel_def)
  then show ?thesis
    using exception_reports_context [OF _ t sample_reporting_ok sample_string_at [OF m] fit refl refl, of ?e] pos
    by (auto simp: logged_def simp del: region.simps)
qed

end
