(* ===== verification/Elf.thy ===== *)
theory Elf
  imports Klib
begin

text \<open>
  Loading the kernel image: the ELF structures of \<^verbatim>\<open>src/source/comm/elf.h\<close> and
  \<^verbatim>\<open>reload_elf_file\<close> of \<^verbatim>\<open>src/source/loader/loader32.c\<close>. The code reads the headers in place,
  again in every round of its loops, while it writes the segments; a header is therefore a function of
  the current memory, and a loop bounded by a header field is a partial function.
\<close>

section \<open>Structures\<close>

type_synonym Elf32_Addr = uint32_t
type_synonym Elf32_Half = uint16_t
type_synonym Elf32_Off = uint32_t
type_synonym Elf32_Word = uint32_t

record Elf32_Ehdr =
  e_ident :: "uint8_t list"
  e_type :: Elf32_Half
  e_machine :: Elf32_Half
  e_version :: Elf32_Word
  e_entry :: Elf32_Addr
  e_phoff :: Elf32_Off
  e_shoff :: Elf32_Off
  e_flags :: Elf32_Word
  e_ehsize :: Elf32_Half
  e_phentsize :: Elf32_Half
  e_phnum :: Elf32_Half
  e_shentsize :: Elf32_Half
  e_shnum :: Elf32_Half
  e_shstrndx :: Elf32_Half

record Elf32_Phdr =
  p_type :: Elf32_Word
  p_offset :: Elf32_Off
  p_vaddr :: Elf32_Addr
  p_paddr :: Elf32_Addr
  p_filesz :: Elf32_Word
  p_memsz :: Elf32_Word
  p_flags :: Elf32_Word
  p_align :: Elf32_Word

definition ELF_MAGIC0 :: uint8_t where "ELF_MAGIC0 = 0x7F"
definition ELF_MAGIC1 :: uint8_t where "ELF_MAGIC1 = 0x45"
definition ELF_MAGIC2 :: uint8_t where "ELF_MAGIC2 = 0x4c"
definition ELF_MAGIC3 :: uint8_t where "ELF_MAGIC3 = 0x46"
definition PT_LOAD :: uint32_t where "PT_LOAD = 1"
definition SIZEOF_Elf32_Phdr :: uint32_t where "SIZEOF_Elf32_Phdr = 32"

text \<open>The packed structures at an address.\<close>

definition read_ehdr :: "memory \<Rightarrow> addr \<Rightarrow> Elf32_Ehdr" where
  "read_ehdr m a = \<lparr>e_ident = bytes m a 16, e_type = mem_half m (a + 16), e_machine = mem_half m (a + 18),
    e_version = mem_word m (a + 20), e_entry = mem_word m (a + 24), e_phoff = mem_word m (a + 28),
    e_shoff = mem_word m (a + 32), e_flags = mem_word m (a + 36), e_ehsize = mem_half m (a + 40),
    e_phentsize = mem_half m (a + 42), e_phnum = mem_half m (a + 44), e_shentsize = mem_half m (a + 46),
    e_shnum = mem_half m (a + 48), e_shstrndx = mem_half m (a + 50)\<rparr>"

definition read_phdr :: "memory \<Rightarrow> addr \<Rightarrow> Elf32_Phdr" where
  "read_phdr m a = \<lparr>p_type = mem_word m a, p_offset = mem_word m (a + 4), p_vaddr = mem_word m (a + 8),
    p_paddr = mem_word m (a + 12), p_filesz = mem_word m (a + 16), p_memsz = mem_word m (a + 20),
    p_flags = mem_word m (a + 24), p_align = mem_word m (a + 28)\<rparr>"

section \<open>Operations\<close>

partial_function (option) copy_segment :: "addr \<Rightarrow> uint32_t \<Rightarrow> addr \<Rightarrow> addr \<Rightarrow> memory \<Rightarrow> (addr \<times> memory) option" where
  "copy_segment phdr j dest src m =
    (if j < p_filesz (read_phdr m phdr)
     then copy_segment phdr (j + 1) (dest + 1) (src + 1) (m(dest := m src))
     else Some (dest, m))"

primrec fill_zero :: "nat \<Rightarrow> addr \<Rightarrow> memory \<Rightarrow> memory" where
  "fill_zero 0 dest m = m"
| "fill_zero (Suc k) dest m = fill_zero k (dest + 1) (m(dest := 0))"

definition load_segment :: "addr \<Rightarrow> addr \<Rightarrow> memory \<Rightarrow> memory option" where
  "load_segment file_buffer phdr m =
    (if p_type (read_phdr m phdr) \<noteq> PT_LOAD then Some m
     else
       let src = file_buffer + p_offset (read_phdr m phdr);
           dest = p_paddr (read_phdr m phdr)
       in Option.bind (copy_segment phdr 0 dest src m) (\<lambda>(dest1, m1).
            let fill_bytes = p_memsz (read_phdr m1 phdr) - p_filesz (read_phdr m1 phdr)
            in Some (fill_zero (unat fill_bytes) dest1 m1)))"

partial_function (option) load_segments :: "addr \<Rightarrow> addr \<Rightarrow> cint \<Rightarrow> memory \<Rightarrow> memory option" where
  "load_segments file_buffer phdr_start i m =
    (if sint i < int (unat (e_phnum (read_ehdr m file_buffer)))
     then Option.bind (load_segment file_buffer (phdr_start + i * SIZEOF_Elf32_Phdr) m)
            (load_segments file_buffer phdr_start (i + 1))
     else Some m)"

definition reload_elf_file :: "addr \<Rightarrow> memory \<Rightarrow> (uint32_t \<times> memory) option" where
  "reload_elf_file file_buffer m =
    (let elf_hdr = read_ehdr m file_buffer
     in if e_ident elf_hdr ! 0 \<noteq> ELF_MAGIC0 \<or> e_ident elf_hdr ! 1 \<noteq> ELF_MAGIC1 \<or>
          e_ident elf_hdr ! 2 \<noteq> ELF_MAGIC2 \<or> e_ident elf_hdr ! 3 \<noteq> ELF_MAGIC3
        then Some (0, m)
        else
          let phdr_start = file_buffer + e_phoff elf_hdr
          in Option.bind (load_segments file_buffer phdr_start 0 m) (\<lambda>m1.
               Some (e_entry (read_ehdr m1 file_buffer), m1)))"

section \<open>Headers that are not overwritten\<close>

definition agree :: "addr set \<Rightarrow> memory \<Rightarrow> memory \<Rightarrow> bool" where
  "agree A m m' \<longleftrightarrow> (\<forall>x\<in>A. m' x = m x)"

lemma in_region: "k < n \<Longrightarrow> a + of_nat k \<in> region a n"
  by (auto simp: region_eq)

lemma mem_word_agree:
  assumes "agree (region a n) m m'" and "k + 4 \<le> n"
  shows "mem_word m' (a + of_nat k) = mem_word m (a + of_nat k)"
proof -
  have "m' (a + of_nat (k + i)) = m (a + of_nat (k + i))" if "i < 4" for i
    using assms that in_region [of "k + i" n a] by (auto simp: agree_def)
  from this [of 0] this [of 1] this [of 2] this [of 3] show ?thesis by (simp add: mem_word_def ac_simps)
qed

lemma mem_half_agree:
  assumes "agree (region a n) m m'" and "k + 2 \<le> n"
  shows "mem_half m' (a + of_nat k) = mem_half m (a + of_nat k)"
proof -
  have "m' (a + of_nat (k + i)) = m (a + of_nat (k + i))" if "i < 2" for i
    using assms that in_region [of "k + i" n a] by (auto simp: agree_def)
  from this [of 0] this [of 1] show ?thesis by (simp add: mem_half_def ac_simps)
qed

lemma read_phdr_agree:
  assumes "agree (region a 32) m m'"
  shows "read_phdr m' a = read_phdr m a"
proof -
  note w = mem_word_agree [OF assms]
  show ?thesis
    using w [of 0] w [of 4] w [of 8] w [of 12] w [of 16] w [of 20] w [of 24] w [of 28]
    by (simp add: read_phdr_def)
qed

lemma read_ehdr_agree:
  assumes "agree (region a 52) m m'"
  shows "read_ehdr m' a = read_ehdr m a"
proof -
  note w = mem_word_agree [OF assms] and h = mem_half_agree [OF assms]
  have "region a 16 \<subseteq> region a 52" by (auto simp: region_eq)
  then have "bytes m' a 16 = bytes m a 16" using assms by (intro bytes_cong) (auto simp: agree_def simp del: region.simps)
  then show ?thesis
    using w [of 20] w [of 24] w [of 28] w [of 32] w [of 36] h [of 16] h [of 18] h [of 40] h [of 42] h [of 44]
      h [of 46] h [of 48] h [of 50]
    by (simp add: read_ehdr_def)
qed

section \<open>Loading one segment\<close>

lemma fill_zero_eq: "fill_zero k d m = (\<lambda>x. if x \<in> region d k then 0 else m x)"
  by (induction k arbitrary: d m) auto

lemma copy_segment_eq:
  assumes "k = unat (p_filesz (read_phdr m phdr)) - unat j" and "unat j \<le> unat (p_filesz (read_phdr m phdr))"
    and "region dest k \<inter> region phdr 32 = {}"
  shows "copy_segment phdr j dest src m = Some (dest + of_nat k, memcpy_loop k dest src m)"
  using assms
proof (induction k arbitrary: j dest src m)
  case 0
  then have "\<not> j < p_filesz (read_phdr m phdr)" by (simp add: word_less_nat_alt)
  then show ?case by (subst copy_segment.simps) simp
next
  case (Suc k)
  let ?sz = "p_filesz (read_phdr m phdr)"
  define m1 where "m1 = m(dest := m src)"
  have lt: "j < ?sz" using Suc.prems(1) by (simp add: word_less_nat_alt)
  have "unat j + 1 < 2 ^ 32" using lt unat_below [of ?sz] by (simp add: word_less_nat_alt)
  then have j: "unat (j + 1) = unat j + 1" by (simp add: unat_word_ariths)
  have "dest \<notin> region phdr 32" using Suc.prems(3) by auto
  then have r: "read_phdr m1 phdr = read_phdr m phdr"
    by (intro read_phdr_agree) (auto simp: agree_def m1_def simp del: region.simps)
  have "copy_segment phdr (j + 1) (dest + 1) (src + 1) m1 = Some (dest + 1 + of_nat k, memcpy_loop k (dest + 1) (src + 1) m1)"
  proof (rule Suc.IH)
    show "region (dest + 1) k \<inter> region phdr 32 = {}" using Suc.prems(3) by auto
  qed (use Suc.prems(1,2) j r in auto)
  then show ?case using lt by (subst copy_segment.simps) (simp add: m1_def add.assoc)
qed

text \<open>What a loaded segment looks like, and the memory it occupies.\<close>

definition footprint :: "Elf32_Phdr \<Rightarrow> addr set" where
  "footprint ph = (if p_type ph = PT_LOAD then region (p_paddr ph) (unat (p_memsz ph)) else {})"

definition seg_loaded :: "memory \<Rightarrow> addr \<Rightarrow> Elf32_Phdr \<Rightarrow> memory \<Rightarrow> bool" where
  "seg_loaded m buf ph m' \<longleftrightarrow> p_type ph = PT_LOAD \<longrightarrow>
     bytes m' (p_paddr ph) (unat (p_filesz ph)) = bytes m (buf + p_offset ph) (unat (p_filesz ph)) \<and>
     (\<forall>i. unat (p_filesz ph) \<le> i \<and> i < unat (p_memsz ph) \<longrightarrow> m' (p_paddr ph + of_nat i) = 0)"

text \<open>A segment that lies in the file, fits its memory and leaves the file image alone.\<close>

definition seg_ok :: "addr \<Rightarrow> nat \<Rightarrow> Elf32_Phdr \<Rightarrow> bool" where
  "seg_ok buf n ph \<longleftrightarrow> p_type ph = PT_LOAD \<longrightarrow> unat (p_offset ph) + unat (p_filesz ph) \<le> n \<and>
     unat (p_filesz ph) \<le> unat (p_memsz ph) \<and> footprint ph \<inter> region buf n = {}"

lemma region_sub: "k + l \<le> n \<Longrightarrow> region (a + of_nat k) l \<subseteq> region a n"
proof
  fix x assume "k + l \<le> n" "x \<in> region (a + of_nat k) l"
  then obtain i where "i < l" "x = a + of_nat (k + i)" by (auto simp: region_eq add.assoc)
  then show "x \<in> region a n" using in_region [of "k + i" n a] \<open>k + l \<le> n\<close> by simp
qed

lemma load_segment_loads:
  assumes ok: "seg_ok buf n ph" and ph: "ph = read_phdr m phdr" and inside: "region phdr 32 \<subseteq> region buf n"
  shows "\<exists>m'. load_segment buf phdr m = Some m' \<and> seg_loaded m buf ph m' \<and> (\<forall>x. x \<notin> footprint ph \<longrightarrow> m' x = m x)"
proof (cases "p_type ph = PT_LOAD")
  case False
  then show ?thesis using ph by (simp add: load_segment_def seg_loaded_def)
next
  case True
  let ?k = "unat (p_filesz ph)" and ?l = "unat (p_memsz ph)" and ?d = "p_paddr ph" and ?s = "buf + p_offset ph"
  have sz: "unat (p_offset ph) + ?k \<le> n" "?k \<le> ?l" "region ?d ?l \<inter> region buf n = {}" "?k < 2 ^ 32"
    using ok True unat_below [of "p_filesz ph"] by (auto simp: seg_ok_def footprint_def simp del: region.simps)
  have sub: "region ?d ?k \<subseteq> region ?d ?l" using sz(2) region_sub [of 0 ?k ?l ?d] by simp
  have "region ?s ?k \<subseteq> region buf n" using region_sub [OF sz(1), of buf] by simp
  then have dj: "region ?d ?k \<inter> region ?s ?k = {}" "region ?d ?k \<inter> region phdr 32 = {}"
    using sz(3) sub inside by blast+
  define m1 where "m1 = memcpy_loop ?k ?d ?s m"
  have c: "copy_segment phdr 0 ?d ?s m = Some (?d + of_nat ?k, m1)"
    unfolding m1_def by (rule copy_segment_eq) (use ph dj(2) in simp_all)
  have m1: "bytes m1 ?d ?k = bytes m ?s ?k" "x \<notin> region ?d ?k \<Longrightarrow> m1 x = m x" for x
    using memcpy_loop_bytes [OF dj(1) sz(4), of m] by (auto simp: m1_def)
  have "agree (region phdr 32) m m1" using m1(2) dj(2) by (auto simp: agree_def simp del: region.simps)
  then have r: "read_phdr m1 phdr = ph" using ph read_phdr_agree by simp
  define m2 where "m2 = fill_zero (?l - ?k) (?d + of_nat ?k) m1"
  have m2: "m2 = (\<lambda>x. if x \<in> region (?d + of_nat ?k) (?l - ?k) then 0 else m1 x)" by (simp add: m2_def fill_zero_eq)
  have "unat (p_memsz ph - p_filesz ph) = ?l - ?k" using sz(2) by (simp add: unat_sub word_le_nat_alt)
  then have ld: "load_segment buf phdr m = Some m2"
    using True ph c r by (simp add: load_segment_def m2_def Let_def)
  have apart: "region ?d ?k \<inter> region (?d + of_nat ?k) (?l - ?k) = {}"
  proof -
    have "(of_nat i :: addr) \<noteq> of_nat (?k + j)" if "i < ?k" "j < ?l - ?k" for i j
      using that sz unat_below [of "p_memsz ph"] by (subst of_nat_addr_inj) auto
    then show ?thesis by (auto simp: region_eq add.assoc)
  qed
  have "bytes m2 ?d ?k = bytes m1 ?d ?k" using apart by (intro bytes_cong) (auto simp: m2 simp del: region.simps)
  moreover have "m2 (?d + of_nat i) = 0" if "?k \<le> i" "i < ?l" for i
  proof -
    have "?d + of_nat i = ?d + of_nat ?k + of_nat (i - ?k)" using that(1) by (simp add: add.assoc flip: of_nat_add)
    then show ?thesis using that in_region [of "i - ?k" "?l - ?k" "?d + of_nat ?k"] by (simp add: m2 del: region.simps)
  qed
  moreover have "m2 x = m x" if "x \<notin> footprint ph" for x
    using that m1(2) [of x] sub True region_sub [of ?k "?l - ?k" ?l ?d] sz(2)
    by (auto simp: m2 footprint_def simp del: region.simps)
  ultimately show ?thesis using ld m1(1) by (auto simp: seg_loaded_def)
qed

section \<open>Loading the file\<close>

definition phdrs :: "memory \<Rightarrow> addr \<Rightarrow> Elf32_Phdr list" where
  "phdrs m buf = map (\<lambda>i. read_phdr m (buf + e_phoff (read_ehdr m buf) + of_nat (32 * i)))
     [0..<unat (e_phnum (read_ehdr m buf))]"

fun apart :: "Elf32_Phdr list \<Rightarrow> bool" where
  "apart [] = True"
| "apart (ph # phs) = ((\<forall>q\<in>set phs. footprint ph \<inter> footprint q = {}) \<and> apart phs)"

text \<open>A file image of \<open>n\<close> bytes that can be loaded: the headers lie inside it, every segment to load
  is in the file, fits its memory and does not touch the image, and no two overlap.\<close>

definition elf_image :: "memory \<Rightarrow> addr \<Rightarrow> nat \<Rightarrow> bool" where
  "elf_image m buf n \<longleftrightarrow> take 4 (bytes m buf 16) = [0x7F, 0x45, 0x4c, 0x46] \<and> 52 \<le> n \<and>
     unat (e_phoff (read_ehdr m buf)) + 32 * unat (e_phnum (read_ehdr m buf)) \<le> n \<and>
     (\<forall>ph\<in>set (phdrs m buf). seg_ok buf n ph) \<and> apart (phdrs m buf)"

lemma seg_loaded_keep:
  assumes "seg_loaded m buf ph m1" and "\<And>x. x \<in> footprint ph \<Longrightarrow> m2 x = m1 x" and "seg_ok buf n ph"
  shows "seg_loaded m buf ph m2"
proof (cases "p_type ph = PT_LOAD")
  case True
  let ?r = "region (p_paddr ph) (unat (p_memsz ph))"
  have r: "\<And>x. x \<in> ?r \<Longrightarrow> m2 x = m1 x" using assms(2) True by (simp add: footprint_def)
  have "region (p_paddr ph) (unat (p_filesz ph)) \<subseteq> ?r"
    using assms(3) True region_sub [of 0 "unat (p_filesz ph)" "unat (p_memsz ph)" "p_paddr ph"] by (simp add: seg_ok_def)
  then have "bytes m2 (p_paddr ph) (unat (p_filesz ph)) = bytes m1 (p_paddr ph) (unat (p_filesz ph))"
    using r by (intro bytes_cong) blast
  then show ?thesis using assms(1) True r in_region by (simp add: seg_loaded_def)
qed (simp add: seg_loaded_def)

lemma seg_loaded_file:
  assumes "seg_loaded m1 buf ph m2" and "agree (region buf n) m m1" and "seg_ok buf n ph"
  shows "seg_loaded m buf ph m2"
proof (cases "p_type ph = PT_LOAD")
  case True
  have "region (buf + p_offset ph) (unat (p_filesz ph)) \<subseteq> region buf n"
    using assms(3) True region_sub [of "unat (p_offset ph)" "unat (p_filesz ph)" n buf] by (simp add: seg_ok_def)
  then have "bytes m1 (buf + p_offset ph) (unat (p_filesz ph)) = bytes m (buf + p_offset ph) (unat (p_filesz ph))"
    using assms(2) by (intro bytes_cong) (auto simp: agree_def simp del: region.simps)
  then show ?thesis using assms(1) by (simp add: seg_loaded_def)
qed (simp add: seg_loaded_def)

lemma apart_drop: "apart phs \<Longrightarrow> apart (drop i phs)"
proof (induction phs arbitrary: i)
  case (Cons ph phs)
  then show ?case by (cases i) auto
qed simp

lemma sint_of_index: "i < 2 ^ 16 \<Longrightarrow> sint (of_nat i :: cint) = int i"
  by (subst sint_small) (simp_all add: unat_of_nat)

lemma phnum_bound: "unat (e_phnum (read_ehdr m buf)) < 2 ^ 16"
  using unsigned_less [of "e_phnum (read_ehdr m buf)", where ?'a = nat] by simp

lemma load_segments_loads:
  assumes im: "elf_image m buf n" and i: "i + k = unat (e_phnum (read_ehdr m buf))" and ag: "agree (region buf n) m m1"
    and st: "start = buf + e_phoff (read_ehdr m buf)"
  shows "\<exists>m'. load_segments buf start (of_nat i) m1 = Some m' \<and> agree (region buf n) m m' \<and>
    (\<forall>ph\<in>set (drop i (phdrs m buf)). seg_loaded m buf ph m') \<and>
    (\<forall>x. x \<notin> \<Union> (footprint ` set (drop i (phdrs m buf))) \<longrightarrow> m' x = m1 x)"
  using i ag
proof (induction k arbitrary: i m1)
  case 0
  note num = "0.prems"(1)
  have e: "read_ehdr m1 buf = read_ehdr m buf"
    using "0.prems"(2) im region_sub [of 0 52 n buf] by (intro read_ehdr_agree) (auto simp: agree_def elf_image_def simp del: region.simps)
  have "sint (of_nat i :: cint) = int i" using num phnum_bound [of m buf] by (intro sint_of_index) simp
  then have "load_segments buf start (of_nat i) m1 = Some m1" using num e by (subst load_segments.simps) simp
  moreover have "drop i (phdrs m buf) = []" using num by (simp add: phdrs_def)
  ultimately show ?case using "0.prems"(2) by simp
next
  case (Suc k)
  let ?h = "read_ehdr m buf" and ?P = "phdrs m buf"
  define ph where "ph = ?P ! i"
  have il: "i < length ?P" using Suc.prems(1) by (simp add: phdrs_def)
  then have d: "drop i ?P = ph # drop (Suc i) ?P" by (simp add: ph_def Cons_nth_drop_Suc)
  have e: "read_ehdr m1 buf = ?h"
    using Suc.prems(2) im region_sub [of 0 52 n buf] by (intro read_ehdr_agree) (auto simp: agree_def elf_image_def simp del: region.simps)
  have si: "sint (of_nat i :: cint) = int i" using Suc.prems(1) phnum_bound [of m buf] by (intro sint_of_index) simp
  let ?a = "start + of_nat i * SIZEOF_Elf32_Phdr"
  have a: "?a = buf + of_nat (unat (e_phoff ?h) + 32 * i)" by (simp add: st SIZEOF_Elf32_Phdr_def add.assoc)
  have inside: "region ?a 32 \<subseteq> region buf n"
    unfolding a using im il by (intro region_sub) (simp add: elf_image_def phdrs_def)
  have "ph = read_phdr m ?a" using il by (simp add: ph_def phdrs_def st SIZEOF_Elf32_Phdr_def mult.commute)
  also have "\<dots> = read_phdr m1 ?a"
    using Suc.prems(2) inside by (intro read_phdr_agree [symmetric]) (auto simp: agree_def simp del: region.simps)
  finally have ph: "ph = read_phdr m1 ?a" .
  have ok: "seg_ok buf n ph" using im il by (simp add: elf_image_def ph_def)
  obtain m2 where m2: "load_segment buf ?a m1 = Some m2" "seg_loaded m1 buf ph m2" "\<And>x. x \<notin> footprint ph \<Longrightarrow> m2 x = m1 x"
    using load_segment_loads [OF ok ph inside] by blast
  have "footprint ph \<inter> region buf n = {}" using ok by (auto simp: seg_ok_def footprint_def split: if_splits)
  then have ag2: "agree (region buf n) m m2"
    using Suc.prems(2) m2(3) unfolding agree_def by (metis disjoint_iff)
  have "Suc i + k = unat (e_phnum ?h)" using Suc.prems(1) by simp
  from Suc.IH [OF this ag2] obtain m' where m': "load_segments buf start (of_nat (Suc i)) m2 = Some m'"
    "agree (region buf n) m m'" "\<forall>q\<in>set (drop (Suc i) ?P). seg_loaded m buf q m'"
    "\<And>x. x \<notin> \<Union> (footprint ` set (drop (Suc i) ?P)) \<Longrightarrow> m' x = m2 x" by blast
  have "int i < int (unat (e_phnum ?h))" using Suc.prems(1) by linarith
  then have "load_segments buf start (of_nat i) m1 = Some m'"
    using e si m2(1) m'(1) by (subst load_segments.simps) (simp add: add.commute)
  moreover have "apart (drop i ?P)" using im apart_drop by (simp add: elf_image_def)
  then have "seg_loaded m buf ph m'"
    using m'(4) by (intro seg_loaded_keep [OF seg_loaded_file [OF m2(2) Suc.prems(2) ok] _ ok]) (auto simp: d)
  ultimately show ?case using m' m2(3) by (auto simp: d)
qed

lemma magic_test:
  "(e_ident (read_ehdr m buf) ! 0 \<noteq> ELF_MAGIC0 \<or> e_ident (read_ehdr m buf) ! 1 \<noteq> ELF_MAGIC1 \<or>
    e_ident (read_ehdr m buf) ! 2 \<noteq> ELF_MAGIC2 \<or> e_ident (read_ehdr m buf) ! 3 \<noteq> ELF_MAGIC3) \<longleftrightarrow>
   take 4 (bytes m buf 16) \<noteq> [0x7F, 0x45, 0x4c, 0x46]"
  by (simp add: read_ehdr_def ELF_MAGIC0_def ELF_MAGIC1_def ELF_MAGIC2_def ELF_MAGIC3_def numeral_eq_Suc)

lemma reload_elf_file_loads:
  assumes "elf_image m buf n"
  shows "\<exists>m'. reload_elf_file buf m = Some (e_entry (read_ehdr m buf), m') \<and>
    (\<forall>ph\<in>set (phdrs m buf). seg_loaded m buf ph m') \<and>
    (\<forall>x. x \<notin> \<Union> (footprint ` set (phdrs m buf)) \<longrightarrow> m' x = m x)"
proof -
  let ?h = "read_ehdr m buf"
  have "\<exists>m'. load_segments buf (buf + e_phoff ?h) (of_nat 0) m = Some m' \<and> agree (region buf n) m m' \<and>
    (\<forall>ph\<in>set (drop 0 (phdrs m buf)). seg_loaded m buf ph m') \<and>
    (\<forall>x. x \<notin> \<Union> (footprint ` set (drop 0 (phdrs m buf))) \<longrightarrow> m' x = m x)"
    by (rule load_segments_loads [OF assms, of _ "unat (e_phnum ?h)"]) (simp_all add: agree_def)
  then obtain m' where m': "load_segments buf (buf + e_phoff ?h) 0 m = Some m'" "agree (region buf n) m m'"
    "\<forall>ph\<in>set (phdrs m buf). seg_loaded m buf ph m'"
    "\<forall>x. x \<notin> \<Union> (footprint ` set (phdrs m buf)) \<longrightarrow> m' x = m x" by auto
  have "52 \<le> n" "take 4 (bytes m buf 16) = [0x7F, 0x45, 0x4c, 0x46]" using assms by (simp_all add: elf_image_def)
  moreover from this(1) have "read_ehdr m' buf = ?h"
    using m'(2) region_sub [of 0 52 n buf] by (intro read_ehdr_agree) (auto simp: agree_def simp del: region.simps)
  moreover have "\<not> (e_ident ?h ! 0 \<noteq> ELF_MAGIC0 \<or> e_ident ?h ! 1 \<noteq> ELF_MAGIC1 \<or>
      e_ident ?h ! 2 \<noteq> ELF_MAGIC2 \<or> e_ident ?h ! 3 \<noteq> ELF_MAGIC3)"
    using magic_test [of m buf] calculation(2) by blast
  ultimately have "reload_elf_file buf m = Some (e_entry ?h, m')"
    using m'(1) by (simp only: reload_elf_file_def Let_def if_False bind.bind_lunit)
  then show ?thesis using m' by blast
qed

lemma reload_elf_rejects:
  assumes "take 4 (bytes m buf 16) \<noteq> [0x7F, 0x45, 0x4c, 0x46]"
  shows "reload_elf_file buf m = Some (0, m)"
  using assms magic_test [of m buf] unfolding reload_elf_file_def Let_def by presburger

section \<open>Properties\<close>

text \<open>C19. Loading an ELF file. \<^verbatim>\<open>reload_elf_file\<close> returns 0 and writes nothing when the magic number is
  wrong. For a file image whose headers and segments lie inside it and whose segments overlap neither
  the image nor each other, it returns the entry point; every loadable segment then holds its bytes of
  the file followed by zeros up to its size in memory, and no other byte of memory has changed.\<close>

theorem reload_elf_file_correct:
  "(take 4 (bytes m buf 16) \<noteq> [0x7F, 0x45, 0x4c, 0x46] \<longrightarrow> reload_elf_file buf m = Some (0, m)) \<and>
   (elf_image m buf n \<longrightarrow> (\<exists>m'. reload_elf_file buf m = Some (e_entry (read_ehdr m buf), m') \<and>
      (\<forall>ph\<in>set (phdrs m buf). seg_loaded m buf ph m') \<and>
      (\<forall>x. x \<notin> \<Union> (footprint ` set (phdrs m buf)) \<longrightarrow> m' x = m x)))"
  using reload_elf_file_loads [of m buf n] reload_elf_rejects [of m buf] by blast

text \<open>A file with one segment of three bytes, loaded at 64 KB with two bytes of zeros after it.\<close>

definition sample_elf :: "uint8_t list" where
  "sample_elf = [0x7F, 0x45, 0x4c, 0x46, 1, 1, 1, 0, 0, 0, 0, 0, 0, 0, 0, 0, 2, 0, 3, 0, 1, 0, 0, 0,
     0, 0, 1, 0, 52, 0, 0, 0, 0, 0, 0, 0, 0, 0, 0, 0, 52, 0, 32, 0, 1, 0, 0, 0, 0, 0, 0, 0,
     1, 0, 0, 0, 84, 0, 0, 0, 0, 0, 1, 0, 0, 0, 1, 0, 3, 0, 0, 0, 5, 0, 0, 0, 5, 0, 0, 0, 0, 16, 0, 0,
     0xB8, 0x01, 0xC3]"

definition sample_elf_mem :: memory where
  "sample_elf_mem a = (if unat (a - 0x100000) < 87 then sample_elf ! unat (a - 0x100000) else 0xCC)"

lemma bytes_numeral: "bytes m a (numeral k) = m a # bytes m (a + 1) (pred_numeral k)"
  by (simp add: numeral_eq_Suc)

lemma region_numeral: "region a (numeral k) = insert a (region (a + 1) (pred_numeral k))"
  by (simp add: numeral_eq_Suc)

lemma sample_elf_headers:
  "e_phnum (read_ehdr sample_elf_mem 0x100000) = 1" "e_phoff (read_ehdr sample_elf_mem 0x100000) = 52"
  "e_entry (read_ehdr sample_elf_mem 0x100000) = 0x10000"
  "read_phdr sample_elf_mem 0x100034 = \<lparr>p_type = 1, p_offset = 84, p_vaddr = 0x10000, p_paddr = 0x10000,
     p_filesz = 3, p_memsz = 5, p_flags = 5, p_align = 0x1000\<rparr>"
  by (simp_all add: read_ehdr_def read_phdr_def mem_word_def mem_half_def sample_elf_mem_def sample_elf_def)

lemma sample_elf_image: "elf_image sample_elf_mem 0x100000 87" "phdrs sample_elf_mem 0x100000 =
  [\<lparr>p_type = 1, p_offset = 84, p_vaddr = 0x10000, p_paddr = 0x10000, p_filesz = 3, p_memsz = 5, p_flags = 5, p_align = 0x1000\<rparr>]"
proof -
  show ph: "phdrs sample_elf_mem 0x100000 =
    [\<lparr>p_type = 1, p_offset = 84, p_vaddr = 0x10000, p_paddr = 0x10000, p_filesz = 3, p_memsz = 5, p_flags = 5, p_align = 0x1000\<rparr>]"
    by (simp add: phdrs_def sample_elf_headers)
  have "take 4 (bytes sample_elf_mem 0x100000 16) = [0x7F, 0x45, 0x4c, 0x46]"
    by (simp add: bytes_numeral sample_elf_mem_def sample_elf_def)
  moreover have "region 0x10000 5 \<inter> region 0x100000 87 = {}" by (rule region_apart) simp
  ultimately show "elf_image sample_elf_mem 0x100000 87"
    unfolding elf_image_def ph by (simp add: sample_elf_headers seg_ok_def footprint_def PT_LOAD_def del: region.simps)
qed

theorem reload_elf_file_correct_witness:
  "\<exists>m'. reload_elf_file 0x100000 sample_elf_mem = Some (0x10000, m') \<and> m' 0x10000 = 0xB8 \<and> m' 0x10003 = 0 \<and> m' 0x10005 = 0xCC"
proof -
  let ?ph = "\<lparr>p_type = 1, p_offset = 84, p_vaddr = 0x10000, p_paddr = 0x10000, p_filesz = 3, p_memsz = 5, p_flags = 5, p_align = 0x1000\<rparr>"
  from reload_elf_file_correct [of sample_elf_mem "0x100000" 87] obtain m' where
    m': "reload_elf_file 0x100000 sample_elf_mem = Some (0x10000, m')" "seg_loaded sample_elf_mem 0x100000 ?ph m'"
    "0x10005 \<notin> footprint ?ph \<longrightarrow> m' 0x10005 = sample_elf_mem 0x10005"
    using sample_elf_image sample_elf_headers(3) by auto
  have "bytes m' 0x10000 3 = bytes sample_elf_mem 0x100054 3" "m' (0x10000 + of_nat 3) = 0"
    using m'(2) by (simp_all add: seg_loaded_def PT_LOAD_def del: of_nat_numeral)
  moreover have "0x10005 \<notin> footprint ?ph" by (simp add: footprint_def region_numeral)
  ultimately show ?thesis using m' by (simp add: bytes_numeral sample_elf_mem_def sample_elf_def)
qed

end
