(* ===== verification/Disk.thy ===== *)
theory Disk
  imports Elf
begin

text \<open>
  Reading the kernel image from disk: \<^verbatim>\<open>read_disk\<close> and \<^verbatim>\<open>load_kernel\<close> of
  \<^verbatim>\<open>src/source/loader/loader32.c\<close>. The state of the loader is the memory and the history of port
  accesses; the devices behind the ports are parameters that answer from that history. What the code
  relies on of the drive is \<open>disk_ok\<close>, the behaviour of an ATA drive for \<^verbatim>\<open>READ SECTORS EXT\<close>.
\<close>

section \<open>The loader's machine\<close>

datatype pc_event = POut uint16_t uint8_t | PIn uint16_t | PInw uint16_t

record pc =
  l_mem :: memory
  l_io :: "pc_event list"
  l_inb :: "pc_event list \<Rightarrow> uint16_t \<Rightarrow> uint8_t"
  l_inw :: "pc_event list \<Rightarrow> uint16_t \<Rightarrow> uint16_t"

definition pc_outb :: "uint16_t \<Rightarrow> uint8_t \<Rightarrow> 'a pc_scheme \<Rightarrow> 'a pc_scheme" where
  "pc_outb port v s = s\<lparr>l_io := l_io s @ [POut port v]\<rparr>"

definition pc_inb :: "uint16_t \<Rightarrow> 'a pc_scheme \<Rightarrow> uint8_t \<times> 'a pc_scheme" where
  "pc_inb port s = (l_inb s (l_io s) port, s\<lparr>l_io := l_io s @ [PIn port]\<rparr>)"

definition inw :: "uint16_t \<Rightarrow> pc \<Rightarrow> uint16_t \<times> pc" where
  "inw port s = (l_inw s (l_io s) port, s\<lparr>l_io := l_io s @ [PInw port]\<rparr>)"

section \<open>Operations\<close>

definition SECTOR_SIZE :: nat where "SECTOR_SIZE = 512"
definition KERNEL_BEGIN_SECTOR :: uint32_t where "KERNEL_BEGIN_SECTOR = 65"
definition KERNEL_MAX_SECTORS_IN_SIZE :: uint32_t where "KERNEL_MAX_SECTORS_IN_SIZE = 500"
definition SYS_KERNEL_LOAD_ADDR :: addr where "SYS_KERNEL_LOAD_ADDR = 1024 * 1024"

definition disk_command :: "uint32_t \<Rightarrow> uint32_t \<Rightarrow> pc \<Rightarrow> pc" where
  "disk_command sector sector_count s =
    (let s1 = pc_outb 0x1F6 0xE0 s;
         s2 = pc_outb 0x1F2 (ucast (drop_bit 8 sector_count)) s1;
         s3 = pc_outb 0x1F3 (ucast (drop_bit 24 sector)) s2;
         s4 = pc_outb 0x1F4 0 s3;
         s5 = pc_outb 0x1F5 0 s4;
         s6 = pc_outb 0x1F2 (ucast sector_count) s5;
         s7 = pc_outb 0x1F3 (ucast sector) s6;
         s8 = pc_outb 0x1F4 (ucast (drop_bit 8 sector)) s7;
         s9 = pc_outb 0x1F5 (ucast (drop_bit 16 sector)) s8
     in pc_outb 0x1F7 0x24 s9)"

partial_function (option) disk_wait :: "pc \<Rightarrow> pc option" where
  "disk_wait s = (let (v, s1) = pc_inb 0x1F7 s in if v AND 0x88 \<noteq> 0x8 then disk_wait s1 else Some s1)"

primrec read_words :: "nat \<Rightarrow> addr \<Rightarrow> pc \<Rightarrow> addr \<times> pc" where
  "read_words 0 databuf s = (databuf, s)"
| "read_words (Suc k) databuf s =
     (let (v, s1) = inw 0x1F0 s;
          m = (l_mem s1)(databuf := ucast v, databuf + 1 := ucast (drop_bit 8 v))
      in read_words k (databuf + 2) (s1\<lparr>l_mem := m\<rparr>))"

primrec read_sectors :: "nat \<Rightarrow> addr \<Rightarrow> pc \<Rightarrow> pc option" where
  "read_sectors 0 databuf s = Some s"
| "read_sectors (Suc n) databuf s =
     Option.bind (disk_wait s) (\<lambda>s1.
       let (databuf1, s2) = read_words (SECTOR_SIZE div 2) databuf s1
       in read_sectors n databuf1 s2)"

definition read_disk :: "uint32_t \<Rightarrow> uint32_t \<Rightarrow> addr \<Rightarrow> pc \<Rightarrow> pc option" where
  "read_disk sector sector_count buf s =
    read_sectors (unat sector_count) buf (disk_command sector sector_count s)"

text \<open>The kernel is entered by a call of its entry point with the address of \<^verbatim>\<open>boot_info\<close>: both are the result here,
  with the machine at that moment. A bad image stops the machine in an endless loop.\<close>

definition load_kernel :: "addr \<Rightarrow> pc \<Rightarrow> (uint32_t \<times> addr \<times> pc) option" where
  "load_kernel boot_info s =
    Option.bind (read_disk KERNEL_BEGIN_SECTOR KERNEL_MAX_SECTORS_IN_SIZE SYS_KERNEL_LOAD_ADDR s) (\<lambda>s1.
    Option.bind (reload_elf_file SYS_KERNEL_LOAD_ADDR (l_mem s1)) (\<lambda>(kernel_entry, m).
      if kernel_entry = 0 then None else Some (kernel_entry, boot_info, s1\<lparr>l_mem := m\<rparr>)))"

section \<open>The drive\<close>

text \<open>The registers of the drive: each address register and the count keep their last two bytes; the
  read command starts a transfer, every word read from the data port advances it.\<close>

record ata =
  r_count :: "nat \<times> nat"
  r_lba0 :: "nat \<times> nat"
  r_lba1 :: "nat \<times> nat"
  r_lba2 :: "nat \<times> nat"
  cmd_lba :: nat
  cmd_count :: nat
  words_read :: nat

definition ata_reset :: ata where
  "ata_reset = \<lparr>r_count = (0, 0), r_lba0 = (0, 0), r_lba1 = (0, 0), r_lba2 = (0, 0), cmd_lba = 0, cmd_count = 0, words_read = 0\<rparr>"

definition ata_event :: "pc_event \<Rightarrow> ata \<Rightarrow> ata" where
  "ata_event e a = (case e of
      POut p v \<Rightarrow>
        (if p = 0x1F2 then a\<lparr>r_count := (snd (r_count a), unat v)\<rparr>
         else if p = 0x1F3 then a\<lparr>r_lba0 := (snd (r_lba0 a), unat v)\<rparr>
         else if p = 0x1F4 then a\<lparr>r_lba1 := (snd (r_lba1 a), unat v)\<rparr>
         else if p = 0x1F5 then a\<lparr>r_lba2 := (snd (r_lba2 a), unat v)\<rparr>
         else if p = 0x1F7 \<and> v = 0x24 then a\<lparr>words_read := 0,
           cmd_count := snd (r_count a) + 2 ^ 8 * fst (r_count a),
           cmd_lba := snd (r_lba0 a) + 2 ^ 8 * snd (r_lba1 a) + 2 ^ 16 * snd (r_lba2 a)
             + 2 ^ 24 * fst (r_lba0 a) + 2 ^ 32 * fst (r_lba1 a) + 2 ^ 40 * fst (r_lba2 a)\<rparr>
         else a)
    | PIn p \<Rightarrow> a
    | PInw p \<Rightarrow> (if p = 0x1F0 then a\<lparr>words_read := words_read a + 1\<rparr> else a))"

definition ata_after :: "pc_event list \<Rightarrow> ata" where
  "ata_after h = fold ata_event h ata_reset"

text \<open>While a transfer is under way, the status port reports data after finitely many reads and the data
  port delivers the next word of the sectors asked for.\<close>

definition disk_ok :: "(nat \<Rightarrow> uint16_t) \<Rightarrow> pc \<Rightarrow> bool" where
  "disk_ok disk s \<longleftrightarrow> (\<forall>h. words_read (ata_after h) < 256 * cmd_count (ata_after h) \<longrightarrow>
     l_inw s h 0x1F0 = disk (256 * cmd_lba (ata_after h) + words_read (ata_after h)) \<and>
     (\<exists>n. l_inb s (h @ replicate n (PIn 0x1F7)) 0x1F7 AND 0x88 = 0x8))"

definition disk_byte :: "(nat \<Rightarrow> uint16_t) \<Rightarrow> nat \<Rightarrow> uint8_t" where
  "disk_byte disk j = (if even j then ucast (disk (j div 2)) else ucast (drop_bit 8 (disk (j div 2))))"

section \<open>The transfer\<close>

lemma ata_append [simp]: "ata_after (h @ [e]) = ata_event e (ata_after h)"
  by (simp add: ata_after_def)

lemma ata_polls [simp]: "ata_after (h @ replicate n (PIn p)) = ata_after h"
  by (induction n) (simp_all add: replicate_app_Cons_same flip: append_assoc, simp add: ata_event_def
      flip: replicate_append_same append_assoc)

lemma disk_wait_returns:
  assumes "l_inb s (l_io s @ replicate n (PIn 0x1F7)) 0x1F7 AND 0x88 = 0x8"
  shows "\<exists>k. disk_wait s = Some (s\<lparr>l_io := l_io s @ replicate k (PIn 0x1F7)\<rparr>)"
  using assms
proof (induction n arbitrary: s)
  case 0
  then show ?case by (intro exI [of _ 1]) (subst disk_wait.simps, simp add: pc_inb_def)
next
  case (Suc n)
  let ?s = "s\<lparr>l_io := l_io s @ [PIn 0x1F7]\<rparr>"
  show ?case
  proof (cases "l_inb s (l_io s) 0x1F7 AND 0x88 = 0x8")
    case True
    then show ?thesis by (intro exI [of _ 1]) (subst disk_wait.simps, simp add: pc_inb_def)
  next
    case False
    obtain k where "disk_wait ?s = Some (?s\<lparr>l_io := l_io ?s @ replicate k (PIn 0x1F7)\<rparr>)"
      using Suc.IH [of ?s] Suc.prems by auto
    then show ?thesis using False by (intro exI [of _ "Suc k"]) (subst disk_wait.simps, simp add: pc_inb_def)
  qed
qed

text \<open>A step of the transfer leaves the drive, the command and the devices as they are.\<close>

definition transferred :: "nat \<Rightarrow> pc \<Rightarrow> pc \<Rightarrow> bool" where
  "transferred k s s' \<longleftrightarrow> l_inb s' = l_inb s \<and> l_inw s' = l_inw s \<and>
     cmd_lba (ata_after (l_io s')) = cmd_lba (ata_after (l_io s)) \<and>
     cmd_count (ata_after (l_io s')) = cmd_count (ata_after (l_io s)) \<and>
     words_read (ata_after (l_io s')) = words_read (ata_after (l_io s)) + k"

abbreviation disk_pos :: "pc \<Rightarrow> nat" where
  "disk_pos s \<equiv> 256 * cmd_lba (ata_after (l_io s)) + words_read (ata_after (l_io s))"

lemma disk_byte_pair: "map (disk_byte disk) [2 * b..<2 * b + 2 * Suc k] =
  ucast (disk b) # ucast (drop_bit 8 (disk b)) # map (disk_byte disk) [2 * Suc b..<2 * Suc b + 2 * k]"
proof -
  have "[2 * b..<2 * b + 2 * Suc k] = 2 * b # Suc (2 * b) # [2 * Suc b..<2 * Suc b + 2 * k]"
    by (simp add: upt_conv_Cons)
  then show ?thesis by (simp add: disk_byte_def)
qed

lemma disk_ok_devices: "l_inb s' = l_inb s \<Longrightarrow> l_inw s' = l_inw s \<Longrightarrow> disk_ok disk s' = disk_ok disk s"
  by (simp add: disk_ok_def)

lemma read_words_reads:
  assumes "disk_ok disk s" and "words_read (ata_after (l_io s)) + k \<le> 256 * cmd_count (ata_after (l_io s))"
    and "2 * k < 2 ^ 32"
  shows "\<exists>s'. read_words k d s = (d + of_nat (2 * k), s') \<and> transferred k s s' \<and>
    bytes (l_mem s') d (2 * k) = map (disk_byte disk) [2 * disk_pos s..<2 * disk_pos s + 2 * k] \<and>
    (\<forall>x. x \<notin> region d (2 * k) \<longrightarrow> l_mem s' x = l_mem s x)"
  using assms
proof (induction k arbitrary: d s)
  case 0
  then show ?case by (simp add: transferred_def)
next
  case (Suc k)
  define v where "v = disk (disk_pos s)"
  have v: "l_inw s (l_io s) 0x1F0 = v" using Suc.prems(1,2) by (simp add: disk_ok_def v_def)
  define m1 where "m1 = (l_mem s)(d := ucast v, d + 1 := ucast (drop_bit 8 v))"
  have ne: "d + 1 \<noteq> d" by simp
  have m1: "m1 d = ucast v" "m1 (d + 1) = ucast (drop_bit 8 v)" "x \<notin> {d, d + 1} \<Longrightarrow> m1 x = l_mem s x" for x
    using ne by (simp_all add: m1_def)
  define s1 where "s1 = s\<lparr>l_io := l_io s @ [PInw 0x1F0], l_mem := m1\<rparr>"
  have rw: "read_words (Suc k) d s = read_words k (d + 2) s1"
    by (simp add: inw_def v s1_def m1_def Let_def)
  have tr: "transferred 1 s s1" and pos: "disk_pos s1 = Suc (disk_pos s)"
    by (simp_all add: transferred_def s1_def ata_event_def)
  have ok: "disk_ok disk s1" using Suc.prems(1) by (simp add: s1_def disk_ok_def)
  have "words_read (ata_after (l_io s1)) + k \<le> 256 * cmd_count (ata_after (l_io s1))" "2 * k < 2 ^ 32"
    using Suc.prems(2,3) tr by (simp_all add: transferred_def)
  from Suc.IH [OF ok this, of "d + 2"] obtain s' where
    s': "read_words k (d + 2) s1 = (d + 2 + of_nat (2 * k), s')" "transferred k s1 s'"
    "bytes (l_mem s') (d + 2) (2 * k) = map (disk_byte disk) [2 * Suc (disk_pos s)..<2 * Suc (disk_pos s) + 2 * k]"
    "\<And>x. x \<notin> region (d + 2) (2 * k) \<Longrightarrow> l_mem s' x = m1 x"
    unfolding pos by (auto simp: s1_def)
  have two: "d + 1 + 1 = d + 2" by simp
  have nin: "d \<notin> region (d + 2) (2 * k)" "d + 1 \<notin> region (d + 2) (2 * k)"
  proof -
    have "d \<notin> region (d + 1) (Suc (2 * k))" using Suc.prems(3) by (intro before_region) simp
    then show "d \<notin> region (d + 2) (2 * k)" by (simp add: two)
    have "d + 1 \<notin> region (d + 1 + 1) (2 * k)" using Suc.prems(3) by (intro before_region) simp
    then show "d + 1 \<notin> region (d + 2) (2 * k)" by (simp add: two)
  qed
  have "bytes (l_mem s') d (2 * Suc k) = l_mem s' d # l_mem s' (d + 1) # bytes (l_mem s') (d + 2) (2 * k)"
    by (simp add: two)
  also have "\<dots> = map (disk_byte disk) [2 * disk_pos s..<2 * disk_pos s + 2 * Suc k]"
    unfolding disk_byte_pair s'(3) s'(4) [OF nin(1)] s'(4) [OF nin(2)] m1(1,2) by (simp add: v_def)
  finally have b: "bytes (l_mem s') d (2 * Suc k) = map (disk_byte disk) [2 * disk_pos s..<2 * disk_pos s + 2 * Suc k]" .
  have "l_mem s' x = l_mem s x" if "x \<notin> region d (2 * Suc k)" for x
    using that s'(4) [of x] m1(3) [of x] by (simp add: two)
  moreover have "transferred (Suc k) s s'" using tr s'(2) by (simp add: transferred_def)
  moreover have "d + 2 + of_nat (2 * k) = d + of_nat (2 * Suc k)" by simp
  ultimately show ?case using s'(1) b unfolding rw by metis
qed

lemma region_split_disjoint:
  assumes "n + k \<le> 2 ^ 32"
  shows "region a n \<inter> region (a + of_nat n) k = {}"
proof -
  have "(of_nat i :: addr) \<noteq> of_nat (n + j)" if "i < n" "j < k" for i j
    using that assms by (subst of_nat_addr_inj) auto
  then show ?thesis by (auto simp: region_eq add.assoc)
qed

lemma bytes_append: "bytes m a (n + k) = bytes m a n @ bytes m (a + of_nat n) k"
  by (induction n arbitrary: a) (auto simp: add.assoc)

lemma read_sectors_reads:
  assumes "disk_ok disk s" and "words_read (ata_after (l_io s)) + 256 * n \<le> 256 * cmd_count (ata_after (l_io s))"
    and "512 * n < 2 ^ 32"
  shows "\<exists>s'. read_sectors n d s = Some s' \<and> transferred (256 * n) s s' \<and>
    bytes (l_mem s') d (512 * n) = map (disk_byte disk) [2 * disk_pos s..<2 * disk_pos s + 512 * n] \<and>
    (\<forall>x. x \<notin> region d (512 * n) \<longrightarrow> l_mem s' x = l_mem s x)"
  using assms
proof (induction n arbitrary: d s)
  case 0
  then show ?case by (simp add: transferred_def)
next
  case (Suc n)
  have "\<exists>n. l_inb s (l_io s @ replicate n (PIn 0x1F7)) 0x1F7 AND 0x88 = 0x8"
    using Suc.prems(1,2) by (simp add: disk_ok_def)
  then obtain k where w: "disk_wait s = Some (s\<lparr>l_io := l_io s @ replicate k (PIn 0x1F7)\<rparr>)"
    using disk_wait_returns by blast
  define s1 where "s1 = s\<lparr>l_io := l_io s @ replicate k (PIn 0x1F7)\<rparr>"
  have s1: "transferred 0 s s1" "l_mem s1 = l_mem s" "disk_ok disk s1" "disk_pos s1 = disk_pos s"
    using Suc.prems(1) by (simp_all add: transferred_def s1_def disk_ok_def)
  obtain s2 where s2: "read_words 256 d s1 = (d + of_nat (2 * 256), s2)" "transferred 256 s1 s2"
    "bytes (l_mem s2) d (2 * 256) = map (disk_byte disk) [2 * disk_pos s..<2 * disk_pos s + 2 * 256]"
    "\<And>x. x \<notin> region d (2 * 256) \<Longrightarrow> l_mem s2 x = l_mem s x"
    using read_words_reads [OF s1(3), of 256 d] Suc.prems(2) s1 by (auto simp: transferred_def simp del: region.simps)
  have pos: "2 * disk_pos s2 = 2 * disk_pos s + 512" using s1(1) s2(2) by (simp add: transferred_def)
  have ok: "disk_ok disk s2" using s1(3) s2(2) disk_ok_devices [of s2 s1 disk] by (simp add: transferred_def)
  have "words_read (ata_after (l_io s2)) + 256 * n \<le> 256 * cmd_count (ata_after (l_io s2))" "512 * n < 2 ^ 32"
    using Suc.prems(2,3) s1(1) s2(2) by (simp_all add: transferred_def)
  from Suc.IH [OF ok this, of "d + 512"] obtain s' where s': "read_sectors n (d + 512) s2 = Some s'" "transferred (256 * n) s2 s'"
    "bytes (l_mem s') (d + 512) (512 * n) = map (disk_byte disk) [2 * disk_pos s + 512..<2 * disk_pos s + 512 + 512 * n]"
    "\<And>x. x \<notin> region (d + 512) (512 * n) \<Longrightarrow> l_mem s' x = l_mem s2 x"
    unfolding pos by blast
  have r: "read_sectors (Suc n) d s = Some s'"
    using w s2(1) s'(1) by (simp add: SECTOR_SIZE_def flip: s1_def)
  have len: "512 * Suc n = 512 + 512 * n" by simp
  have "region d 512 \<inter> region (d + 512) (512 * n) = {}"
    using region_split_disjoint [of 512 "512 * n" d] Suc.prems(3) by simp
  then have "bytes (l_mem s') d 512 = bytes (l_mem s2) d 512"
    using s'(4) by (intro bytes_cong) (auto simp del: region.simps)
  then have "bytes (l_mem s') d (512 * Suc n) = map (disk_byte disk) [2 * disk_pos s..<2 * disk_pos s + 512]
      @ map (disk_byte disk) [2 * disk_pos s + 512..<2 * disk_pos s + 512 + 512 * n]"
    unfolding len bytes_append using s2(3) s'(3) by simp
  also have "\<dots> = map (disk_byte disk) [2 * disk_pos s..<2 * disk_pos s + 512 * Suc n]"
    by (simp flip: map_append upt_add_eq_append) (simp add: add.assoc)
  finally have b: "bytes (l_mem s') d (512 * Suc n) = map (disk_byte disk) [2 * disk_pos s..<2 * disk_pos s + 512 * Suc n]" .
  have "l_mem s' x = l_mem s x" if "x \<notin> region d (512 * Suc n)" for x
    using that s'(4) [of x] s2(4) [of x] unfolding len region_append by simp
  moreover have "transferred (256 * Suc n) s s'" using s1(1) s2(2) s'(2) by (simp add: transferred_def)
  ultimately show ?case using r b by blast
qed

lemma unat_byte: "unat (ucast (drop_bit n (w :: uint32_t)) :: uint8_t) = unat w div 2 ^ n mod 256"
proof -
  have "unat (drop_bit n w) = unat w div 2 ^ n" by (metis drop_bit_eq_div unat_drop_bit_eq)
  then show ?thesis by (simp add: unsigned_ucast_eq take_bit_eq_mod)
qed

lemma unat_byte0: "unat (ucast (w :: uint32_t) :: uint8_t) = unat w mod 256"
  using unat_byte [of 0 w] by simp

lemma ata_events:
  "ata_event (POut 0x1F6 v) a = a" "ata_event (POut 0x1F2 v) a = a\<lparr>r_count := (snd (r_count a), unat v)\<rparr>"
  "ata_event (POut 0x1F3 v) a = a\<lparr>r_lba0 := (snd (r_lba0 a), unat v)\<rparr>"
  "ata_event (POut 0x1F4 v) a = a\<lparr>r_lba1 := (snd (r_lba1 a), unat v)\<rparr>"
  "ata_event (POut 0x1F5 v) a = a\<lparr>r_lba2 := (snd (r_lba2 a), unat v)\<rparr>"
  "ata_event (POut 0x1F7 0x24) a = a\<lparr>words_read := 0,
     cmd_count := snd (r_count a) + 2 ^ 8 * fst (r_count a),
     cmd_lba := snd (r_lba0 a) + 2 ^ 8 * snd (r_lba1 a) + 2 ^ 16 * snd (r_lba2 a)
       + 2 ^ 24 * fst (r_lba0 a) + 2 ^ 32 * fst (r_lba1 a) + 2 ^ 40 * fst (r_lba2 a)\<rparr>"
  by (simp_all add: ata_event_def)

lemma word_from_bytes:
  "x mod 256 + 256 * (x div 2 ^ 8 mod 256) + 65536 * (x div 2 ^ 16 mod 256) + 16777216 * (x div 2 ^ 24 mod 256) = x"
  if "x < 2 ^ 32" for x :: nat
proof -
  have "x div 2 ^ 24 mod 256 = x div 2 ^ 24" using that by simp
  moreover have "x div 2 ^ 16 = 256 * (x div 2 ^ 24) + x div 2 ^ 16 mod 256"
    using div_mult_mod_eq [of "x div 2 ^ 16" 256] by (simp add: div_mult2_eq [symmetric])
  moreover have "x div 2 ^ 8 = 256 * (x div 2 ^ 16) + x div 2 ^ 8 mod 256"
    using div_mult_mod_eq [of "x div 2 ^ 8" 256] by (simp add: div_mult2_eq [symmetric])
  moreover have "x = 256 * (x div 2 ^ 8) + x mod 256" by simp
  ultimately show ?thesis by linarith
qed

lemma disk_command_starts:
  assumes "unat sector_count < 2 ^ 16"
  shows "l_mem (disk_command sector sector_count s) = l_mem s" "l_inb (disk_command sector sector_count s) = l_inb s"
    "l_inw (disk_command sector sector_count s) = l_inw s"
    "cmd_lba (ata_after (l_io (disk_command sector sector_count s))) = unat sector"
    "cmd_count (ata_after (l_io (disk_command sector sector_count s))) = unat sector_count"
    "words_read (ata_after (l_io (disk_command sector sector_count s))) = 0"
proof -
  let ?h = "l_io s" and ?b = "\<lambda>n w. ucast (drop_bit n w) :: uint8_t"
  have io: "l_io (disk_command sector sector_count s) = (((((((((?h @ [POut 0x1F6 0xE0]) @ [POut 0x1F2 (?b 8 sector_count)])
      @ [POut 0x1F3 (?b 24 sector)]) @ [POut 0x1F4 0]) @ [POut 0x1F5 0]) @ [POut 0x1F2 (ucast sector_count)])
      @ [POut 0x1F3 (ucast sector)]) @ [POut 0x1F4 (?b 8 sector)]) @ [POut 0x1F5 (?b 16 sector)]) @ [POut 0x1F7 0x24]"
    by (simp add: disk_command_def pc_outb_def)
  have b: "unat sector_count mod 256 + 256 * (unat sector_count div 2 ^ 8 mod 256) = unat sector_count"
  proof -
    have "unat sector_count div 2 ^ 8 < 256" using assms by simp
    then show ?thesis using div_mult_mod_eq [of "unat sector_count" 256] by simp
  qed
  have "cmd_lba (ata_after (l_io (disk_command sector sector_count s))) = unat (ucast sector :: uint8_t)
      + 256 * unat (?b 8 sector) + 65536 * unat (?b 16 sector) + 16777216 * unat (?b 24 sector)"
    unfolding io ata_append ata_events by simp
  also have "\<dots> = unat sector" unfolding unat_byte unfolding unat_byte0 by (rule word_from_bytes [OF unat_below])
  finally show "cmd_lba (ata_after (l_io (disk_command sector sector_count s))) = unat sector" .
  have "cmd_count (ata_after (l_io (disk_command sector sector_count s))) =
      unat (ucast sector_count :: uint8_t) + 256 * unat (?b 8 sector_count)"
    unfolding io ata_append ata_events by simp
  then show "cmd_count (ata_after (l_io (disk_command sector sector_count s))) = unat sector_count"
    unfolding unat_byte unfolding unat_byte0 b .
  show "words_read (ata_after (l_io (disk_command sector sector_count s))) = 0"
    unfolding io ata_append ata_events by simp
qed (simp_all add: disk_command_def pc_outb_def)

lemma read_disk_returns:
  assumes "disk_ok disk s" and "unat sector_count < 2 ^ 16"
  shows "\<exists>s'. read_disk sector sector_count buf s = Some s' \<and> l_inb s' = l_inb s \<and> l_inw s' = l_inw s \<and>
    bytes (l_mem s') buf (512 * unat sector_count) =
      map (disk_byte disk) [512 * unat sector..<512 * (unat sector + unat sector_count)] \<and>
    (\<forall>x. x \<notin> region buf (512 * unat sector_count) \<longrightarrow> l_mem s' x = l_mem s x)"
proof -
  let ?s = "disk_command sector sector_count s" and ?n = "unat sector_count"
  note c = disk_command_starts [OF assms(2), of sector s]
  have "disk_ok disk ?s" using assms(1) c disk_ok_devices [of ?s s disk] by simp
  from read_sectors_reads [OF this, of ?n buf] c assms(2) obtain s' where
    s': "read_sectors ?n buf ?s = Some s'" "transferred (256 * ?n) ?s s'"
    "bytes (l_mem s') buf (512 * ?n) = map (disk_byte disk) [512 * unat sector..<512 * unat sector + 512 * ?n]"
    "\<forall>x. x \<notin> region buf (512 * ?n) \<longrightarrow> l_mem s' x = l_mem s x"
    by (auto simp: mult.assoc)
  have "512 * unat sector + 512 * ?n = 512 * (unat sector + ?n)" by simp
  then show ?thesis using s' c by (auto simp: read_disk_def transferred_def)
qed

lemma bytes_nth: "i < n \<Longrightarrow> bytes m a n ! i = m (a + of_nat i)"
proof (induction n arbitrary: a i)
  case (Suc n)
  then show ?case by (cases i) (simp_all add: add.assoc)
qed simp

lemma map_upt_bytes:
  assumes "bytes m a n = map f [k..<k + n]" and "i < n"
  shows "m (a + of_nat i) = f (k + i)"
  using bytes_nth [OF assms(2), of m a] assms by simp

lemma read_disk_bytes:
  assumes "disk_ok disk s" and "unat sector_count < 2 ^ 16"
  shows "\<exists>s'. read_disk sector sector_count buf s = Some s' \<and>
    (\<forall>i<512 * unat sector_count. l_mem s' (buf + of_nat i) = disk_byte disk (512 * unat sector + i)) \<and>
    (\<forall>x. x \<notin> region buf (512 * unat sector_count) \<longrightarrow> l_mem s' x = l_mem s x)"
proof -
  have "512 * (unat sector + unat sector_count) = 512 * unat sector + 512 * unat sector_count" by simp
  then show ?thesis using read_disk_returns [OF assms, of sector buf] map_upt_bytes by metis
qed

section \<open>Properties\<close>

text \<open>Reading the disk. With an ATA drive, and for fewer than 65536 sectors, \<^verbatim>\<open>read_disk\<close> returns:
  the buffer then holds the bytes of the sectors asked for, in order, and no other byte of memory has
  changed.\<close>

lemma read_disk_correct:
  assumes "disk_ok disk s" and "unat sector_count < 2 ^ 16"
  shows "\<exists>s'. read_disk sector sector_count buf s = Some s' \<and>
    bytes (l_mem s') buf (512 * unat sector_count) =
      map (disk_byte disk) [512 * unat sector..<512 * (unat sector + unat sector_count)] \<and>
    (\<forall>x. x \<notin> region buf (512 * unat sector_count) \<longrightarrow> l_mem s' x = l_mem s x)"
  using read_disk_returns [OF assms, of sector buf] by blast

text \<open>A drive that is always ready and holds the sample file from sector 65 on.\<close>

definition sample_disk_byte :: "nat \<Rightarrow> uint8_t" where
  "sample_disk_byte j = (if 33280 \<le> j \<and> j < 33367 then sample_elf ! (j - 33280) else 0)"

definition sample_disk :: "nat \<Rightarrow> uint16_t" where
  "sample_disk i = ucast (sample_disk_byte (2 * i)) OR push_bit 8 (ucast (sample_disk_byte (2 * i + 1)))"

definition sample_pc :: pc where
  "sample_pc = \<lparr>l_mem = (\<lambda>a. 0xCC), l_io = [], l_inb = (\<lambda>h p. 8),
     l_inw = (\<lambda>h p. sample_disk (256 * cmd_lba (ata_after h) + words_read (ata_after h)))\<rparr>"

lemma sample_disk_ok: "disk_ok sample_disk sample_pc"
  by (simp add: disk_ok_def sample_pc_def)

lemma sample_disk_bytes: "disk_byte sample_disk j = sample_disk_byte j"
proof -
  have lo: "ucast (ucast a OR push_bit 8 (ucast b) :: uint16_t) = a"
    and hi: "ucast (drop_bit 8 (ucast a OR push_bit 8 (ucast b) :: uint16_t)) = b" for a b :: uint8_t
    by (rule bit_word_eqI, auto simp: bit_simps dest: bit_imp_le_length)+
  have e: "2 * (j div 2) = j" if "even j" using that by simp
  have o: "2 * (j div 2) + 1 = j" if "odd j" using that by simp
  show ?thesis
  proof (cases "even j")
    case True
    then show ?thesis by (simp only: disk_byte_def sample_disk_def lo e if_True)
  next
    case False
    have "disk_byte sample_disk j = sample_disk_byte (2 * (j div 2) + 1)"
      using False by (simp only: disk_byte_def sample_disk_def hi if_False)
    then show ?thesis unfolding o [OF False] .
  qed
qed

lemma read_disk_correct_example:
  "\<exists>s'. read_disk 65 1 0x100000 sample_pc = Some s' \<and> l_mem s' 0x100001 = 0x45"
proof -
  have "unat (1 :: uint32_t) < 2 ^ 16" by simp
  from read_disk_correct [OF sample_disk_ok this, of 65 "0x100000"] obtain s' where
    s': "read_disk 65 1 0x100000 sample_pc = Some s'" "bytes (l_mem s') 0x100000 (512 * unat (1 :: uint32_t)) =
      map (disk_byte sample_disk) [512 * unat (65 :: uint32_t)..<512 * (unat (65 :: uint32_t) + unat (1 :: uint32_t))]"
    by blast
  have "512 * (unat (65 :: uint32_t) + unat (1 :: uint32_t)) = 512 * unat (65 :: uint32_t) + 512 * unat (1 :: uint32_t)" by simp
  from map_upt_bytes [OF s'(2) [unfolded this], of 1] have "l_mem s' 0x100001 = disk_byte sample_disk 33281" by simp
  then show ?thesis using s'(1) by (simp add: sample_disk_bytes sample_disk_byte_def sample_elf_def)
qed

section \<open>Entering the kernel\<close>

definition disk_image :: "(nat \<Rightarrow> uint16_t) \<Rightarrow> memory \<Rightarrow> memory" where
  "disk_image disk m x = (if x \<in> region 0x100000 256000 then disk_byte disk (33280 + unat (x - 0x100000)) else m x)"

lemma read_kernel:
  assumes "disk_ok disk s"
  shows "\<exists>s'. read_disk KERNEL_BEGIN_SECTOR KERNEL_MAX_SECTORS_IN_SIZE SYS_KERNEL_LOAD_ADDR s = Some s' \<and>
    l_mem s' = disk_image disk (l_mem s)"
proof -
  obtain s' where s': "read_disk 65 500 0x100000 s = Some s'"
    "\<And>i. i < 256000 \<Longrightarrow> l_mem s' (0x100000 + of_nat i) = disk_byte disk (33280 + i)"
    "\<And>x. x \<notin> region 0x100000 256000 \<Longrightarrow> l_mem s' x = l_mem s x"
    using read_disk_bytes [OF assms, of 500 65 "0x100000"] by (auto simp del: region.simps)
  have "l_mem s' x = disk_image disk (l_mem s) x" for x
  proof (cases "x \<in> region 0x100000 256000")
    case True
    then obtain i where i: "i < 256000" "x = 0x100000 + of_nat i" unfolding region_eq by blast
    then have "l_mem s' x = disk_byte disk (33280 + i)" using s'(2) by simp
    moreover have "unat (x - 0x100000) = i" using i by (simp add: unat_of_nat)
    ultimately show ?thesis using True by (simp add: disk_image_def del: region.simps)
  next
    case False
    then show ?thesis using s'(3) by (simp add: disk_image_def del: region.simps)
  qed
  then have "l_mem s' = disk_image disk (l_mem s)" by blast
  then show ?thesis
    using s'(1) by (simp add: KERNEL_BEGIN_SECTOR_def KERNEL_MAX_SECTORS_IN_SIZE_def SYS_KERNEL_LOAD_ADDR_def)
qed

lemma load_kernel_loads:
  assumes "disk_ok disk s" and m: "m = disk_image disk (l_mem s)"
  shows "(elf_image m 0x100000 256000 \<and> e_entry (read_ehdr m 0x100000) \<noteq> 0 \<longrightarrow>
      (\<exists>s'. load_kernel info s = Some (e_entry (read_ehdr m 0x100000), info, s') \<and>
        (\<forall>ph\<in>set (phdrs m 0x100000). seg_loaded m 0x100000 ph (l_mem s')) \<and>
        (\<forall>x. x \<notin> \<Union> (footprint ` set (phdrs m 0x100000)) \<longrightarrow> l_mem s' x = m x))) \<and>
    (take 4 (bytes m 0x100000 16) \<noteq> [0x7F, 0x45, 0x4c, 0x46] \<longrightarrow> load_kernel info s = None)"
proof -
  obtain s1 where s1: "read_disk KERNEL_BEGIN_SECTOR KERNEL_MAX_SECTORS_IN_SIZE SYS_KERNEL_LOAD_ADDR s = Some s1"
    "l_mem s1 = m" using read_kernel [OF assms(1)] m by blast
  have a: "SYS_KERNEL_LOAD_ADDR = 0x100000" by (simp add: SYS_KERNEL_LOAD_ADDR_def)
  have lk: "load_kernel info s = Option.bind (reload_elf_file 0x100000 m) (\<lambda>(kernel_entry, m').
      if kernel_entry = 0 then None else Some (kernel_entry, info, s1\<lparr>l_mem := m'\<rparr>))"
    using s1 by (simp add: load_kernel_def a)
  have "\<exists>s'. load_kernel info s = Some (e_entry (read_ehdr m 0x100000), info, s') \<and>
        (\<forall>ph\<in>set (phdrs m 0x100000). seg_loaded m 0x100000 ph (l_mem s')) \<and>
        (\<forall>x. x \<notin> \<Union> (footprint ` set (phdrs m 0x100000)) \<longrightarrow> l_mem s' x = m x)"
    if im: "elf_image m 0x100000 256000" and e: "e_entry (read_ehdr m 0x100000) \<noteq> 0"
  proof -
    obtain m' where m': "reload_elf_file 0x100000 m = Some (e_entry (read_ehdr m 0x100000), m')"
      "\<forall>ph\<in>set (phdrs m 0x100000). seg_loaded m 0x100000 ph m'"
      "\<forall>x. x \<notin> \<Union> (footprint ` set (phdrs m 0x100000)) \<longrightarrow> m' x = m x"
      using reload_elf_file_loads [OF im] by blast
    then show ?thesis using e by (intro exI [of _ "s1\<lparr>l_mem := m'\<rparr>"]) (simp add: lk)
  qed
  moreover have "load_kernel info s = None" if "take 4 (bytes m 0x100000 16) \<noteq> [0x7F, 0x45, 0x4c, 0x46]"
    using reload_elf_rejects [OF that] by (simp add: lk)
  ultimately show ?thesis by blast
qed

text \<open>C20. Starting the kernel. When the 500 sectors from sector 65 on (the value of \<^verbatim>\<open>KERNEL_BEGIN_SECTOR\<close>, right
  after the loader; the comment above the definition places the kernel at sector 70 and after) hold a loadable ELF file
  with an entry point other than 0, \<^verbatim>\<open>load_kernel\<close> calls that entry point with the address of \<^verbatim>\<open>boot_info\<close>, with
  every segment in place and nothing else in memory changed but the buffer at 1 MB. When they do not start with the magic
  number it never enters a kernel.\<close>

theorem load_kernel_correct:
  assumes "disk_ok disk s" and "m = disk_image disk (l_mem s)"
  shows "(elf_image m 0x100000 256000 \<and> e_entry (read_ehdr m 0x100000) \<noteq> 0 \<longrightarrow>
      (\<exists>s'. load_kernel info s = Some (e_entry (read_ehdr m 0x100000), info, s') \<and>
        (\<forall>ph\<in>set (phdrs m 0x100000). seg_loaded m 0x100000 ph (l_mem s')) \<and>
        (\<forall>x. x \<notin> \<Union> (footprint ` set (phdrs m 0x100000)) \<longrightarrow> l_mem s' x = m x))) \<and>
    (take 4 (bytes m 0x100000 16) \<noteq> [0x7F, 0x45, 0x4c, 0x46] \<longrightarrow> load_kernel info s = None)"
  using load_kernel_loads [OF assms] .

lemma sample_disk_image: "agree (region 0x100000 87) sample_elf_mem (disk_image sample_disk m)"
proof -
  have "disk_image sample_disk m x = sample_elf_mem x" if x: "x \<in> region 0x100000 87" for x
  proof -
    obtain i where i: "i < 87" "x = 0x100000 + of_nat i" using x unfolding region_eq by blast
    then have "x \<in> region 0x100000 256000" using in_region [of i 256000 "0x100000"] by simp
    moreover have "unat (x - 0x100000) = i" using i by (simp add: unat_of_nat)
    ultimately show ?thesis
      using i(1) by (simp add: disk_image_def sample_disk_bytes sample_disk_byte_def sample_elf_mem_def del: region.simps)
  qed
  then show ?thesis by (simp add: agree_def del: region.simps)
qed

lemma elf_image_agree:
  assumes "elf_image m buf n" and "agree (region buf n) m m'" and "n \<le> n'"
    and "\<And>ph. ph \<in> set (phdrs m buf) \<Longrightarrow> footprint ph \<inter> region buf n' = {}"
  shows "elf_image m' buf n'" "phdrs m' buf = phdrs m buf" "read_ehdr m' buf = read_ehdr m buf"
proof -
  have n: "52 \<le> n" "unat (e_phoff (read_ehdr m buf)) + 32 * unat (e_phnum (read_ehdr m buf)) \<le> n"
    using assms(1) by (simp_all add: elf_image_def)
  show h: "read_ehdr m' buf = read_ehdr m buf"
    using assms(2) n(1) region_sub [of 0 52 n buf] by (intro read_ehdr_agree) (auto simp: agree_def simp del: region.simps)
  show p: "phdrs m' buf = phdrs m buf"
  proof -
    have "read_phdr m' (buf + e_phoff (read_ehdr m buf) + of_nat (32 * i)) =
        read_phdr m (buf + e_phoff (read_ehdr m buf) + of_nat (32 * i))" if i: "i < unat (e_phnum (read_ehdr m buf))" for i
    proof (rule read_phdr_agree)
      have "region (buf + of_nat (unat (e_phoff (read_ehdr m buf)) + 32 * i)) 32 \<subseteq> region buf n"
        using n(2) i by (intro region_sub) simp
      then show "agree (region (buf + e_phoff (read_ehdr m buf) + of_nat (32 * i)) 32) m m'"
        using assms(2) by (auto simp: agree_def add.assoc simp del: region.simps)
    qed
    then show ?thesis by (simp add: phdrs_def h)
  qed
  have "bytes m' buf 16 = bytes m buf 16"
    using assms(2) n(1) region_sub [of 0 16 n buf] by (intro bytes_cong) (auto simp: agree_def simp del: region.simps)
  then show "elf_image m' buf n'"
    using assms(1,3,4) n by (auto simp: elf_image_def h p seg_ok_def)
qed

lemma sample_disk_elf:
  "elf_image (disk_image sample_disk m) 0x100000 256000"
  "phdrs (disk_image sample_disk m) 0x100000 = phdrs sample_elf_mem 0x100000"
  "read_ehdr (disk_image sample_disk m) 0x100000 = read_ehdr sample_elf_mem 0x100000"
proof -
  have "region 0x10000 5 \<inter> region 0x100000 256000 = {}" by (rule region_apart) simp
  then have "footprint ph \<inter> region 0x100000 256000 = {}" if "ph \<in> set (phdrs sample_elf_mem 0x100000)" for ph
    using that by (simp add: sample_elf_image(2) footprint_def PT_LOAD_def del: region.simps)
  note im = elf_image_agree [OF sample_elf_image(1) sample_disk_image _ this, simplified]
  show "elf_image (disk_image sample_disk m) 0x100000 256000"
    "phdrs (disk_image sample_disk m) 0x100000 = phdrs sample_elf_mem 0x100000"
    "read_ehdr (disk_image sample_disk m) 0x100000 = read_ehdr sample_elf_mem 0x100000"
    using im by simp_all
qed

lemma sample_segment:
  assumes "\<forall>ph\<in>set (phdrs (disk_image sample_disk m) 0x100000). seg_loaded (disk_image sample_disk m) 0x100000 ph m'"
  shows "m' 0x10000 = 0xB8" "m' 0x10003 = 0"
proof -
  let ?m = "disk_image sample_disk m"
  have "bytes m' 0x10000 3 = bytes ?m 0x100054 3" "m' (0x10000 + of_nat 3) = 0"
    using assms by (simp_all add: sample_disk_elf(2) sample_elf_image(2) seg_loaded_def PT_LOAD_def del: of_nat_numeral)
  moreover have "?m 0x100054 = sample_elf_mem 0x100054"
    using sample_disk_image in_region [of 84 87 "0x100000"] by (simp add: agree_def del: region.simps)
  ultimately show "m' 0x10000 = 0xB8" "m' 0x10003 = 0" by (simp_all add: bytes_numeral sample_elf_mem_def sample_elf_def)
qed

theorem load_kernel_correct_witness:
  "\<exists>s'. load_kernel 0x9100 sample_pc = Some (0x10000, 0x9100, s') \<and> l_mem s' 0x10000 = 0xB8 \<and> l_mem s' 0x10003 = 0"
proof -
  have "e_entry (read_ehdr (disk_image sample_disk (l_mem sample_pc)) 0x100000) = 0x10000"
    by (simp add: sample_disk_elf(3) sample_elf_headers(3))
  then show ?thesis
    using load_kernel_correct [OF sample_disk_ok refl] sample_disk_elf(1) [of "l_mem sample_pc"] sample_segment by fastforce
qed

end
