(* ===== verification/Loader16.thy ===== *)
theory Loader16
  imports Disk Gdt
begin

text \<open>
  The 16-bit stage of the loader, \<^verbatim>\<open>src/source/loader/loader16.c\<close>: the memory map is asked of the
  BIOS, then the processor enters protected mode. The BIOS is a parameter: \<open>bios k c e\<close> is its answer to
  the \<open>k\<close>-th call of interrupt 0x15 with continuation value \<open>c\<close> and the buffer \<open>e\<close>: the signature, the
  number of bytes written, the next continuation value and the buffer. Its screen service appends a
  character to the screen. A write outside the array of regions is recorded as a fault.
\<close>

section \<open>Structures\<close>

record ram_region =
  ri_start :: uint32_t
  ri_size :: uint32_t

record boot_info_t =
  ram_region_info :: "ram_region list"
  bi_count :: cint

record SMAP_entry_t =
  BaseL :: uint32_t
  BaseH :: uint32_t
  LengthL :: uint32_t
  LengthH :: uint32_t
  Type :: uint32_t
  ACPI :: uint32_t

type_synonym bios = "nat \<Rightarrow> uint32_t \<Rightarrow> SMAP_entry_t \<Rightarrow> uint32_t \<times> uint8_t \<times> uint32_t \<times> SMAP_entry_t"

record loader = pc +
  l_screen :: "uint8_t list"
  boot_info :: boot_info_t
  l_eflags :: uint32_t
  l_cr0 :: uint32_t
  l_gdtr :: "addr \<times> uint16_t"
  l_cs :: uint16_t
  l_eip :: uint32_t
  l_fault :: bool
  l_sym :: "string \<Rightarrow> addr"

definition BOOT_RAM_REGION_MAX :: cint where "BOOT_RAM_REGION_MAX = 10"

section \<open>Operations\<close>

text \<open>\<^verbatim>\<open>read_cr0\<close> returns a byte.\<close>

definition read_cr0 :: "loader \<Rightarrow> uint8_t" where
  "read_cr0 s = ucast (l_cr0 s)"

definition write_cr0 :: "uint32_t \<Rightarrow> loader \<Rightarrow> loader" where
  "write_cr0 v s = s\<lparr>l_cr0 := v\<rparr>"

definition gdt_table16 :: "uint16_t list list" where
  "gdt_table16 = [[0, 0, 0, 0], [0xFFFF, 0x0000, 0x9a00, 0x00cf], [0xFFFF, 0x0000, 0x9200, 0x00cf]]"

partial_function (option) show_msg :: "addr \<Rightarrow> loader \<Rightarrow> loader option" where
  "show_msg msg s =
    (let c = l_mem s msg
     in if c \<noteq> 0 then show_msg (msg + 1) (s\<lparr>l_screen := l_screen s @ [c]\<rparr>) else Some s)"

definition add_region :: "SMAP_entry_t \<Rightarrow> loader \<Rightarrow> loader" where
  "add_region entry s =
    (let bi = boot_info s; i = nat (sint (bi_count bi))
     in if 0 \<le> sint (bi_count bi) \<and> i < length (ram_region_info bi)
        then s\<lparr>boot_info := bi\<lparr>ram_region_info := (ram_region_info bi)[i := \<lparr>ri_start = BaseL entry, ri_size = LengthL entry\<rparr>],
               bi_count := bi_count bi + 1\<rparr>\<rparr>
        else s\<lparr>boot_info := bi\<lparr>bi_count := bi_count bi + 1\<rparr>, l_fault := True\<rparr>)"

text \<open>The body of the loop. \<^const>\<open>Inl\<close>: the loop is left and the function ends with a message. \<^const>\<open>Inr\<close>: the
  loop goes on, with the next continuation value and the buffer.\<close>

definition detect_round ::
  "bios \<Rightarrow> nat \<Rightarrow> uint32_t \<Rightarrow> SMAP_entry_t \<Rightarrow> loader \<Rightarrow> (addr \<times> loader) + (uint32_t \<times> SMAP_entry_t \<times> loader)" where
  "detect_round bios k contID entry s =
    (let (signature, bytes_read, contID1, entry1) = bios k contID entry
     in if signature \<noteq> 0x534D4150 then Inl (l_sym s ''str_failed'', s)
        else if bytes_read > 20 \<and> ACPI entry1 AND 1 = 0 then Inr (contID1, entry1, s)
        else
          let s1 = (if Type entry1 = 1 then add_region entry1 s else s)
          in if contID1 = 0 \<or> bi_count (boot_info s1) = BOOT_RAM_REGION_MAX - 1
             then Inl (l_sym s1 ''str_detected'', s1)
             else Inr (contID1, entry1, s1))"

partial_function (option) detect_loop :: "bios \<Rightarrow> nat \<Rightarrow> uint32_t \<Rightarrow> SMAP_entry_t \<Rightarrow> loader \<Rightarrow> loader option" where
  "detect_loop bios k contID entry s =
    (case detect_round bios k contID entry s of
       Inl (msg, s1) \<Rightarrow> show_msg msg s1
     | Inr (contID1, entry1, s1) \<Rightarrow> detect_loop bios (k + 1) contID1 entry1 s1)"

text \<open>The loader after \<open>n\<close> rounds of the loop, or after the last one if there are fewer.\<close>

primrec detect_after :: "nat \<Rightarrow> bios \<Rightarrow> nat \<Rightarrow> uint32_t \<Rightarrow> SMAP_entry_t \<Rightarrow> loader \<Rightarrow> loader" where
  "detect_after 0 bios k contID entry s = s"
| "detect_after (Suc n) bios k contID entry s =
    (case detect_round bios k contID entry s of
       Inl (msg, s1) \<Rightarrow> s1
     | Inr (contID1, entry1, s1) \<Rightarrow> detect_after n bios (k + 1) contID1 entry1 s1)"

definition detect_memory :: "bios \<Rightarrow> SMAP_entry_t \<Rightarrow> loader \<Rightarrow> loader option" where
  "detect_memory bios entry s =
    Option.bind (show_msg (l_sym s ''str_detecting'') s) (\<lambda>s1.
      detect_loop bios 0 0 entry (s1\<lparr>boot_info := (boot_info s1)\<lparr>bi_count := 0\<rparr>\<rparr>))"

definition enter_protect_mode :: "loader \<Rightarrow> loader" where
  "enter_protect_mode s0 =
    (let s1 = s0\<lparr>l_eflags := l_eflags s0 AND NOT EFLAGS_IF\<rparr>;
         (v, s2) = pc_inb 0x92 s1;
         s3 = pc_outb 0x92 (v OR 2) s2;
         s4 = s3\<lparr>l_gdtr := pseudo_desc (l_sym s3 ''gdt_table'') (of_nat (8 * length gdt_table16))\<rparr>;
         cr0 = ucast (read_cr0 s4) :: uint32_t;
         s5 = write_cr0 (cr0 OR push_bit 0 1) s4
     in s5\<lparr>l_cs := 8, l_eip := l_sym s5 ''protect_entry''\<rparr>)"

definition loader16_entry :: "bios \<Rightarrow> SMAP_entry_t \<Rightarrow> loader \<Rightarrow> loader option" where
  "loader16_entry bios entry s =
    Option.bind (show_msg (l_sym s ''str_loading'') s) (\<lambda>s1.
    Option.bind (detect_memory bios entry s1) (\<lambda>s2. Some (enter_protect_mode s2)))"

section \<open>Messages\<close>

lemma show_msg_cstr:
  "cstr (l_mem s) p bs \<Longrightarrow> show_msg p s = Some (s\<lparr>l_screen := l_screen s @ bs\<rparr>)"
proof (induction bs arbitrary: p s)
  case Nil
  then show ?case by (subst show_msg.simps) (simp add: cstr_Nil)
next
  case (Cons b bs)
  then have b: "l_mem s p = b" "b \<noteq> 0" "cstr (l_mem s) (p + 1) bs" by (auto simp: cstr_Cons)
  let ?s = "s\<lparr>l_screen := l_screen s @ [b]\<rparr>"
  have "show_msg (p + 1) ?s = Some (?s\<lparr>l_screen := l_screen ?s @ bs\<rparr>)" using b(3) by (intro Cons.IH) simp
  then show ?case using b by (subst show_msg.simps) simp
qed

section \<open>The memory map\<close>

definition ignored :: "uint8_t \<times> SMAP_entry_t \<Rightarrow> bool" where
  "ignored x \<longleftrightarrow> fst x > 20 \<and> ACPI (snd x) AND 1 = 0"

definition usable :: "uint8_t \<times> SMAP_entry_t \<Rightarrow> bool" where
  "usable x \<longleftrightarrow> \<not> ignored x \<and> Type (snd x) = 1"

definition region_of :: "uint8_t \<times> SMAP_entry_t \<Rightarrow> ram_region" where
  "region_of x = \<lparr>ri_start = BaseL (snd x), ri_size = LengthL (snd x)\<rparr>"

text \<open>A BIOS that lists the entries \<open>es\<close>: the continuation value \<open>cont i\<close> asks for entry \<open>i\<close>; the answer to
  the last one carries the value 0. An answer of 20 bytes or less leaves the last field of the buffer.\<close>

definition bios_lists :: "(uint8_t \<times> SMAP_entry_t) list \<Rightarrow> (nat \<Rightarrow> uint32_t) \<Rightarrow> bios \<Rightarrow> bool" where
  "bios_lists es cont bios \<longleftrightarrow> es \<noteq> [] \<and> cont 0 = 0 \<and> (\<forall>i. 0 < i \<and> i < length es \<longrightarrow> cont i \<noteq> 0) \<and>
     (\<forall>i<length es. \<forall>k e. bios k (cont i) e = (0x534D4150, fst (es ! i),
        if Suc i = length es then 0 else cont (Suc i),
        (snd (es ! i))\<lparr>ACPI := if fst (es ! i) > 20 then ACPI (snd (es ! i)) else ACPI e\<rparr>))"

text \<open>The regions recorded so far.\<close>

definition recorded :: "ram_region list \<Rightarrow> loader \<Rightarrow> bool" where
  "recorded rs s \<longleftrightarrow> length (ram_region_info (boot_info s)) = 10 \<and> bi_count (boot_info s) = of_nat (length rs) \<and>
     length rs \<le> 9 \<and> take (length rs) (ram_region_info (boot_info s)) = rs \<and> \<not> l_fault s"

lemma count_word: "n \<le> 9 \<Longrightarrow> sint (of_nat n :: cint) = int n \<and> ((of_nat n :: cint) = 9 \<longleftrightarrow> n = 9)"
  using of_nat_addr_inj [of n 9] sint_small [of "of_nat n"] by (simp add: unat_of_nat)

lemma add_region_recorded:
  assumes "recorded rs s" and "length rs < 9"
  shows "recorded (rs @ [\<lparr>ri_start = BaseL e, ri_size = LengthL e\<rparr>]) (add_region e s)"
    "pc.truncate (add_region e s) = pc.truncate s" "l_sym (add_region e s) = l_sym s" "l_screen (add_region e s) = l_screen s"
proof -
  have c: "sint (bi_count (boot_info s)) = int (length rs)" using assms count_word [of "length rs"] by (simp add: recorded_def)
  show "pc.truncate (add_region e s) = pc.truncate s" "l_sym (add_region e s) = l_sym s" "l_screen (add_region e s) = l_screen s"
    by (simp_all add: add_region_def Let_def pc.truncate_def)
  show "recorded (rs @ [\<lparr>ri_start = BaseL e, ri_size = LengthL e\<rparr>]) (add_region e s)"
    using assms c by (simp add: recorded_def add_region_def Let_def take_Suc_conv_app_nth add.commute)
qed

text \<open>The rule is the code's: an answer of more than 20 bytes is ignored when bit 0 of its last field is clear. The
  comment on the structure states the opposite.

  One answer of such a BIOS, and the step the loop takes on it.\<close>

lemma detect_loop_step:
  assumes "bios_lists es cont bios" and "i < length es"
  shows "\<exists>e1. detect_loop bios k (cont i) e s =
    (let next = if Suc i = length es then 0 else cont (Suc i)
     in if ignored (es ! i) then detect_loop bios (k + 1) next e1 s
        else
          let s1 = (if usable (es ! i) then add_region e1 s else s)
          in if next = 0 \<or> bi_count (boot_info s1) = 9 then show_msg (l_sym s1 ''str_detected'') s1
             else detect_loop bios (k + 1) next e1 s1) \<and>
    BaseL e1 = BaseL (snd (es ! i)) \<and> LengthL e1 = LengthL (snd (es ! i))"
proof -
  let ?e1 = "(snd (es ! i))\<lparr>ACPI := if fst (es ! i) > 20 then ACPI (snd (es ! i)) else ACPI e\<rparr>"
  have b: "bios k (cont i) e = (0x534D4150, fst (es ! i), if Suc i = length es then 0 else cont (Suc i), ?e1)"
    using assms by (simp add: bios_lists_def)
  have ig: "fst (es ! i) > 20 \<and> ACPI ?e1 AND 1 = 0 \<longleftrightarrow> ignored (es ! i)" by (auto simp: ignored_def)
  have us: "\<not> ignored (es ! i) \<Longrightarrow> Type ?e1 = 1 \<longleftrightarrow> usable (es ! i)" by (simp add: usable_def)
  have "BOOT_RAM_REGION_MAX - 1 = 9" by (simp add: BOOT_RAM_REGION_MAX_def)
  then show ?thesis
    using ig us by (intro exI [of _ ?e1] conjI) (subst detect_loop.simps, simp add: detect_round_def b Let_def, simp_all)
qed

lemma detect_loop_lists:
  assumes b: "bios_lists es cont bios" and last: "\<not> ignored (last es)"
  shows "i < length es \<Longrightarrow> recorded rs s \<Longrightarrow> length rs < 9 \<Longrightarrow>
    cstr (l_mem s) (l_sym s ''str_detected'') msg \<Longrightarrow>
    \<exists>s'. detect_loop bios k (cont i) e s = Some s' \<and> l_screen s' = l_screen s @ msg \<and>
      pc.truncate s' = pc.truncate s \<and> l_sym s' = l_sym s \<and> recorded (take 9 (rs @ map region_of (filter usable (drop i es)))) s'"
proof (induction "length es - i" arbitrary: i k e rs s)
  case 0
  then show ?case by simp
next
  case (Suc n)
  obtain e1 where st: "detect_loop bios k (cont i) e s =
    (let next = if Suc i = length es then 0 else cont (Suc i)
     in if ignored (es ! i) then detect_loop bios (k + 1) next e1 s
        else
          let s1 = (if usable (es ! i) then add_region e1 s else s)
          in if next = 0 \<or> bi_count (boot_info s1) = 9 then show_msg (l_sym s1 ''str_detected'') s1
             else detect_loop bios (k + 1) next e1 s1)"
    and e1: "BaseL e1 = BaseL (snd (es ! i))" "LengthL e1 = LengthL (snd (es ! i))"
    using detect_loop_step [OF b Suc.prems(1), of k e s] by blast
  have d: "drop i es = es ! i # drop (Suc i) es" using Suc.prems(1) by (simp add: Cons_nth_drop_Suc)
  have nx: "cont (Suc i) \<noteq> 0" if "Suc i < length es" using b that by (simp add: bios_lists_def)
  have n: "n = length es - Suc i" using Suc.hyps(2) by simp
  show ?case
  proof (cases "ignored (es ! i)")
    case True
    have "last es = es ! i" if "Suc i = length es"
      using that by (metis diff_Suc_1 last_conv_nth list.size(3) nat.distinct(1))
    then have "Suc i < length es" using Suc.prems(1) True last by (cases "Suc i = length es") auto
    then show ?thesis
      using Suc.hyps(1) [OF n _ Suc.prems(2-4)] True st d by (simp add: usable_def)
  next
    case False
    define s1 where "s1 = (if usable (es ! i) then add_region e1 s else s)"
    define rs1 where "rs1 = (if usable (es ! i) then rs @ [region_of (es ! i)] else rs)"
    have r1: "recorded rs1 s1" "pc.truncate s1 = pc.truncate s" "l_sym s1 = l_sym s" "l_screen s1 = l_screen s"
      using add_region_recorded [OF Suc.prems(2,3), of e1] Suc.prems(2) e1 by (auto simp: s1_def rs1_def region_of_def)
    have mem: "l_mem s1 = l_mem s" using r1(2) by (simp add: pc.truncate_def)
    have len: "length rs1 \<le> 9" and nine: "bi_count (boot_info s1) = 9 \<longleftrightarrow> length rs1 = 9"
      using r1(1) count_word [of "length rs1"] by (auto simp: recorded_def)
    have rs: "rs @ map region_of (filter usable (drop i es)) = rs1 @ map region_of (filter usable (drop (Suc i) es))"
      by (simp add: d rs1_def)
    have msg: "show_msg (l_sym s1 ''str_detected'') s1 = Some (s1\<lparr>l_screen := l_screen s1 @ msg\<rparr>)"
      using Suc.prems(4) r1 mem by (intro show_msg_cstr) simp
    have kept: "recorded rs1 (s1\<lparr>l_screen := x\<rparr>)" "pc.truncate (s1\<lparr>l_screen := x\<rparr>) = pc.truncate s" for x
      using r1(1,2) by (simp_all add: recorded_def pc.truncate_def)
    show ?thesis
    proof (cases "Suc i = length es \<or> length rs1 = 9")
      case True
      then have "take 9 (rs1 @ map region_of (filter usable (drop (Suc i) es))) = rs1" using len by auto
      moreover have "detect_loop bios k (cont i) e s = show_msg (l_sym s1 ''str_detected'') s1"
        using True False st nine by (auto simp: s1_def Let_def)
      ultimately show ?thesis using msg kept r1(3,4) unfolding rs by simp
    next
      case False2: False
      then have lt: "Suc i < length es" "length rs1 < 9" using Suc.prems(1) len by auto
      then have "detect_loop bios k (cont i) e s = detect_loop bios (k + 1) (cont (Suc i)) e1 s1"
        using False st nine nx by (simp add: s1_def Let_def)
      moreover have "cstr (l_mem s1) (l_sym s1 ''str_detected'') msg" using Suc.prems(4) r1 mem by simp
      ultimately show ?thesis
        using Suc.hyps(1) [OF n lt(1) r1(1) lt(2)] r1(2-4) unfolding rs by simp
    qed
  qed
qed

lemma detect_memory_lists:
  assumes "length (ram_region_info (boot_info s)) = 10" and "\<not> l_fault s"
    and "cstr (l_mem s) (l_sym s ''str_detecting'') m1" and "cstr (l_mem s) (l_sym s ''str_detected'') m2"
    and b: "bios_lists es cont bios" "\<not> ignored (last es)"
  shows "\<exists>s'. detect_memory bios e s = Some s' \<and> l_screen s' = l_screen s @ m1 @ m2 \<and>
    pc.truncate s' = pc.truncate s \<and> l_sym s' = l_sym s \<and> recorded (take 9 (map region_of (filter usable es))) s'"
proof -
  let ?s1 = "s\<lparr>l_screen := l_screen s @ m1\<rparr>"
  let ?s2 = "?s1\<lparr>boot_info := (boot_info ?s1)\<lparr>bi_count := 0\<rparr>\<rparr>"
  have "0 < length es" "cont 0 = 0" using b(1) by (auto simp: bios_lists_def)
  moreover have "recorded [] ?s2" using assms(1,2) by (simp add: recorded_def)
  moreover have "pc.truncate ?s2 = pc.truncate s" by (simp add: pc.truncate_def)
  ultimately show ?thesis
    using detect_loop_lists [OF b, of 0 "[]" ?s2 m2 0 e] show_msg_cstr [OF assms(3)] assms(4)
    by (simp add: detect_memory_def)
qed

text \<open>Whatever the BIOS answers, the array is never overrun.\<close>

definition in_bounds :: "nat \<Rightarrow> loader \<Rightarrow> bool" where
  "in_bounds n s \<longleftrightarrow> length (ram_region_info (boot_info s)) = 10 \<and> bi_count (boot_info s) = of_nat n \<and> \<not> l_fault s"

lemma show_msg_info:
  assumes "show_msg p s = Some s'"
  shows "boot_info s' = boot_info s \<and> l_fault s' = l_fault s"
proof (rule show_msg.raw_induct [where P = "\<lambda>p s s'. boot_info s' = boot_info s \<and> l_fault s' = l_fault s", OF _ assms])
  fix f :: "addr \<Rightarrow> loader \<Rightarrow> loader option" and p s s'
  assume ih: "\<And>p s s'. f p s = Some s' \<Longrightarrow> boot_info s' = boot_info s \<and> l_fault s' = l_fault s"
    and step: "(let c = l_mem s p in if c \<noteq> 0 then f (p + 1) (s\<lparr>l_screen := l_screen s @ [c]\<rparr>) else Some s) = Some s'"
  show "boot_info s' = boot_info s \<and> l_fault s' = l_fault s"
    using step ih [of "p + 1" "s\<lparr>l_screen := l_screen s @ [l_mem s p]\<rparr>" s'] by (simp add: Let_def split: if_splits)
qed

lemma add_region_bounds: "in_bounds n s \<Longrightarrow> n < 9 \<Longrightarrow> in_bounds (Suc n) (add_region e s)"
  using count_word [of n] by (simp add: in_bounds_def add_region_def Let_def add.commute)

lemma show_msg_bounds: "show_msg p s = Some s' \<Longrightarrow> in_bounds n s \<Longrightarrow> in_bounds n s'"
  using show_msg_info [of p s s'] by (simp add: in_bounds_def)

lemma detect_round_bounds:
  assumes "n < 9" and "in_bounds n s"
  shows "case detect_round bios k c e s of
      Inl (msg, s1) \<Rightarrow> \<exists>n'\<le>9. in_bounds n' s1 | Inr (c1, e1, s1) \<Rightarrow> \<exists>n'<9. in_bounds n' s1"
proof -
  obtain sg nb c1 e1 where bi: "bios k c e = (sg, nb, c1, e1)" by (cases "bios k c e") auto
  define s1 where "s1 = (if Type e1 = 1 then add_region e1 s else s)"
  define n1 where "n1 = (if Type e1 = 1 then Suc n else n)"
  have n1: "n1 \<le> 9" "in_bounds n1 s1" using assms add_region_bounds [OF assms(2,1), of e1] by (simp_all add: n1_def s1_def)
  then have "bi_count (boot_info s1) = 9 \<longleftrightarrow> n1 = 9" using count_word [of n1] by (simp add: in_bounds_def)
  moreover have "detect_round bios k c e s = (if sg \<noteq> 0x534D4150 then Inl (l_sym s ''str_failed'', s)
      else if nb > 20 \<and> ACPI e1 AND 1 = 0 then Inr (c1, e1, s)
      else if c1 = 0 \<or> bi_count (boot_info s1) = 9 then Inl (l_sym s1 ''str_detected'', s1) else Inr (c1, e1, s1))"
    by (simp add: detect_round_def bi s1_def BOOT_RAM_REGION_MAX_def Let_def)
  moreover have "n \<le> 9" using assms(1) by simp
  ultimately show ?thesis using n1 assms by (auto simp: le_less)
qed

lemma detect_loop_bounds:
  assumes "detect_loop bios k c e s = Some s'"
  shows "\<forall>n<9. in_bounds n s \<longrightarrow> (\<exists>n'\<le>9. in_bounds n' s')"
proof (rule detect_loop.raw_induct [where P = "\<lambda>bios k c e s s'. \<forall>n<9. in_bounds n s \<longrightarrow> (\<exists>n'\<le>9. in_bounds n' s')",
    OF _ assms], intro allI impI)
  fix f :: "bios \<Rightarrow> nat \<Rightarrow> uint32_t \<Rightarrow> SMAP_entry_t \<Rightarrow> loader \<Rightarrow> loader option" and bios k c e s s' and n :: nat
  assume ih: "\<And>bios k c e s s'. f bios k c e s = Some s' \<Longrightarrow> \<forall>n<9. in_bounds n s \<longrightarrow> (\<exists>n'\<le>9. in_bounds n' s')"
    and step: "(case detect_round bios k c e s of Inl (msg, s1) \<Rightarrow> show_msg msg s1
      | Inr (c1, e1, s1) \<Rightarrow> f bios (k + 1) c1 e1 s1) = Some s'"
    and n: "n < 9" "in_bounds n s"
  show "\<exists>n'\<le>9. in_bounds n' s'"
    using detect_round_bounds [OF n, of bios k c e] step show_msg_bounds ih
    by (cases "detect_round bios k c e s") (fastforce, fastforce)
qed

text \<open>The same for a loop that is not left.\<close>

lemma detect_after_bounds:
  "m < 9 \<Longrightarrow> in_bounds m s \<Longrightarrow> \<exists>n'\<le>9. in_bounds n' (detect_after n bios k c e s)"
proof (induction n arbitrary: k c e s m)
  case 0
  then show ?case by (auto intro: less_imp_le)
next
  case (Suc n)
  from detect_round_bounds [OF Suc.prems, of bios k c e] show ?case
    using Suc.IH by (cases "detect_round bios k c e s") auto
qed

section \<open>The whole 16-bit stage\<close>

lemma enter_protect_mode_keeps:
  "l_mem (enter_protect_mode s) = l_mem s" "l_inb (enter_protect_mode s) = l_inb s" "l_inw (enter_protect_mode s) = l_inw s"
  "l_screen (enter_protect_mode s) = l_screen s" "boot_info (enter_protect_mode s) = boot_info s"
  "l_fault (enter_protect_mode s) = l_fault s" "l_eip (enter_protect_mode s) = l_sym s ''protect_entry''"
  "bit (l_cr0 (enter_protect_mode s)) 0" "\<not> if_set (l_eflags (enter_protect_mode s))" "l_cs (enter_protect_mode s) = 8"
  by (simp_all add: enter_protect_mode_def pc_inb_def pc_outb_def write_cr0_def Let_def bit_simps)

lemma loader16_entry_lists:
  assumes "length (ram_region_info (boot_info s)) = 10" and "\<not> l_fault s"
    and "cstr (l_mem s) (l_sym s ''str_loading'') m0"
    and "cstr (l_mem s) (l_sym s ''str_detecting'') m1" and "cstr (l_mem s) (l_sym s ''str_detected'') m2"
    and b: "bios_lists es cont bios" "\<not> ignored (last es)"
  shows "\<exists>s'. loader16_entry bios e s = Some s' \<and> l_screen s' = l_screen s @ m0 @ m1 @ m2 \<and>
    recorded (take 9 (map region_of (filter usable es))) s' \<and> bit (l_cr0 s') 0 \<and> \<not> if_set (l_eflags s') \<and>
    l_eip s' = l_sym s ''protect_entry'' \<and> l_cs s' = 8 \<and> l_mem s' = l_mem s \<and> l_inb s' = l_inb s \<and> l_inw s' = l_inw s"
proof -
  let ?s1 = "s\<lparr>l_screen := l_screen s @ m0\<rparr>"
  obtain s2 where s2: "detect_memory bios e ?s1 = Some s2" "l_screen s2 = l_screen ?s1 @ m1 @ m2"
    "pc.truncate s2 = pc.truncate ?s1" "l_sym s2 = l_sym ?s1" "recorded (take 9 (map region_of (filter usable es))) s2"
    using detect_memory_lists [OF _ _ _ _ b, of ?s1 m1 m2 e] assms(1,2,4,5) by auto
  have "recorded rs (enter_protect_mode s2) = recorded rs s2" for rs by (simp add: recorded_def enter_protect_mode_keeps)
  then show ?thesis
    using s2 show_msg_cstr [OF assms(3)]
    by (intro exI [of _ "enter_protect_mode s2"]) (simp add: loader16_entry_def enter_protect_mode_keeps pc.truncate_def)
qed

section \<open>Properties\<close>

text \<open>C21. The memory map. When the BIOS lists the entries \<open>es\<close> and the last one is not one to be ignored,
  \<^verbatim>\<open>detect_memory\<close> returns with the usable entries recorded in order, the first nine of them if there are more,
  and both messages on the screen. Usable is what the code tests: type 1, and not ignored; ignored is an entry of more than
  20 bytes whose ACPI bit 0 is clear, although the comment in \<^verbatim>\<open>types.h\<close> says that this bit set means to ignore it.
  Whatever a BIOS answers, after any number of rounds of the loop, whether it is ever left or not, nothing was written
  outside the array and between 0 and 9 regions are recorded; the same holds when the function returns.\<close>

theorem detect_memory_correct:
  assumes "length (ram_region_info (boot_info s)) = 10" and "\<not> l_fault s"
    and "cstr (l_mem s) (l_sym s ''str_detecting'') m1" and "cstr (l_mem s) (l_sym s ''str_detected'') m2"
    and "start = s\<lparr>l_screen := l_screen s @ m1, boot_info := (boot_info s)\<lparr>bi_count := 0\<rparr>\<rparr>"
    and "bounded = (\<lambda>t :: loader. \<not> l_fault t \<and> 0 \<le> sint (bi_count (boot_info t)) \<and> sint (bi_count (boot_info t)) \<le> 9)"
  shows "(bios_lists es cont bios \<and> \<not> ignored (last es) \<longrightarrow>
      (\<exists>s'. detect_memory bios e s = Some s' \<and> l_screen s' = l_screen s @ m1 @ m2 \<and>
        recorded (take 9 (map region_of (filter usable es))) s')) \<and>
    detect_memory any e s = detect_loop any 0 0 e start \<and>
    bounded (detect_after n any 0 0 e start) \<and> (detect_memory any e s = Some t \<longrightarrow> bounded t)"
proof -
  have dm: "detect_memory b e s = detect_loop b 0 0 e start" for b
    using show_msg_cstr [OF assms(3)] assms(5) by (simp add: detect_memory_def)
  have z: "in_bounds 0 start" using assms(1,2,5) by (simp add: in_bounds_def)
  have b: "bounded t'" if "\<exists>n\<le>9. in_bounds n t'" for t'
    using that count_word by (auto simp: in_bounds_def assms(6))
  have "bounded (detect_after n any 0 0 e start)" using detect_after_bounds [OF _ z] by (intro b) simp
  moreover have "bounded t" if ret: "detect_memory any e s = Some t"
    using detect_loop_bounds [OF ret [unfolded dm], rule_format, OF _ z] by (intro b) simp
  ultimately show ?thesis using dm detect_memory_lists [OF assms(1-4), of es cont bios e] by blast
qed

text \<open>A BIOS that lists four entries of which one is reserved and one is to be ignored.\<close>

definition sample_map :: "(uint8_t \<times> SMAP_entry_t) list" where
  "sample_map =
    [(20, \<lparr>BaseL = 0, BaseH = 0, LengthL = 0x9FC00, LengthH = 0, Type = 1, ACPI = 0\<rparr>),
     (20, \<lparr>BaseL = 0xF0000, BaseH = 0, LengthL = 0x10000, LengthH = 0, Type = 2, ACPI = 0\<rparr>),
     (24, \<lparr>BaseL = 0xF0000, BaseH = 0, LengthL = 0x10000, LengthH = 0, Type = 1, ACPI = 0\<rparr>),
     (24, \<lparr>BaseL = 0x100000, BaseH = 0, LengthL = 0x7EE0000, LengthH = 0, Type = 1, ACPI = 1\<rparr>)]"

definition sample_bios :: bios where
  "sample_bios k c e =
    (let i = unat c; x = sample_map ! i
     in (0x534D4150, fst x, if Suc i = 4 then 0 else of_nat (Suc i),
         (snd x)\<lparr>ACPI := if fst x > 20 then ACPI (snd x) else ACPI e\<rparr>))"

definition sample_loader :: loader where
  "sample_loader = pc.extend (sample_pc\<lparr>l_mem := (\<lambda>a. if a = 0x9001 then 0 else 0xCC)\<rparr>)
    \<lparr>l_screen = [], boot_info = \<lparr>ram_region_info = replicate 10 \<lparr>ri_start = 0, ri_size = 0\<rparr>, bi_count = 0\<rparr>,
     l_eflags = 0x202, l_cr0 = 0x60000010, l_gdtr = (0, 0), l_cs = 0, l_eip = 0, l_fault = False, l_sym = (\<lambda>x. 0x9000)\<rparr>"

definition blank_entry :: SMAP_entry_t where
  "blank_entry = \<lparr>BaseL = 0, BaseH = 0, LengthL = 0, LengthH = 0, Type = 0, ACPI = 0\<rparr>"

lemma sample_loader_fields:
  "l_mem sample_loader = (\<lambda>a. if a = 0x9001 then 0 else 0xCC)" "l_sym sample_loader = (\<lambda>x. 0x9000)"
  "length (ram_region_info (boot_info sample_loader)) = 10" "\<not> l_fault sample_loader"
  "l_screen sample_loader = []" "l_cr0 sample_loader = 0x60000010"
  "pc.truncate sample_loader = sample_pc\<lparr>l_mem := (\<lambda>a. if a = 0x9001 then 0 else 0xCC)\<rparr>"
  by (simp_all add: sample_loader_def pc.extend_def pc.truncate_def sample_pc_def)

lemma sample_message: "cstr (l_mem sample_loader) (l_sym sample_loader x) [0xCC]"
  by (simp add: sample_loader_fields cstr_Cons cstr_Nil)

lemma sample_bios_lists: "bios_lists sample_map of_nat sample_bios"
proof -
  have "unat (of_nat i :: uint32_t) = i \<and> (of_nat i = (0 :: uint32_t) \<longleftrightarrow> i = 0)" if "i < 4" for i
    using that of_nat_addr_inj [of i 0] by (simp add: unat_of_nat)
  moreover have "length sample_map = 4" by (simp add: sample_map_def)
  ultimately show ?thesis by (auto simp: bios_lists_def sample_bios_def Let_def)
qed

lemma sample_map_last: "\<not> ignored (last sample_map)"
  by (simp add: sample_map_def ignored_def)

lemma sample_map_usable: "map region_of (filter usable sample_map) =
  [\<lparr>ri_start = 0, ri_size = 0x9FC00\<rparr>, \<lparr>ri_start = 0x100000, ri_size = 0x7EE0000\<rparr>]"
  by (simp add: sample_map_def usable_def ignored_def region_of_def)

theorem detect_memory_correct_witness:
  "\<exists>s'. detect_memory sample_bios blank_entry sample_loader = Some s' \<and> bi_count (boot_info s') = 2 \<and>
    take 2 (ram_region_info (boot_info s')) =
      [\<lparr>ri_start = 0, ri_size = 0x9FC00\<rparr>, \<lparr>ri_start = 0x100000, ri_size = 0x7EE0000\<rparr>]"
  using detect_memory_correct [OF sample_loader_fields(3,4) sample_message sample_message refl refl,
      of sample_map of_nat sample_bios blank_entry, THEN conjunct1]
    sample_bios_lists sample_map_last by (auto simp: sample_map_usable recorded_def numeral_2_eq_2)

text \<open>The descriptor that four words of the table hold.\<close>

definition desc_of :: "uint16_t list \<Rightarrow> segment_desc_t" where
  "desc_of ws = \<lparr>limit15_0 = ws ! 0, base15_0 = ws ! 1, base23_16 = ucast (ws ! 2),
     attr = ucast (drop_bit 8 (ws ! 2)) OR push_bit 8 (ucast (ws ! 3)), base31_24 = ucast (drop_bit 8 (ws ! 3))\<rparr>"

text \<open>A segment as the processor reads its descriptor: present, of privilege 0, a 32-bit segment of code or data that covers
  the 4 GB from address 0. Bit 3 of the attributes tells code (here not conforming, and readable) from data (here growing
  upwards, and writable).\<close>

definition flat :: "segment_desc_t \<Rightarrow> bool" where
  "flat d \<longleftrightarrow> desc_base d = 0 \<and> desc_last d = 0xFFFFFFFF \<and> bit (attr d) 7 \<and> \<not> bit (attr d) 6 \<and> \<not> bit (attr d) 5 \<and>
     bit (attr d) 4 \<and> bit (attr d) 14"

definition flat_code :: "segment_desc_t \<Rightarrow> bool" where
  "flat_code d \<longleftrightarrow> flat d \<and> bit (attr d) 3 \<and> \<not> bit (attr d) 2 \<and> bit (attr d) 1"

definition flat_data :: "segment_desc_t \<Rightarrow> bool" where
  "flat_data d \<longleftrightarrow> flat d \<and> \<not> bit (attr d) 3 \<and> \<not> bit (attr d) 2 \<and> bit (attr d) 1"

lemma gdt_table16_entries:
  "gdt_table16 ! 0 = [0, 0, 0, 0]" "flat_code (desc_of (gdt_table16 ! Suc 0))" "flat_data (desc_of (gdt_table16 ! 2))"
  by (simp_all add: flat_code_def flat_data_def flat_def gdt_table16_def desc_of_def desc_base_def desc_last_def
      desc_limit_def desc_gran_def)

text \<open>C35. Protected mode. \<^verbatim>\<open>enter_protect_mode\<close> leaves interrupts off, the A20 gate open with the other
  bits of its port kept, the table register on the three descriptors of the loader, of which the first is null, the second a
  code segment (readable) and the third a data segment (writable), both present, of privilege 0, 32-bit and covering the whole 4 GB from
  address 0; protection is on, and execution is at the 32-bit entry with the code segment selected. Because \<^verbatim>\<open>read_cr0\<close>
  returns a byte, the upper 24 bits of the control register are cleared. Nothing else of the loader's state changes.\<close>

theorem enter_protect_mode_correct:
  assumes "s' = enter_protect_mode s"
  shows "\<not> if_set (l_eflags s') \<and> l_cr0 s' = (l_cr0 s AND 0xFF) OR 1 \<and>
    l_eip s' = l_sym s ''protect_entry'' \<and>
    l_io s' = l_io s @ [PIn 0x92, POut 0x92 (l_inb s (l_io s) 0x92 OR 2)] \<and>
    l_gdtr s' = (l_sym s ''gdt_table'', 23) \<and>
    gdt_table16 ! 0 = [0, 0, 0, 0] \<and> l_cs s' = 8 \<and> sel_index (l_cs s') = 1 \<and>
    flat_code (desc_of (gdt_table16 ! 1)) \<and> flat_data (desc_of (gdt_table16 ! 2)) \<and>
    s' = s\<lparr>l_eflags := l_eflags s', l_cr0 := l_cr0 s', l_eip := l_eip s', l_cs := 8, l_io := l_io s', l_gdtr := l_gdtr s'\<rparr>"
proof -
  have ff: "ucast (ucast (w :: uint32_t) :: uint8_t) = w AND 0xFF" for w
    by (rule bit_word_eqI) (auto simp: bit_simps)
  show ?thesis
    unfolding assms enter_protect_mode_def
    by (simp add: pc_inb_def pc_outb_def write_cr0_def read_cr0_def ff pseudo_desc_simp gdt_table16_entries sel_index_def
        drop_bit_eq_div Let_def)
      (simp add: gdt_table16_def)
qed

theorem enter_protect_mode_correct_witness:
  "l_cr0 (enter_protect_mode sample_loader) = 0x11 \<and> l_cs (enter_protect_mode sample_loader) = 8"
  using enter_protect_mode_correct [OF refl, of sample_loader] by (simp add: sample_loader_fields)

end
