(* ===== verification/Start.thy ===== *)
theory Start
  imports Asm Loader16
begin

text \<open>
  The remaining assembly: the boot sector \<^verbatim>\<open>src/source/boot/start.S\<close>, the 32-bit entry of the loader
  \<^verbatim>\<open>src/source/loader/start.S\<close>, the entry of the kernel and the coroutine switch \<^verbatim>\<open>simple_switch\<close> of
  \<^verbatim>\<open>src/source/kernel/init/start.S\<close>. The disk service of the BIOS is a parameter.
\<close>

section \<open>The boot sector\<close>

record real_mode =
  r_ax :: uint16_t
  r_bx :: uint16_t
  r_cx :: uint16_t
  r_dx :: uint16_t
  r_sp :: uint16_t
  r_ip :: uint16_t
  r_seg :: "sreg \<Rightarrow> uint16_t"
  r_cf :: bool
  r_mem :: memory

definition LOADER_ADDR :: uint16_t where "LOADER_ADDR = 0x8000"

text \<open>The \<open>n\<close>-th call of the disk service is \<open>int13 n\<close>. \<^verbatim>\<open>_start\<close> is the address the sector is linked at.\<close>

definition boot_setup :: "uint16_t \<Rightarrow> real_mode \<Rightarrow> real_mode" where
  "boot_setup start s = s\<lparr>r_ax := 0, r_cf := False,
     r_seg := (r_seg s)(DS := 0, SS := 0, ES := 0, FS := 0, GS := 0), r_sp := start\<rparr>"

definition read_request :: "real_mode \<Rightarrow> real_mode" where
  "read_request s = s\<lparr>r_bx := 0x8000, r_ax := 0x0240, r_cx := 2, r_dx := 0x0080\<rparr>"

partial_function (option) read_loader :: "(nat \<Rightarrow> real_mode \<Rightarrow> real_mode) \<Rightarrow> nat \<Rightarrow> real_mode \<Rightarrow> real_mode option" where
  "read_loader int13 n s =
    (let s1 = int13 n (read_request s)
     in if r_cf s1 then read_loader int13 (Suc n) s1 else Some (s1\<lparr>r_ip := LOADER_ADDR\<rparr>))"

definition boot_sector :: "uint16_t \<Rightarrow> (nat \<Rightarrow> real_mode \<Rightarrow> real_mode) \<Rightarrow> real_mode \<Rightarrow> real_mode option" where
  "boot_sector start int13 s = read_loader int13 0 (boot_setup start s)"

text \<open>The documented behaviour of service 2 for head 0 and cylinder 0 of the first hard disk: the carry flag tells failure,
  registers other than \<^verbatim>\<open>ax\<close> are kept, nothing outside the buffer is written, and after success the buffer holds the
  sectors, counted from 1.\<close>

definition buffer_addr :: "real_mode \<Rightarrow> addr" where
  "buffer_addr s = push_bit 4 (ucast (r_seg s ES)) + ucast (r_bx s)"

definition bios_disk :: "(nat \<Rightarrow> uint8_t) \<Rightarrow> (nat \<Rightarrow> real_mode \<Rightarrow> real_mode) \<Rightarrow> bool" where
  "bios_disk disk int13 \<longleftrightarrow> (\<forall>n s. r_ax s = 0x0240 \<and> r_dx s = 0x0080 \<and> r_cx s < 64 \<longrightarrow>
     (let s' = int13 n s
      in r_bx s' = r_bx s \<and> r_cx s' = r_cx s \<and> r_dx s' = r_dx s \<and> r_sp s' = r_sp s \<and> r_seg s' = r_seg s \<and>
         (\<forall>x. x \<notin> region (buffer_addr s) (512 * 64) \<longrightarrow> r_mem s' x = r_mem s x) \<and>
         (\<not> r_cf s' \<longrightarrow> (\<forall>i<512 * 64. r_mem s' (buffer_addr s + of_nat i) = disk (512 * (unat (r_cx s) - 1) + i)))))"

text \<open>The number of attempts that fail depends on the machine only through the number of the call.\<close>

definition fails :: "(nat \<Rightarrow> real_mode \<Rightarrow> real_mode) \<Rightarrow> nat \<Rightarrow> bool" where
  "fails int13 n \<longleftrightarrow> (\<forall>s. r_cf (int13 n s))"

definition works :: "(nat \<Rightarrow> real_mode \<Rightarrow> real_mode) \<Rightarrow> nat \<Rightarrow> bool" where
  "works int13 n \<longleftrightarrow> (\<forall>s. \<not> r_cf (int13 n s))"

definition loader_in_place :: "(nat \<Rightarrow> uint8_t) \<Rightarrow> memory \<Rightarrow> memory \<Rightarrow> bool" where
  "loader_in_place disk m m' \<longleftrightarrow> (\<forall>i<512 * 64. m' (0x8000 + of_nat i) = disk (512 + i)) \<and>
     (\<forall>x. x \<notin> region 0x8000 (512 * 64) \<longrightarrow> m' x = m x)"

lemma bios_request:
  assumes "bios_disk disk int13" and "r_seg s ES = 0"
  shows "r_seg (int13 n (read_request s)) = r_seg s" "r_sp (int13 n (read_request s)) = r_sp s"
    "\<forall>x. x \<notin> region 0x8000 (512 * 64) \<longrightarrow> r_mem (int13 n (read_request s)) x = r_mem s x"
    "\<not> r_cf (int13 n (read_request s)) \<longrightarrow> (\<forall>i<512 * 64. r_mem (int13 n (read_request s)) (0x8000 + of_nat i) = disk (512 + i))"
proof -
  have b: "buffer_addr (read_request s) = 0x8000" using assms(2) by (simp add: buffer_addr_def read_request_def)
  show "r_seg (int13 n (read_request s)) = r_seg s" "r_sp (int13 n (read_request s)) = r_sp s"
    "\<forall>x. x \<notin> region 0x8000 (512 * 64) \<longrightarrow> r_mem (int13 n (read_request s)) x = r_mem s x"
    "\<not> r_cf (int13 n (read_request s)) \<longrightarrow> (\<forall>i<512 * 64. r_mem (int13 n (read_request s)) (0x8000 + of_nat i) = disk (512 + i))"
    using assms(1) [unfolded bios_disk_def, rule_format, of "read_request s" n] unfolding b Let_def
    by (simp_all add: read_request_def del: region.simps)
qed

lemma read_loader_works:
  assumes "bios_disk disk int13" and "\<forall>j<k. fails int13 (n + j)" and "works int13 (n + k)" and "r_seg s ES = 0"
  shows "\<exists>s'. read_loader int13 n s = Some s' \<and> r_ip s' = 0x8000 \<and> r_seg s' = r_seg s \<and> r_sp s' = r_sp s \<and>
    loader_in_place disk (r_mem s) (r_mem s')"
  using assms(2-4)
proof (induction k arbitrary: n s)
  case 0
  let ?s = "int13 n (read_request s)"
  have w: "\<not> r_cf ?s" using 0 by (simp add: works_def)
  then show ?case using bios_request [OF assms(1) 0(3), of n] by (subst read_loader.simps) (simp add: LOADER_ADDR_def loader_in_place_def del: region.simps)
next
  case (Suc k)
  let ?s = "int13 n (read_request s)"
  have f: "r_cf ?s" using Suc.prems(1) [rule_format, of 0] by (simp add: fails_def)
  note r = bios_request(1-3) [OF assms(1) Suc.prems(3), of n]
  have "\<forall>j<k. fails int13 (Suc n + j)" using Suc.prems(1) by auto
  moreover have "works int13 (Suc n + k)" using Suc.prems(2) by simp
  ultimately obtain s' where "read_loader int13 (Suc n) ?s = Some s'" "r_ip s' = 0x8000" "r_seg s' = r_seg ?s"
    "r_sp s' = r_sp ?s" "loader_in_place disk (r_mem ?s) (r_mem s')"
    using Suc.IH [of "Suc n" ?s] Suc.prems(3) r(1) by auto
  then show ?case using f r by (subst read_loader.simps) (auto simp: loader_in_place_def simp del: region.simps)
qed

text \<open>Any run that ends has loaded the sectors.\<close>

lemma read_loader_loads:
  assumes "read_loader int13 n s = Some s'" and "bios_disk disk int13" and "r_seg s ES = 0"
  shows "r_ip s' = 0x8000 \<and> loader_in_place disk (r_mem s) (r_mem s')"
proof -
  let ?P = "\<lambda>i n s s'. bios_disk disk i \<longrightarrow> r_seg s ES = 0 \<longrightarrow> r_ip s' = 0x8000 \<and> loader_in_place disk (r_mem s) (r_mem s')"
  have "?P int13 n s s'"
  proof (rule read_loader.raw_induct [where P = ?P, OF _ assms(1)], intro impI)
    fix f :: "(nat \<Rightarrow> real_mode \<Rightarrow> real_mode) \<Rightarrow> nat \<Rightarrow> real_mode \<Rightarrow> real_mode option" and i :: "nat \<Rightarrow> real_mode \<Rightarrow> real_mode" and n s s'
    let ?s = "i n (read_request s)"
    assume ih: "\<And>i n s s'. f i n s = Some s' \<Longrightarrow> ?P i n s s'"
      and st: "(let s1 = ?s in if r_cf s1 then f i (Suc n) s1 else Some (s1\<lparr>r_ip := LOADER_ADDR\<rparr>)) = Some s'"
      and b: "bios_disk disk i" and z: "r_seg s ES = 0"
    show "r_ip s' = 0x8000 \<and> loader_in_place disk (r_mem s) (r_mem s')"
    proof (cases "r_cf ?s")
      case True
      then have "?P i (Suc n) ?s s'" using st ih by simp
      then show ?thesis using bios_request [OF b z, of n] b z by (auto simp: loader_in_place_def simp del: region.simps)
    next
      case False
      then have "s' = ?s\<lparr>r_ip := LOADER_ADDR\<rparr>" using st by simp
      then show ?thesis using bios_request [OF b z, of n] False
        by (simp add: LOADER_ADDR_def loader_in_place_def del: region.simps)
    qed
  qed
  then show ?thesis using assms(2,3) by simp
qed

lemma read_loader_hangs:
  assumes "\<forall>n. fails int13 n"
  shows "read_loader int13 n s = None"
proof (rule ccontr)
  assume "read_loader int13 n s \<noteq> None"
  then obtain s' where "read_loader int13 n s = Some s'" by auto
  then show False
  proof (rule read_loader.raw_induct [where P = "\<lambda>i n s s'. i = int13 \<longrightarrow> False", THEN mp, OF _ _ refl, rotated])
    fix f :: "(nat \<Rightarrow> real_mode \<Rightarrow> real_mode) \<Rightarrow> nat \<Rightarrow> real_mode \<Rightarrow> real_mode option" and i n s s'
    assume ih: "\<And>i n s s'. f i n s = Some s' \<Longrightarrow> i = int13 \<longrightarrow> False"
      and st: "(let s1 = i n (read_request s) in if r_cf s1 then f i (Suc n) s1 else Some (s1\<lparr>r_ip := LOADER_ADDR\<rparr>)) = Some s'"
    show "i = int13 \<longrightarrow> False"
      using ih [of i] st assms by (auto simp: Let_def fails_def split: if_splits)
  qed
qed

section \<open>The 32-bit entry of the loader\<close>

definition protect_entry :: "instr list" where
  "protect_entry = [Mov_imm16 16 EAX, Mov_seg EAX DS, Mov_seg EAX SS, Mov_seg EAX ES, Mov_seg EAX FS, Mov_seg EAX GS,
     Ljmp 8 ''load_kernel'']"

lemma protect_entry_state:
  "exec e protect_entry c = c\<lparr>gpr := (gpr c)(EAX := gpr c EAX AND NOT 0xFFFF OR 16),
     sgr := (\<lambda>r. if r = CS then 8 else 16), eip := sym e ''load_kernel''\<rparr>"
proof -
  have m: "(0xFFFF :: uint32_t) = mask 16" by (simp add: mask_eq_exp_minus_1)
  have "(ucast (x AND NOT 0xFFFF OR 16 :: uint32_t) :: uint16_t) = 16" for x
    unfolding m by (rule bit_word_eqI) (auto simp: bit_simps)
  moreover have "(sgr c)(DS := 16, SS := 16, ES := 16, FS := 16, GS := 16, CS := 8) = (\<lambda>r. if r = CS then 8 else 16)"
  proof (rule ext)
    show "((sgr c)(DS := 16, SS := 16, ES := 16, FS := 16, GS := 16, CS := 8)) r = (if r = CS then 8 else 16)" for r
      by (cases r) simp_all
  qed
  ultimately show ?thesis by (simp add: protect_entry_def set_reg_def)
qed

text \<open>The code segment register then selects the flat code segment of the loader's table and all others its data segment.\<close>

lemma protect_entry_flat:
  fixes c :: cpu and e :: env
  defines "d \<equiv> \<lambda>r. desc_of (gdt_table16 ! sel_index (sgr (exec e protect_entry c) r))"
  shows "eip (exec e protect_entry c) = sym e ''load_kernel''" "ram (exec e protect_entry c) = ram c"
    "flg (exec e protect_entry c) = flg c" "if r = CS then flat_code (d r) else flat_data (d r)"
  unfolding d_def protect_entry_state by (simp_all add: sel_index_def drop_bit_eq_div gdt_table16_entries)

section \<open>The entry of the kernel\<close>

definition KERNEL_STACK_SIZE :: uint32_t where "KERNEL_STACK_SIZE = 8 * 1024"

definition kernel_start :: "env \<Rightarrow> instr list" where
  "kernel_start e = [Load 4 ESP EAX, Push_reg EAX, Call ''kernel_init'',
     Mov_imm (sym e ''stack'' + KERNEL_STACK_SIZE) ESP, Jmp ''init_main'']"

text \<open>\<^verbatim>\<open>kernel_init\<close> is called with the argument the loader passed, and \<^verbatim>\<open>init_main\<close> starts on the kernel's own stack.\<close>

lemma kernel_start_runs:
  assumes "stack c [ret, info]"
  shows "\<exists>c1. stack c1 [sym e ''after_kernel_init'', info, ret, info] \<and> sgr c1 = sgr c \<and>
    exec e (kernel_start e) c = (set_reg ESP (sym e ''stack'' + 8192) (cfun e ''kernel_init'' c1))\<lparr>eip := sym e ''init_main''\<rparr>"
proof -
  let ?c1 = "push info (set_reg EAX info c)"
  let ?c2 = "push (sym e ''after_kernel_init'') ?c1"
  have l: "mem_word (ram c) (gpr c ESP + 4) = info" using assms by (simp add: stack_def)
  have "stack (set_reg EAX info c) [ret, info]" using assms by (simp add: stack_def)
  then have "stack ?c1 [info, ret, info]" by (rule stack_push) simp
  then have "stack ?c2 [sym e ''after_kernel_init'', info, ret, info]" by (rule stack_push) simp
  moreover have "exec e (kernel_start e) c =
      (set_reg ESP (sym e ''stack'' + 8192) (cfun e ''kernel_init'' ?c2))\<lparr>eip := sym e ''init_main''\<rparr>"
    by (simp add: kernel_start_def l KERNEL_STACK_SIZE_def)
  ultimately show ?thesis by (intro exI [of _ ?c2]) simp
qed

section \<open>The coroutine switch\<close>

definition simple_switch :: "instr list" where
  "simple_switch = [Load 4 ESP EAX, Load 8 ESP EDX, Push_reg EBP, Push_reg EBX, Push_reg ESI, Push_reg EDI,
     Store ESP EAX, Mov_reg EDX ESP, Pop_reg EDI, Pop_reg ESI, Pop_reg EBX, Pop_reg EBP, Ret]"

text \<open>A context parked at an address: the four registers a callee must keep, and where to go on.\<close>

definition parked_context :: "memory \<Rightarrow> addr \<Rightarrow> cpu \<Rightarrow> uint32_t \<Rightarrow> bool" where
  "parked_context m p c ret \<longleftrightarrow> words_at m p [gpr c EDI, gpr c ESI, gpr c EBX, gpr c EBP, ret]"

text \<open>The machine in the middle of the switch: the context is on its stack and the pointer to it is stored.\<close>

definition suspended :: "env \<Rightarrow> cpu \<Rightarrow> cpu" where
  "suspended e c = exec e (take 7 simple_switch) c"

lemma suspended_parks:
  assumes "stack c [ret, from, to]" and "region from 4 \<inter> region (gpr c ESP - 16) 20 = {}"
  shows "parked_context (ram (suspended e c)) (gpr c ESP - 16) c ret" "mem_word (ram (suspended e c)) from = gpr c ESP - 16"
    "gpr (suspended e c) EDX = to"
proof -
  have l: "mem_word (ram c) (gpr c ESP + 4) = from" "mem_word (ram c) (gpr c ESP + 8) = to"
    using assms(1) by (simp_all add: stack_def add.assoc)
  define c1 where "c1 = set_reg EDX to (set_reg EAX from c)"
  define c2 where "c2 = push (gpr c EDI) (push (gpr c ESI) (push (gpr c EBX) (push (gpr c EBP) c1)))"
  have s: "suspended e c = c2\<lparr>ram := store_word (ram c2) from (gpr c ESP - 16)\<rparr>"
    by (simp add: suspended_def simple_switch_def c1_def c2_def l)
  have "stack c1 [ret]" using assms(1) by (simp add: c1_def stack_def)
  then have "stack (push (gpr c EBP) c1) [gpr c EBP, ret]" by (rule stack_push) simp
  then have "stack (push (gpr c EBX) (push (gpr c EBP) c1)) [gpr c EBX, gpr c EBP, ret]" by (rule stack_push) simp
  then have "stack (push (gpr c ESI) (push (gpr c EBX) (push (gpr c EBP) c1))) [gpr c ESI, gpr c EBX, gpr c EBP, ret]"
    by (rule stack_push) simp
  then have "stack c2 [gpr c EDI, gpr c ESI, gpr c EBX, gpr c EBP, ret]" unfolding c2_def by (rule stack_push) simp
  moreover have "gpr c2 ESP = gpr c ESP - 16" by (simp add: c2_def c1_def)
  ultimately have w: "words_at (ram c2) (gpr c ESP - 16) [gpr c EDI, gpr c ESI, gpr c EBX, gpr c EBP, ret]"
    by (simp only: stack_def)
  have "{from, from + 1, from + 2, from + 3} = region from 4" by (simp add: numeral_eq_Suc add.assoc)
  then have k: "store_word (ram c2) from (gpr c ESP - 16) x = ram c2 x" if "x \<in> region (gpr c ESP - 16) 20" for x
    using assms(2) that by (auto simp: store_word_def simp del: region.simps)
  define ws where "ws = [gpr c EDI, gpr c ESI, gpr c EBX, gpr c EBP, ret]"
  have n: "4 * length ws = 20" by (simp add: ws_def)
  have "words_at (store_word (ram c2) from (gpr c ESP - 16)) (gpr c ESP - 16) ws \<longleftrightarrow> words_at (ram c2) (gpr c ESP - 16) ws"
    by (rule words_at_cong) (unfold n, rule k)
  then show "parked_context (ram (suspended e c)) (gpr c ESP - 16) c ret"
    using w unfolding s parked_context_def ws_def [symmetric] by simp
  show "mem_word (ram (suspended e c)) from = gpr c ESP - 16" "gpr (suspended e c) EDX = to"
    unfolding s by (simp_all add: c2_def c1_def)
qed

lemma switch_resumes:
  assumes "parked_context (ram (suspended e c)) (gpr (suspended e c) EDX) b ret" and "c' = exec e simple_switch c"
  shows "eip c' = ret" "gpr c' ESP = gpr (suspended e c) EDX + 20" "gpr c' EDI = gpr b EDI" "gpr c' ESI = gpr b ESI"
    "gpr c' EBX = gpr b EBX" "gpr c' EBP = gpr b EBP" "ram c' = ram (suspended e c)"
proof -
  define d where "d = suspended e c"
  have "simple_switch = take 7 simple_switch @ [Mov_reg EDX ESP, Pop_reg EDI, Pop_reg ESI, Pop_reg EBX, Pop_reg EBP, Ret]"
    by (simp add: simple_switch_def)
  then have "c' = exec e [Mov_reg EDX ESP, Pop_reg EDI, Pop_reg ESI, Pop_reg EBX, Pop_reg EBP, Ret] d"
    unfolding assms(2) d_def suspended_def by (metis exec_append)
  then show "eip c' = ret" "gpr c' ESP = gpr (suspended e c) EDX + 20" "gpr c' EDI = gpr b EDI" "gpr c' ESI = gpr b ESI"
    "gpr c' EBX = gpr b EBX" "gpr c' EBP = gpr b EBP" "ram c' = ram (suspended e c)"
    using assms(1) unfolding d_def [symmetric] by (simp_all add: parked_context_def top_word_def add.assoc)
qed

text \<open>A switch writes nothing but the parked context and the pointer to it.\<close>

lemma store_word_other: "x \<notin> region a 4 \<Longrightarrow> store_word m a v x = m x"
  by (auto simp: store_word_def numeral_eq_Suc add.assoc)

lemma four_words: "region (a - 16) 16 = region (a - 16) 4 \<union> region (a - 12) 4 \<union> region (a - 8) 4 \<union> region (a - 4) 4"
proof -
  have "region (a - 16) (4 + (4 + (4 + 4))) = region (a - 16) 4 \<union> region (a - 12) 4 \<union> region (a - 8) 4 \<union> region (a - 4) 4"
    unfolding region_append by (simp add: Un_assoc del: region.simps)
  then show ?thesis by (simp del: region.simps region_append)
qed

lemma suspended_frame:
  assumes "x \<notin> region (gpr c ESP - 16) 16" and "x \<notin> region (mem_word (ram c) (gpr c ESP + 4)) 4"
  shows "ram (suspended e c) x = ram c x"
proof -
  have "x \<notin> region (gpr c ESP - 16) 4" "x \<notin> region (gpr c ESP - 12) 4" "x \<notin> region (gpr c ESP - 8) 4" "x \<notin> region (gpr c ESP - 4) 4"
    using assms(1) unfolding four_words by blast+
  moreover have "ram (push v d) = store_word (ram d) (gpr d ESP - 4) v" for v d by (simp add: push_def Let_def)
  ultimately show ?thesis using assms(2) by (simp add: suspended_def simple_switch_def store_word_other del: region.simps)
qed

section \<open>Properties\<close>

text \<open>C23. The boot sector. With a BIOS whose disk service behaves as documented, the boot sector retries as often as
  the service fails; once it works, the sector jumps to \<^verbatim>\<open>0x8000\<close> with the 64 sectors of the loader there, memory elsewhere
  as it was, the data segments zero and the stack right below the sector. If the service never works, the sector never
  ends.\<close>

theorem boot_sector_loads:
  assumes "bios_disk disk int13"
  shows "(\<forall>k. (\<forall>j<k. fails int13 j) \<and> works int13 k \<longrightarrow>
      (\<exists>s'. boot_sector start int13 s = Some s' \<and> r_ip s' = 0x8000 \<and> r_sp s' = start \<and> (\<forall>r. r \<noteq> CS \<longrightarrow> r_seg s' r = 0) \<and>
        loader_in_place disk (r_mem s) (r_mem s'))) \<and>
    ((\<forall>n. fails int13 n) \<longrightarrow> boot_sector start int13 s = None)"
proof (intro conjI allI impI)
  let ?s = "boot_setup start s"
  have s: "r_seg ?s ES = 0" "r_sp ?s = start" "r_mem ?s = r_mem s" by (simp_all add: boot_setup_def)
  have seg: "r_seg ?s r = 0" if "r \<noteq> CS" for r using that by (cases r) (simp_all add: boot_setup_def)
  show "boot_sector start int13 s = None" if "\<forall>n. fails int13 n"
    using read_loader_hangs [OF that] by (simp add: boot_sector_def)
  fix k assume "(\<forall>j<k. fails int13 j) \<and> works int13 k"
  then obtain s' where "read_loader int13 0 ?s = Some s'" "r_ip s' = 0x8000" "r_seg s' = r_seg ?s" "r_sp s' = r_sp ?s"
    "loader_in_place disk (r_mem ?s) (r_mem s')"
    using read_loader_works [OF assms, of k 0 ?s] s(1) by auto
  then show "\<exists>s'. boot_sector start int13 s = Some s' \<and> r_ip s' = 0x8000 \<and> r_sp s' = start \<and> (\<forall>r. r \<noteq> CS \<longrightarrow> r_seg s' r = 0) \<and>
        loader_in_place disk (r_mem s) (r_mem s')"
    using s seg by (simp add: boot_sector_def)
qed

text \<open>A disk service that fails twice, and a machine.\<close>

definition sample_int13 :: "nat \<Rightarrow> real_mode \<Rightarrow> real_mode" where
  "sample_int13 n s = (if n < 2 then s\<lparr>r_cf := True\<rparr>
     else s\<lparr>r_cf := False, r_mem := (\<lambda>x. let i = unat (x - buffer_addr s)
       in if i < 512 * 64 then of_nat (512 * (unat (r_cx s) - 1) + i) else r_mem s x)\<rparr>)"

definition sample_real :: real_mode where
  "sample_real = \<lparr>r_ax = 0, r_bx = 0, r_cx = 0, r_dx = 0, r_sp = 0, r_ip = 0x7C00, r_seg = (\<lambda>_. 0x40), r_cf = False,
     r_mem = (\<lambda>_. 0)\<rparr>"

lemma region_offset: "x \<notin> region a n \<Longrightarrow> \<not> unat (x - a) < n"
proof
  assume x: "x \<notin> region a n" and "unat (x - a) < n"
  moreover have "x = a + of_nat (unat (x - a))" by simp
  ultimately show False by (metis (no_types, lifting) region_eq imageI lessThan_iff)
qed

lemma sample_bios_disk: "bios_disk of_nat sample_int13"
  by (auto simp: bios_disk_def sample_int13_def Let_def unat_of_nat dest: region_offset simp del: region.simps)

lemma sample_boot_sector:
  "\<exists>s'. boot_sector 0x7C00 sample_int13 sample_real = Some s' \<and> loader_in_place of_nat (r_mem sample_real) (r_mem s')"
proof -
  have f: "\<forall>j<2. fails sample_int13 (0 + j)" "works sample_int13 (0 + 2)" by (simp_all add: fails_def works_def sample_int13_def)
  have s: "r_seg (boot_setup 0x7C00 sample_real) ES = 0" "r_mem (boot_setup 0x7C00 sample_real) = r_mem sample_real"
    by (simp_all add: boot_setup_def)
  from read_loader_works [OF sample_bios_disk f s(1)] show ?thesis unfolding boot_sector_def s(2) by blast
qed

theorem boot_sector_loads_witness:
  "\<exists>s'. boot_sector 0x7C00 sample_int13 sample_real = Some s' \<and> r_ip s' = 0x8000 \<and> r_mem s' 0x8003 = 3 \<and> r_mem s' 0x7FFF = 0"
proof -
  have "(\<forall>j<2. fails sample_int13 j) \<and> works sample_int13 2" by (simp add: fails_def works_def sample_int13_def)
  then obtain s' where s': "boot_sector 0x7C00 sample_int13 sample_real = Some s'" "r_ip s' = 0x8000"
    "loader_in_place of_nat (r_mem sample_real) (r_mem s')"
    using boot_sector_loads [OF sample_bios_disk, THEN conjunct1] by blast
  have "region 0x7FFF 1 \<inter> region 0x8000 (512 * 64) = {}" by (rule region_apart) simp
  then have o: "0x7FFF \<notin> region 0x8000 (512 * 64)" by (simp del: region.simps(2) add: region.simps(2) [of "0x7FFF" 0])
  have "r_mem s' (0x8000 + of_nat 3) = of_nat (512 + 3)"
    using s'(3) [unfolded loader_in_place_def, THEN conjunct1, rule_format, of 3] by simp
  moreover have "r_mem s' 0x7FFF = r_mem sample_real 0x7FFF"
    using s'(3) [unfolded loader_in_place_def, THEN conjunct2, rule_format, OF o] .
  ultimately show ?thesis using s' by (simp add: sample_real_def)
qed

text \<open>Switching away and back. \<^verbatim>\<open>simple_switch\<close> called by \<open>a\<close> parks its context on its stack and stores the pointer to
  it. If later \<open>b\<close> switches to that pointer, with the parked words unchanged and its own stack and pointer elsewhere, then
  execution goes on behind the call of \<open>a\<close>, with the registers a callee must keep and the stack pointer as that call
  should leave them, and now \<open>b\<close> is parked in the same way.\<close>

lemma switch_roundtrip:
  assumes "stack a [ret_a, from_a, to_a]" and "region from_a 4 \<inter> region (gpr a ESP - 16) 20 = {}"
    and "stack b [ret_b, from_b, gpr a ESP - 16]" and "region from_b 4 \<inter> region (gpr b ESP - 16) 20 = {}"
    and "\<forall>x\<in>region (gpr a ESP - 16) 20. ram b x = ram (suspended e a) x"
    and "(region (gpr b ESP - 16) 16 \<union> region from_b 4) \<inter> region (gpr a ESP - 16) 20 = {}"
    and "c = exec e simple_switch b"
  shows "mem_word (ram (suspended e a)) from_a = gpr a ESP - 16 \<and>
    eip c = ret_a \<and> gpr c ESP = gpr a ESP + 4 \<and> (\<forall>r\<in>{EDI, ESI, EBX, EBP}. gpr c r = gpr a r) \<and>
    mem_word (ram c) from_b = gpr b ESP - 16 \<and> parked_context (ram c) (gpr b ESP - 16) b ret_b"
proof -
  let ?p = "gpr a ESP - 16"
  note a = suspended_parks [OF assms(1,2), of e] and b = suspended_parks [OF assms(3,4), of e]
  have f: "mem_word (ram b) (gpr b ESP + 4) = from_b" using assms(3) by (simp add: stack_def)
  define ws where "ws = [gpr a EDI, gpr a ESI, gpr a EBX, gpr a EBP, ret_a]"
  have n: "4 * length ws = 20" by (simp add: ws_def)
  have "ram (suspended e b) x = ram (suspended e a) x" if "x \<in> region ?p 20" for x
  proof -
    have "x \<notin> region (gpr b ESP - 16) 16" "x \<notin> region from_b 4" using assms(6) that by blast+
    then show ?thesis using suspended_frame [of x b e] assms(5) that unfolding f by metis
  qed
  then have "words_at (ram (suspended e b)) ?p ws \<longleftrightarrow> words_at (ram (suspended e a)) ?p ws"
    by (intro words_at_cong) (simp only: n)
  then have "parked_context (ram (suspended e b)) (gpr (suspended e b) EDX) a ret_a"
    using a(1) unfolding parked_context_def ws_def [symmetric] b(3) by simp
  note r = switch_resumes [OF this assms(7)]
  show ?thesis using a(2) b(1,2) r by (simp add: b(3))
qed

text \<open>Two coroutines: the first calls \<^verbatim>\<open>simple_switch\<close> on a stack at \<open>0x9000\<close>, the second on one at \<open>0xA000\<close>.\<close>

definition switch_call :: "addr \<Rightarrow> uint32_t \<Rightarrow> uint32_t \<Rightarrow> uint32_t \<Rightarrow> cpu \<Rightarrow> cpu" where
  "switch_call sp ret from to c = push ret (push from (push to (set_reg ESP sp c)))"

lemma switch_call_stack: "stack (switch_call sp ret from to c) [ret, from, to]" "gpr (switch_call sp ret from to c) ESP = sp - 12"
  by (auto simp: switch_call_def intro!: stack_push)

lemma switch_call_ram:
  assumes "x \<notin> region (sp - 4) 4" and "x \<notin> region (sp - 8) 4" and "x \<notin> region (sp - 12) 4"
  shows "ram (switch_call sp ret from to c) x = ram c x"
proof -
  have "ram (push v d) = store_word (ram d) (gpr d ESP - 4) v" for v d by (simp add: push_def Let_def)
  then show ?thesis using assms by (simp add: switch_call_def store_word_other del: region.simps)
qed

lemma switch_roundtrip_example:
  "\<exists>a b. stack a [0x11111, 0x500, 0x8000] \<and> stack b [0x22222, 0x504, 0x8FE4] \<and>
     eip (exec sample_env simple_switch b) = 0x11111 \<and> gpr (exec sample_env simple_switch b) EDI = gpr a EDI"
proof -
  let ?a = "switch_call 0x9000 0x11111 0x500 0x8000 sample_cpu"
  let ?b = "switch_call 0xA000 0x22222 0x504 0x8FE4 (suspended sample_env ?a)"
  have sp: "gpr ?a ESP = 0x8FF4" "gpr ?b ESP = 0x9FF4" by (simp_all add: switch_call_stack(2))
  have d: "region 0x500 4 \<inter> region 0x8FE4 20 = {}" "region 0x504 4 \<inter> region 0x9FE4 20 = {}"
    "region 0x9FE4 16 \<inter> region 0x8FE4 20 = {}" "region 0x504 4 \<inter> region 0x8FE4 20 = {}"
    "region (0xA000 - 4) 4 \<inter> region 0x8FE4 20 = {}" "region (0xA000 - 8) 4 \<inter> region 0x8FE4 20 = {}"
    "region (0xA000 - 12) 4 \<inter> region 0x8FE4 20 = {}"
    by (rule region_apart; simp)+
  have k: "\<forall>x\<in>region (gpr ?a ESP - 16) 20. ram ?b x = ram (suspended sample_env ?a) x"
  proof
    fix x assume "x \<in> region (gpr ?a ESP - 16) 20"
    then have "x \<in> region 0x8FE4 20" using sp by simp
    then show "ram ?b x = ram (suspended sample_env ?a) x" using d(5-7) by (intro switch_call_ram) blast+
  qed
  have s: "stack ?a [0x11111, 0x500, 0x8000]" "stack ?b [0x22222, 0x504, gpr ?a ESP - 16]"
    using switch_call_stack(1) [of "0xA000" "0x22222" "0x504" "0x8FE4"] by (simp_all add: switch_call_stack sp)
  have "region 0x500 4 \<inter> region (gpr ?a ESP - 16) 20 = {}" "region 0x504 4 \<inter> region (gpr ?b ESP - 16) 20 = {}"
    "(region (gpr ?b ESP - 16) 16 \<union> region 0x504 4) \<inter> region (gpr ?a ESP - 16) 20 = {}"
    using d(1-4) unfolding sp by (simp_all add: Int_Un_distrib2 del: region.simps)
  from switch_roundtrip [OF s(1) this(1) s(2) this(2) k this(3) refl]
  show ?thesis using s sp by (intro exI [of _ ?a] exI [of _ ?b]) simp
qed

end
