(* ===== verification/Spec2Isabelle.thy ===== *)
theory Spec2Isabelle
  imports Sync Idle Demo_Pace Periodic Stubs Start
begin

text \<open>
  \<^bold>\<open>A verification of os-toy-i386\<close>

  The program is a small operating system for the i386: a two-stage loader, and a kernel with
  hardware task switching, a round-robin scheduler, sleeping tasks, counting semaphores, re-entrant mutexes, a
  serial log and interrupt handling, on which two demonstration tasks run. The sources are C files and
  three assembly files under \<^verbatim>\<open>src/source\<close>.

  \<^bold>\<open>How the parts work together.\<close> The boot sector loads the loader; \<^verbatim>\<open>loader16_entry\<close> asks for the memory map and
  enters protected mode; \<^verbatim>\<open>load_kernel\<close> reads the kernel's ELF file from disk, loads its segments and calls its entry
  point, which leads to \<^verbatim>\<open>kernel_init\<close> and \<^verbatim>\<open>init_main\<close>. The kernel sets up descriptor tables, interrupts,
  clock, log and tasks. From then on tasks call the kernel (yield, sleep, wait, notify, lock, unlock)
  and the clock interrupt ends time slices and wakes sleepers. A kernel call runs with interrupts off, so calls and
  clock interrupts are atomic with respect to each other.

  \<^bold>\<open>The theories, in the order of the code.\<close>
  \<^item> \<open>OS_Prelude\<close>: machine types (a C \<^verbatim>\<open>int\<close> is a 32-bit word read by \<^const>\<open>sint\<close>, a pointer is a 32-bit address),
    shared lemmas and rule collections. \<open>Transition\<close>: labelled transition systems with the locales
    \<open>transition_invariant\<close>, \<open>simulation\<close> and \<open>simulation_invariant\<close>, the contracts the running kernel is an instance of.
  \<^item> \<open>Klist\<close>: \<^verbatim>\<open>kernel/tools/list.c\<close> and \<^verbatim>\<open>list.h\<close>, intrusive doubly linked lists over a heap of nodes. The relation
    \<open>dll\<close> connects a header and the heap with a sequence; the locale \<open>node_list\<close> states the laws of the operations and
    is interpreted on them.
  \<^item> \<open>Machine\<close>: the structures of \<^verbatim>\<open>kernel/include\<close> as records, the kernel's global state as one record \<open>kernel\<close>, and
    the instruction wrappers of \<^verbatim>\<open>comm/cpuistr.h\<close>. Tasks, semaphores and mutexes live in heaps indexed by address; the
    devices behind the ports and the addresses the linker chooses are parameters. A task switch through a TSS is
    \<open>hw_task_switch\<close>.
  \<^item> \<open>Sched\<close>, \<open>Queues\<close>, \<open>Sched_Inv\<close>: the scheduler of \<^verbatim>\<open>kernel/core/task.c\<close>, what its lists represent
    (\<open>qrel\<close>), and its invariant \<open>kinv\<close>: lists intact, every task on exactly one of them, the running task first in
    the ready list, the task register and the saved contexts consistent, interrupts enabled.
  \<^item> \<open>Ipc\<close>: \<^verbatim>\<open>kernel/ipc/sem.c\<close> and \<^verbatim>\<open>mutex.c\<close>. \<open>Irq\<close> and \<open>Timer\<close>: gates and interrupt controllers of
    \<^verbatim>\<open>kernel/cpu/irq.c\<close> and the clock of \<^verbatim>\<open>kernel/dev/timer.c\<close>. \<open>Gdt\<close> and \<open>Tasks\<close>: descriptors
    of \<^verbatim>\<open>kernel/cpu/cpu.c\<close> and task creation of \<^verbatim>\<open>task.c\<close>.
  \<^item> \<open>Klib\<close>, \<open>Klib_Text\<close>: the string, memory, number and formatting routines of \<^verbatim>\<open>kernel/tools/klib.c\<close> over a byte
    memory. \<open>Log\<close>: \<^verbatim>\<open>kernel/tools/log.c\<close>. \<open>Exceptions\<close>: the exception handlers of \<^verbatim>\<open>irq.c\<close> and \<^verbatim>\<open>panic\<close>.
  \<^item> \<open>Kernel_Spec\<close>: the abstract specification, a scheduler over plain lists with semaphores and mutexes.
    \<open>Kernel_Refine\<close>: the relation \<open>sim\<close> and the proof that every call and the clock interrupt refine it.
    \<open>Boot\<close>: \<^verbatim>\<open>kernel_init\<close> and the start of \<^verbatim>\<open>init_main\<close> in \<^verbatim>\<open>kernel/init/init.c\<close>. \<open>Kernel_Runs\<close>: the step relation
    \<open>kstep\<close> of the running system as an interpretation of \<open>simulation_invariant\<close>. \<open>Frame\<close>: what no step of it
    writes (memory, ports, descriptor tables), an interpretation of \<open>transition_invariant\<close>. \<open>Tables\<close>: what every
    entry of the two descriptor tables is after boot and stays.
  \<^item> \<open>Timing\<close>, \<open>Sync\<close>, \<open>Creation\<close>: the properties of sleeping and time slices, of semaphores and mutexes, and of task
    creation in the running system. \<open>Idle\<close>: the idle task.
  \<^item> \<open>Demo\<close>: the endless loops of \<^verbatim>\<open>init_main\<close> and \<^verbatim>\<open>new_task_entry\<close>, interleaved with the clock interrupt.
    \<open>Demo_Pace\<close>: their runs in which the running task does something between two ticks. \<open>Periodic\<close>:
    \<^verbatim>\<open>new_task2_entry\<close> and \<^verbatim>\<open>new_task3_entry\<close>, with the lemma that connects the log as one call with the log in its steps.
  \<^item> \<open>Elf\<close>, \<open>Disk\<close>, \<open>Loader16\<close>: \<^verbatim>\<open>reload_elf_file\<close>, then \<^verbatim>\<open>read_disk\<close> and \<^verbatim>\<open>load_kernel\<close> of
    \<^verbatim>\<open>loader/loader32.c\<close>, then \<^verbatim>\<open>loader/loader16.c\<close>. BIOS and drive are parameters with the hypotheses \<open>bios_lists\<close> and
    \<open>disk_ok\<close>.
  \<^item> \<open>Asm\<close>: a small machine with the instructions of the assembly files. \<open>Stubs\<close>: the interrupt stubs of
    \<^verbatim>\<open>kernel/init/start.S\<close>, which connect a gate of the interrupt table with the C handler and its frame. \<open>Start\<close>: the boot
    sector \<^verbatim>\<open>boot/start.S\<close>, the entry points \<^verbatim>\<open>protect_entry\<close> (\<^verbatim>\<open>loader/start.S\<close>) and \<^verbatim>\<open>_start\<close> of the kernel, and
    \<^verbatim>\<open>simple_switch\<close>. This theory joins the boot sector and the stages of the loader.

  \<^bold>\<open>What is proved.\<close>
  \<^item> Refinement and invariants: boot establishes the specification's initial state; every call and the clock interrupt refine
    it; in every reachable state there was no fault and every task is on exactly one list; task
    creation refines a creation step; formatted output refines a function on lists. Descriptor tables are typed: each
    vector has the gate of its handler, each used descriptor is a segment or the TSS of a task, and no call changes them.
  \<^item> Liveness and timing: sleeping lasts exactly the computed ticks, waiting for the processor is
    bounded, the clock interrupt returns, the demonstration is never stuck; if the running task
    does a step between two ticks, the lines of the two tasks alternate and the log grows at a steady rate, for runs of fewer
    than \<open>2 ^ 31 - 1\<close> steps. The idle task halts until a
    sleeper is due; a periodic task writes its line, sleeps, and the next task goes on.
  \<^item> Synchronisation: accounting and first come first served for semaphores, exclusion for mutexes, and for the
    demonstration that lines on the serial port are never mixed and respect causality.
  \<^item> Functional correctness, bounds and errors of the routines: lists, descriptors, number texts, memory
    copies, the log, exception reports, the memory map, disk reads and the ELF loader, including misuse, full tables,
    rejected names and overflow, and the reports that \<^verbatim>\<open>kernel_itoa\<close> cuts short because a register is negative as
    \<^verbatim>\<open>int\<close>. Reports are proved for frames whose lines fit the 127 bytes of the buffer; the code can overrun it.
  \<^item> Assembly: every stub passes a frame with the registers of the interrupted program (its stack pointer 20 too low, and
    the number \<open>-1\<close> for vectors without a handler), resumes it with all registers when the handler returns, and an
    exception report shows that frame; the boot sector loads the loader or retries for ever; the chain from the boot sector
    to the call of the kernel's entry point.

  \<^bold>\<open>Where code and comments disagree the code is modelled.\<close> The kernel is read from sector 65 (a comment in \<^verbatim>\<open>info.h\<close>
  says 70); an entry of the memory map is ignored when its ACPI bit is clear (\<^verbatim>\<open>types.h\<close> says when it is set); the value
  printed for SS is DS (\<^verbatim>\<open>irq.c\<close> says ES).

  \<^bold>\<open>Bounds and partiality.\<close> Loops bounded by a counter are primitive recursions on it. Loops that end on what memory or
  a device holds are \<^theory_text>\<open>partial_function (option)\<close>, so that not returning is the value \<^const>\<open>None\<close>; where a
  property says that such a routine returns, the result is shown to be \<^const>\<open>Some\<close>. Counters of semaphores and levels
  of mutexes are assumed not to pass \<open>2 ^ 31 - 1\<close> (\<open>allowed\<close>); the demonstration derives this for runs
  of fewer than \<open>2 ^ 31\<close> steps. The paced runs ask for one step of the running
    task (a kernel call or a byte sent) between two ticks of 10 ms; a line is at most 60 bytes, hence 66 steps, fewer than
    the 101 ticks of a sleep. The memory map keeps at most nine regions, as the code does.

  \<^bold>\<open>What is not modelled, and where the model is coarser than the machine.\<close>
  \<^item> The linker scripts: addresses are a symbol table. The machine of \<open>Asm\<close> does not fetch instructions from memory, and
    it is not overlaid with the kernel's state: what the stubs and the handlers share is the frame. So it is not shown that
    the kernel's segments stay clear of the loader that copies them; \<^verbatim>\<open>boot_info\<close> is a record beside the byte memory.
  \<^item> Of the processor's registers the kernel model keeps \<^verbatim>\<open>eflags\<close>, the task register and the table registers; a task's
    saved context is its TSS. The busy
    bit of a TSS descriptor is modelled: a switch to the running task faults, which the guard in \<^verbatim>\<open>task_dispatch\<close> excludes.
  \<^item> Typed objects (lists, tasks, semaphores, tables) are not overlaid with the byte memory; that they do not overlap is a
    hypothesis where two of them are written.
  \<^item> A function that holds a mutex (descriptor allocation, the log) is one step when the mutex is free; when it
    is taken, the outcome \<open>Suspended\<close> says so. \<open>Demo\<close> cuts the log into its steps; the carriage return and line feed
    that end a line are one of them. The start of \<^verbatim>\<open>init_main\<close> is one step, although interrupts are already enabled while
    its last statement creates the new task. A round of the idle loop is one clock interrupt, the only one that is unmasked.
  \<^item> The commented-out tests of \<^verbatim>\<open>init.c\<close>, which no configuration builds. \<^verbatim>\<open>new_task2_entry\<close> and
    \<^verbatim>\<open>new_task3_entry\<close> are compiled but their creation is commented out; they are modelled as written. An exception
    raised while a task runs is a report of \<open>Exceptions\<close>, not a step of \<open>kstep\<close>; it ends the run, as the handler halts
    the processor. While another task holds the mutex of the log the outcome of a handler is \<open>Suspended\<close>.
\<close>

section \<open>Properties\<close>

text \<open>The processor when the loader jumps to its 32-bit part: memory, code segment, instruction pointer and flags are those of
  the loader's state; the remaining registers are whatever the processor \<open>c\<close> has in them.\<close>

definition protected_cpu :: "loader \<Rightarrow> cpu \<Rightarrow> cpu" where
  "protected_cpu s c = c\<lparr>ram := l_mem s, sgr := (sgr c)(CS := l_cs s), eip := l_eip s, flg := l_eflags s\<rparr>"

text \<open>C14. From power-on to the kernel. When the boot sector, run with a BIOS whose disk service behaves as documented, has
  loaded the loader, then with a BIOS that lists the memory, an ATA drive and a loadable kernel file on it (from sector 65
  on, as the code has it; a comment says 70), \<^verbatim>\<open>loader16_entry\<close> returns with the first nine usable regions in
  \<^verbatim>\<open>boot_info\<close> (usable as the code tests it: the comment on the ACPI bit says the opposite), interrupts off and
  protection on, about to execute \<^verbatim>\<open>protect_entry\<close> in the code segment. From the processor in that state
  \<^verbatim>\<open>protect_entry\<close> goes to \<^verbatim>\<open>load_kernel\<close> with a flat code segment in CS and a flat data segment in every other
  segment register, memory and flags unchanged; and \<^verbatim>\<open>load_kernel\<close>, run on that memory, calls the entry point of
  the kernel's file with the address of \<^verbatim>\<open>boot_info\<close> and every segment in place. Memory outside the loader's
  sectors, the segments and the file buffer is as it was at power-on.\<close>

theorem boot_chain:
  assumes "boot_sector start int13 r = Some r'" and "bios_disk sectors int13" and "l_mem s = r_mem r'"
    and "length (ram_region_info (boot_info s)) = 10" and "\<not> l_fault s"
    and "cstr (l_mem s) (l_sym s ''str_loading'') m0"
    and "cstr (l_mem s) (l_sym s ''str_detecting'') m1" and "cstr (l_mem s) (l_sym s ''str_detected'') m2"
    and "bios_lists es cont bios" and "\<not> ignored (last es)"
    and "disk_ok disk (pc.truncate s)" and "m = disk_image disk (l_mem s)"
    and "elf_image m 0x100000 256000" and "e_entry (read_ehdr m 0x100000) \<noteq> 0" and "sym env = l_sym s"
  shows "\<exists>s1 c1 s2. r_ip r' = 0x8000 \<and> (\<forall>i<512 * 64. l_mem s (0x8000 + of_nat i) = sectors (512 + i)) \<and>
    loader16_entry bios e s = Some s1 \<and> l_eip s1 = sym env ''protect_entry'' \<and> flat_code (desc_of (gdt_table16 ! sel_index (l_cs s1))) \<and>
    recorded (take 9 (map region_of (filter usable es))) s1 \<and> bit (l_cr0 s1) 0 \<and>
    c1 = exec env protect_entry (protected_cpu s1 c) \<and> eip c1 = sym env ''load_kernel'' \<and> \<not> if_set (flg c1) \<and>
    (\<forall>q. let d = desc_of (gdt_table16 ! sel_index (sgr c1 q)) in if q = CS then flat_code d else flat_data d) \<and>
    load_kernel (l_sym s ''boot_info'') ((pc.truncate s1)\<lparr>l_mem := ram c1\<rparr>) =
      Some (e_entry (read_ehdr m 0x100000), l_sym s ''boot_info'', s2) \<and>
    (\<forall>ph\<in>set (phdrs m 0x100000). seg_loaded m 0x100000 ph (l_mem s2)) \<and>
    (\<forall>x. x \<notin> \<Union> (footprint ` set (phdrs m 0x100000)) \<and> x \<notin> region 0x100000 256000 \<and> x \<notin> region 0x8000 (512 * 64) \<longrightarrow>
       l_mem s2 x = r_mem r x)"
proof -
  have "r_seg (boot_setup start r) ES = 0" "r_mem (boot_setup start r) = r_mem r" by (simp_all add: boot_setup_def)
  then have b: "r_ip r' = 0x8000" "loader_in_place sectors (r_mem r) (l_mem s)"
    using read_loader_loads [OF assms(1) [unfolded boot_sector_def] assms(2)] assms(3) by simp_all
  obtain s1 where s1: "loader16_entry bios e s = Some s1" "recorded (take 9 (map region_of (filter usable es))) s1"
    "bit (l_cr0 s1) 0" "\<not> if_set (l_eflags s1)" "l_eip s1 = l_sym s ''protect_entry''" "l_cs s1 = 8"
    "l_mem s1 = l_mem s" "l_inb s1 = l_inb s" "l_inw s1 = l_inw s"
    using loader16_entry_lists [OF assms(4-10), of e] by blast
  define c1 where "c1 = exec env protect_entry (protected_cpu s1 c)"
  have c1: "eip c1 = sym env ''load_kernel''" "ram c1 = l_mem s" "flg c1 = l_eflags s1"
    using protect_entry_flat(1-3) [of env "protected_cpu s1 c"] s1(7) by (simp_all add: c1_def protected_cpu_def)
  have q: "let d = desc_of (gdt_table16 ! sel_index (sgr c1 q)) in if q = CS then flat_code d else flat_data d" for q
    unfolding c1_def Let_def by (rule protect_entry_flat(4))
  let ?p = "(pc.truncate s1)\<lparr>l_mem := ram c1\<rparr>"
  have pc: "l_inb (pc.truncate t) = l_inb t" "l_inw (pc.truncate t) = l_inw t" for t :: loader by (simp_all add: pc.truncate_def)
  have d: "disk_ok disk ?p" using assms(11) s1(8,9) by (simp add: disk_ok_def pc)
  have m: "m = disk_image disk (l_mem ?p)" using assms(12) c1(2) by simp
  obtain s2 where s2: "load_kernel (l_sym s ''boot_info'') ?p = Some (e_entry (read_ehdr m 0x100000), l_sym s ''boot_info'', s2)"
    "\<forall>ph\<in>set (phdrs m 0x100000). seg_loaded m 0x100000 ph (l_mem s2)"
    "\<forall>x. x \<notin> \<Union> (footprint ` set (phdrs m 0x100000)) \<longrightarrow> l_mem s2 x = m x"
    using load_kernel_loads [OF d m, of "l_sym s ''boot_info''", THEN conjunct1, rule_format, OF conjI [OF assms(13,14)]]
    by (elim exE conjE)
  have o: "m x = r_mem r x" if "x \<notin> region 0x100000 256000" "x \<notin> region 0x8000 (512 * 64)" for x
    using that b(2) by (simp add: assms(12) disk_image_def loader_in_place_def del: region.simps)
  have code: "flat_code (desc_of (gdt_table16 ! sel_index (l_cs s1)))"
    by (simp add: s1(6) sel_index_def drop_bit_eq_div gdt_table16_entries)
  show ?thesis
    by (intro exI [of _ s1] exI [of _ c1] exI [of _ s2] conjI c1_def)
      (use b s1(1-5) s2 o code c1 q assms(15) in \<open>simp_all add: loader_in_place_def del: region.simps\<close>)
qed

text \<open>The sample kernel file on a disk that the boot sector reads in the third attempt.\<close>

theorem boot_chain_witness:
  "\<exists>r' s s1 (c1 :: cpu) s2. boot_sector 0x7C00 sample_int13 sample_real = Some r' \<and> l_mem s = r_mem r' \<and>
     loader16_entry sample_bios blank_entry s = Some s1 \<and>
     load_kernel 0x9000 ((pc.truncate s1)\<lparr>l_mem := ram c1\<rparr>) = Some (0x10000, 0x9000, s2) \<and> l_mem s2 0x10000 = 0xB8 \<and>
     l_mem s2 0x10003 = 0"
proof -
  obtain r' where r: "boot_sector 0x7C00 sample_int13 sample_real = Some r'"
    "loader_in_place of_nat (r_mem sample_real) (r_mem r')" using sample_boot_sector by blast
  let ?s = "sample_loader\<lparr>l_mem := r_mem r'\<rparr>" and ?e = "sample_env\<lparr>sym := l_sym sample_loader\<rparr>"
  let ?m = "disk_image sample_disk (l_mem ?s)"
  have "r_mem r' (0x8000 + of_nat 0x1000) = of_nat (512 + 0x1000)"
    using r(2) [unfolded loader_in_place_def, THEN conjunct1, rule_format, of "0x1000"] by simp
  then have c: "cstr (l_mem ?s) (l_sym ?s x) []" for x by (simp add: sample_loader_fields cstr_Nil)
  have f: "length (ram_region_info (boot_info ?s)) = 10" "\<not> l_fault ?s" using sample_loader_fields(3,4) by simp_all
  have e: "e_entry (read_ehdr ?m 0x100000) = 0x10000" by (simp add: sample_disk_elf(3) sample_elf_headers(3))
  have "disk_ok sample_disk (pc.truncate sample_loader)"
    using sample_disk_ok by (simp add: sample_loader_fields(7) disk_ok_def)
  then have d: "disk_ok sample_disk (pc.truncate ?s)" by (simp add: disk_ok_def pc.truncate_def)
  have m: "l_mem ?s = r_mem r'" by simp
  have n: "e_entry (read_ehdr ?m 0x100000) \<noteq> 0" unfolding e by simp
  have y: "sym ?e = l_sym ?s" by simp
  have b: "l_sym ?s ''boot_info'' = 0x9000" by (simp add: sample_loader_fields)
  note chain = boot_chain [OF r(1) sample_bios_disk m f c c c sample_bios_lists sample_map_last d refl sample_disk_elf(1) n y,
      of blank_entry sample_cpu]
  obtain s1 s2 and c1 :: cpu where s: "loader16_entry sample_bios blank_entry ?s = Some s1"
    "load_kernel (l_sym ?s ''boot_info'') ((pc.truncate s1)\<lparr>l_mem := ram c1\<rparr>) =
       Some (e_entry (read_ehdr ?m 0x100000), l_sym ?s ''boot_info'', s2)"
    "\<forall>ph\<in>set (phdrs ?m 0x100000). seg_loaded ?m 0x100000 ph (l_mem s2)" using chain by (elim exE conjE) (rule that)
  show ?thesis using r(1) m s(1) s(2) [unfolded e b] sample_segment [OF s(3)] by blast
qed

end
